(* ===== verification/Pm_Prelude.thy ===== *)
theory Pm_Prelude
  imports Main "HOL-Library.Word" "HOL-Library.Multiset"
begin

text \<open>
  Shared vocabulary of the development: bytes and C strings, the host's
  little-endian layout of 32-bit values, the contract of \<^verbatim>\<open>std::sort\<close>,
  the order of \<^verbatim>\<open>std::string\<close>, and generic lemmas on lists that several
  components use. A C or C++ string is a list of bytes without its terminator.
  An out-of-range read of the program is \<^term>\<open>None\<close>, never an unspecified value.
\<close>

unbundle bit_operations_syntax

named_theorems pm_defs "definitions that component proofs unfold by default"

section \<open>Bytes and C strings\<close>

type_synonym byte = "8 word"
type_synonym bytes = "8 word list"
type_synonym u32 = "32 word"

text \<open>A string literal of the source as bytes.\<close>

definition lit :: "string \<Rightarrow> bytes" where
  "lit s = map of_char s"

text \<open>A string whose C view is the whole string: it holds no NUL byte.\<close>

definition nul_free :: "bytes \<Rightarrow> bool" where
  "nul_free s \<longleftrightarrow> 0 \<notin> set s"

text \<open>
  \<^verbatim>\<open>strlen(&buf[off])\<close> on an array that ends where the list ends: \<^term>\<open>None\<close> is a
  read past the end of the array.
\<close>

definition strlen_at :: "bytes \<Rightarrow> nat \<Rightarrow> nat option" where
  "strlen_at buf off =
     (let s = takeWhile (\<lambda>b. b \<noteq> 0) (drop off buf)
      in if off + length s < length buf then Some (length s) else None)"

text \<open>The \<^verbatim>\<open>n\<close> bytes at \<^verbatim>\<open>off\<close>, when the array has them.\<close>

definition mem_slice :: "'a list \<Rightarrow> nat \<Rightarrow> nat \<Rightarrow> 'a list option" where
  "mem_slice buf off n = (if off + n \<le> length buf then Some (take n (drop off buf)) else None)"

lemma nul_free_simps [simp]:
  "nul_free []"
  "nul_free (c # s) \<longleftrightarrow> c \<noteq> 0 \<and> nul_free s"
  "nul_free (s @ t) \<longleftrightarrow> nul_free s \<and> nul_free t"
  by (auto simp: nul_free_def)

lemma nul_free_drop [intro]: "nul_free s \<Longrightarrow> nul_free (drop n s)"
  by (auto simp: nul_free_def dest: in_set_dropD)

lemma nul_free_take [intro]: "nul_free s \<Longrightarrow> nul_free (take n s)"
  by (auto simp: nul_free_def dest: in_set_takeD)

lemma nul_free_nth: "nul_free s \<Longrightarrow> i < length s \<Longrightarrow> s ! i \<noteq> 0"
  by (metis nul_free_def nth_mem)

lemma takeWhile_nul_free: "nul_free s \<Longrightarrow> takeWhile (\<lambda>b. b \<noteq> 0) (s @ 0 # t) = s"
  by (induction s) auto

lemma takeWhile_nul_free_self: "nul_free s \<Longrightarrow> takeWhile (\<lambda>b. b \<noteq> 0) s = s"
  by (induction s) auto

lemma strlen_at_append:
  "nul_free s \<Longrightarrow> off = length pre \<Longrightarrow> strlen_at (pre @ s @ 0 # post) off = Some (length s)"
  by (simp add: strlen_at_def takeWhile_nul_free)

lemma mem_slice_append: "off = length pre \<Longrightarrow> n = length s \<Longrightarrow> mem_slice (pre @ s @ post) off n = Some s"
  by (simp add: mem_slice_def)

section \<open>Little-endian 32-bit values\<close>

text \<open>\<^verbatim>\<open>memcpy\<close> of a 32-bit integer to or from memory on the little-endian host.\<close>

definition le32 :: "u32 \<Rightarrow> bytes" where
  "le32 w = [ucast w, ucast (drop_bit 8 w), ucast (drop_bit 16 w), ucast (drop_bit 24 w)]"

definition un_le32 :: "byte \<Rightarrow> byte \<Rightarrow> byte \<Rightarrow> byte \<Rightarrow> u32" where
  "un_le32 a b c d =
     ucast a OR push_bit 8 (ucast b) OR push_bit 16 (ucast c) OR push_bit 24 (ucast d)"

fun read_le32 :: "bytes \<Rightarrow> u32 option" where
  "read_le32 (a # b # c # d # _) = Some (un_le32 a b c d)"
| "read_le32 _ = None"

lemma length_le32 [simp]: "length (le32 w) = 4"
  by (simp add: le32_def)

lemma un_le32_le32:
  "un_le32 (ucast w) (ucast (drop_bit 8 w)) (ucast (drop_bit 16 w)) (ucast (drop_bit 24 w)) = w"
proof (rule bit_word_eqI)
  fix n assume "n < LENGTH(32)"
  then consider "n < 8" | "8 \<le> n" "n < 16" | "16 \<le> n" "n < 24" | "24 \<le> n" "n < 32"
    by force
  then show "bit (un_le32 (ucast w) (ucast (drop_bit 8 w)) (ucast (drop_bit 16 w))
      (ucast (drop_bit 24 w))) n \<longleftrightarrow> bit w n"
    by cases (auto simp: un_le32_def bit_simps)
qed

lemma read_le32_le32 [simp]: "read_le32 (le32 w @ rest) = Some w"
  by (simp add: le32_def un_le32_le32)

section \<open>The order of std::string\<close>

text \<open>
  \<^verbatim>\<open>std::string::operator<\<close> compares bytes as unsigned values, a proper prefix
  being smaller; \<^verbatim>\<open>std::map\<close> and \<^verbatim>\<open>std::set\<close> keep their keys in this order.
\<close>

fun bytes_less :: "bytes \<Rightarrow> bytes \<Rightarrow> bool" where
  "bytes_less [] [] = False"
| "bytes_less [] (_ # _) = True"
| "bytes_less (_ # _) [] = False"
| "bytes_less (a # s) (b # t) = (a < b \<or> (a = b \<and> bytes_less s t))"

lemma bytes_less_irrefl [simp]: "\<not> bytes_less s s"
  by (induction s) auto

lemma bytes_less_trans: "bytes_less s t \<Longrightarrow> bytes_less t u \<Longrightarrow> bytes_less s u"
proof (induction s t arbitrary: u rule: bytes_less.induct)
  case (2 b t)
  then show ?case by (cases u) auto
next
  case (4 a s b t)
  then show ?case by (cases u) auto
qed auto

lemma bytes_less_linear: "bytes_less s t \<or> s = t \<or> bytes_less t s"
  by (induction s t rule: bytes_less.induct) auto

lemma bytes_less_append [simp]: "bytes_less (p @ s) (p @ t) \<longleftrightarrow> bytes_less s t"
  by (induction p) auto

section \<open>The contract of std::sort\<close>

text \<open>
  \<^verbatim>\<open>std::sort\<close> is not stable, so the order of elements that compare equal is its
  own choice. The models take the sorting function as an argument; what the code
  may rely on is this contract.
\<close>

definition std_sort_ok :: "('a \<Rightarrow> 'a \<Rightarrow> bool) \<Rightarrow> ('a list \<Rightarrow> 'a list) \<Rightarrow> bool" where
  "std_sort_ok lt srt \<longleftrightarrow>
     (\<forall>xs. mset (srt xs) = mset xs \<and> sorted_wrt (\<lambda>a b. \<not> lt b a) (srt xs))"

text \<open>One concrete instance: insertion sort with the given comparison.\<close>

fun ins_by :: "('a \<Rightarrow> 'a \<Rightarrow> bool) \<Rightarrow> 'a \<Rightarrow> 'a list \<Rightarrow> 'a list" where
  "ins_by lt x [] = [x]"
| "ins_by lt x (y # ys) = (if lt y x then y # ins_by lt x ys else x # y # ys)"

definition isort_by :: "('a \<Rightarrow> 'a \<Rightarrow> bool) \<Rightarrow> 'a list \<Rightarrow> 'a list" where
  "isort_by lt xs = foldr (ins_by lt) xs []"

lemma mset_ins_by [simp]: "mset (ins_by lt x ys) = add_mset x (mset ys)"
  by (induction ys) auto

lemma set_ins_by [simp]: "set (ins_by lt x ys) = insert x (set ys)"
  by (induction ys) auto

lemma sorted_ins_by:
  assumes asym: "\<And>a b. lt a b \<Longrightarrow> \<not> lt b a" and negtrans: "\<And>a b c. \<not> lt b a \<Longrightarrow> \<not> lt c b \<Longrightarrow> \<not> lt c a"
  shows "sorted_wrt (\<lambda>a b. \<not> lt b a) ys \<Longrightarrow> sorted_wrt (\<lambda>a b. \<not> lt b a) (ins_by lt x ys)"
proof (induction ys)
  case Nil
  then show ?case by simp
next
  case (Cons y ys)
  show ?case
  proof (cases "lt y x")
    case True
    with Cons show ?thesis by (simp add: asym)
  next
    case False
    have "\<not> lt z x" if "z \<in> set ys" for z
      using negtrans [of y x z] False Cons.prems that by simp
    with False Cons.prems show ?thesis by simp
  qed
qed

lemma isort_by_ok:
  assumes "\<And>a b. lt a b \<Longrightarrow> \<not> lt b a" and "\<And>a b c. \<not> lt b a \<Longrightarrow> \<not> lt c b \<Longrightarrow> \<not> lt c a"
  shows "std_sort_ok lt (isort_by lt)"
  unfolding std_sort_ok_def isort_by_def
proof (intro allI conjI)
  fix xs
  show "mset (foldr (ins_by lt) xs []) = mset xs"
    by (induction xs) simp_all
  show "sorted_wrt (\<lambda>a b. \<not> lt b a) (foldr (ins_by lt) xs [])"
  proof (induction xs)
    case (Cons x xs)
    with sorted_ins_by [of lt, OF assms] show ?case by simp
  qed simp
qed

section \<open>Results of code that throws or may not return\<close>

text \<open>
  \<^term>\<open>None\<close>: the code does not return (or leaves the language's defined behaviour);
  \<^term>\<open>Some (Inl e)\<close>: it throws; \<^term>\<open>Some (Inr x)\<close>: it returns.
\<close>

type_synonym ('e, 'a) outcome = "('e + 'a) option"

definition bindR :: "('e, 'a) outcome \<Rightarrow> ('a \<Rightarrow> ('e, 'b) outcome) \<Rightarrow> ('e, 'b) outcome" where
  "bindR m f = (case m of None \<Rightarrow> None | Some (Inl e) \<Rightarrow> Some (Inl e) | Some (Inr x) \<Rightarrow> f x)"

lemma bindR_simps [simp]:
  "bindR None f = None"
  "bindR (Some (Inl e)) f = Some (Inl e)"
  "bindR (Some (Inr x)) f = f x"
  by (simp_all add: bindR_def)

section \<open>Lists\<close>

text \<open>\<^verbatim>\<open>vector::resize(n, x)\<close>: cut or pad to length \<^verbatim>\<open>n\<close>.\<close>

definition resize :: "nat \<Rightarrow> 'a \<Rightarrow> 'a list \<Rightarrow> 'a list" where
  "resize n x xs = take n xs @ replicate (n - length xs) x"

lemma length_resize [simp]: "length (resize n x xs) = n"
  by (auto simp: resize_def)

lemma nth_resize: "i < n \<Longrightarrow> resize n x xs ! i = (if i < length xs then xs ! i else x)"
  by (auto simp: resize_def nth_append)

section \<open>Counting in a list\<close>

definition count_if :: "('a \<Rightarrow> bool) \<Rightarrow> 'a list \<Rightarrow> nat" where
  "count_if P xs = length (filter P xs)"

lemma count_if_update: "t < length xs \<Longrightarrow> count_if P (xs[t := y]) + of_bool (P (xs ! t)) = count_if P xs + of_bool (P y)"
proof (induction xs arbitrary: t)
  case (Cons x xs)
  then show ?case by (cases t) (auto simp: count_if_def)
qed simp

lemma count_if_zero: "count_if P xs = 0 \<longleftrightarrow> (\<forall>x\<in>set xs. \<not> P x)"
  by (simp add: count_if_def filter_empty_conv)

lemma count_if_replicate [simp]: "\<not> P x \<Longrightarrow> count_if P (replicate n x) = 0"
  by (simp add: count_if_zero)

lemma moved_count:
  assumes "t < length xs" "P (xs ! t) = P y"
  shows "count_if P (xs[t := y]) = count_if P xs"
  using count_if_update [OF assms(1), of P y] assms(2) by simp

end
