(* ===== verification/Das_Traits.thy ===== *)
theory Das_Traits
  imports Pm_Prelude
begin

text \<open>
  dastrie.h, the global constants, the two element layouts of a double array
  (\<^verbatim>\<open>doublearray4_traits\<close>, \<^verbatim>\<open>doublearray5_traits\<close>) and the unextendable
  \<^verbatim>\<open>array\<close>. The template argument \<^verbatim>\<open>doublearray_traits\<close> of the trie and its
  builder is a record of the functions the traits classes define; the locale
  \<open>da_traits_laws\<close> states what the trie and the builder rely on, and it is
  interpreted on both layouts.
\<close>

section \<open>Constants\<close>

definition INVALID_INDEX :: nat where "INVALID_INDEX = 0"
definition INITIAL_INDEX :: nat where "INITIAL_INDEX = 1"
definition NUMCHARS :: nat where "NUMCHARS = 256"
definition CHUNKSIZE :: nat where "CHUNKSIZE = 8"
definition SDAT_CHUNKSIZE :: nat where "SDAT_CHUNKSIZE = 16"

lemmas das_consts = INVALID_INDEX_def INITIAL_INDEX_def NUMCHARS_def CHUNKSIZE_def
  SDAT_CHUNKSIZE_def

section \<open>Traits\<close>

text \<open>\<^verbatim>\<open>base_type\<close> is \<^verbatim>\<open>int32_t\<close>, read as an integer; \<^verbatim>\<open>check_type\<close> is a byte.\<close>

record 'e da_traits =
  chunk_id :: bytes
  min_base :: int
  max_base :: int
  default_value :: 'e
  tr_get_base :: "'e \<Rightarrow> int"
  tr_get_check :: "'e \<Rightarrow> byte"
  tr_set_base :: "'e \<Rightarrow> int \<Rightarrow> 'e"
  tr_set_check :: "'e \<Rightarrow> byte \<Rightarrow> 'e"
  elem_size :: nat \<comment> \<open>\<^verbatim>\<open>sizeof(element_type)\<close>\<close>
  elem_image :: "'e \<Rightarrow> bytes" \<comment> \<open>the element in memory\<close>
  elem_read :: "bytes \<Rightarrow> 'e" \<comment> \<open>the element whose memory these bytes are\<close>

subsection \<open>Four bytes per element\<close>

definition da4_max_base :: int where "da4_max_base = 0x007FFFFF"

definition da4_get_base :: "u32 \<Rightarrow> int" where
  "da4_get_base e = sint (signed_drop_bit 8 e)"

definition da4_get_check :: "u32 \<Rightarrow> byte" where
  "da4_get_check e = ucast (e AND 0x000000FF)"

definition da4_set_base :: "u32 \<Rightarrow> int \<Rightarrow> u32" where
  "da4_set_base e v = (e AND 0x000000FF) OR push_bit 8 (word_of_int v)"

definition da4_set_check :: "u32 \<Rightarrow> byte \<Rightarrow> u32" where
  "da4_set_check e v = (e AND 0xFFFFFF00) OR ucast v"

definition doublearray4_traits :: "u32 da_traits" where
  "doublearray4_traits =
     \<lparr>chunk_id = lit ''SDA4'', min_base = 1, max_base = da4_max_base, default_value = 0,
      tr_get_base = da4_get_base, tr_get_check = da4_get_check,
      tr_set_base = da4_set_base, tr_set_check = da4_set_check,
      elem_size = 4, elem_image = le32, elem_read = (\<lambda>bs. the (read_le32 bs))\<rparr>"

subsection \<open>Five bytes per element\<close>

text \<open>\<^verbatim>\<open>uint8_t v[5]\<close>: four bytes of BASE, one of CHECK.\<close>

datatype element5 = Element5 byte byte byte byte byte

definition da5_max_base :: int where "da5_max_base = 0x7FFFFFFF"

definition da5_default_value :: element5 where
  "da5_default_value = Element5 0 0 0 0 0"

fun da5_get_base :: "element5 \<Rightarrow> int" where
  "da5_get_base (Element5 a b c d _) = sint (un_le32 a b c d)"

fun da5_get_check :: "element5 \<Rightarrow> byte" where
  "da5_get_check (Element5 _ _ _ _ v4) = v4"

fun da5_set_base :: "element5 \<Rightarrow> int \<Rightarrow> element5" where
  "da5_set_base (Element5 _ _ _ _ v4) v =
     (let w = word_of_int v :: u32
      in Element5 (ucast w) (ucast (drop_bit 8 w)) (ucast (drop_bit 16 w)) (ucast (drop_bit 24 w)) v4)"

fun da5_set_check :: "element5 \<Rightarrow> byte \<Rightarrow> element5" where
  "da5_set_check (Element5 a b c d _) v = Element5 a b c d v"

fun element5_image :: "element5 \<Rightarrow> bytes" where
  "element5_image (Element5 a b c d e) = [a, b, c, d, e]"

definition element5_read :: "bytes \<Rightarrow> element5" where
  "element5_read bs = Element5 (bs ! 0) (bs ! 1) (bs ! 2) (bs ! 3) (bs ! 4)"

definition doublearray5_traits :: "element5 da_traits" where
  "doublearray5_traits =
     \<lparr>chunk_id = lit ''SDA5'', min_base = 1, max_base = da5_max_base,
      default_value = da5_default_value,
      tr_get_base = da5_get_base, tr_get_check = da5_get_check,
      tr_set_base = da5_set_base, tr_set_check = da5_set_check,
      elem_size = 5, elem_image = element5_image, elem_read = element5_read\<rparr>"

section \<open>What the trie relies on\<close>

locale da_traits_laws =
  fixes T :: "'e da_traits"
  assumes get_base_set_base:
      "- max_base T \<le> v \<Longrightarrow> v \<le> max_base T \<Longrightarrow> tr_get_base T (tr_set_base T e v) = v"
    and get_check_set_base [simp]: "tr_get_check T (tr_set_base T e v) = tr_get_check T e"
    and get_base_set_check [simp]: "tr_get_base T (tr_set_check T e c) = tr_get_base T e"
    and get_check_set_check [simp]: "tr_get_check T (tr_set_check T e c) = c"
    and get_base_default [simp]: "tr_get_base T (default_value T) = 0"
    and get_check_default [simp]: "tr_get_check T (default_value T) = 0"
    and max_base_pos: "256 < max_base T"
    and elem_size_pos: "0 < elem_size T"
    and length_elem_image: "length (elem_image T e) = elem_size T"
    and elem_read_image: "elem_read T (elem_image T e @ rest) = e"
    and length_chunk_id: "length (chunk_id T) = 4"
    and chunk_id_fresh: "chunk_id T \<noteq> lit ''TBLU'' \<and> chunk_id T \<noteq> lit ''TAIL''"
begin

lemma get_base_set_base_1: "tr_get_base T (tr_set_base T e 1) = 1"
  using max_base_pos by (simp add: get_base_set_base)

end

lemma sint32_range: "- 0x80000000 \<le> v \<Longrightarrow> v \<le> 0x7FFFFFFF \<Longrightarrow> sint (word_of_int v :: u32) = v"
  by (simp add: signed_take_bit_int_eq_self sint_sbintrunc')

lemma da5_get_base_set_base:
  "- da5_max_base \<le> v \<Longrightarrow> v \<le> da5_max_base \<Longrightarrow> da5_get_base (da5_set_base e v) = v"
  by (cases e) (simp add: Let_def un_le32_le32 da5_max_base_def sint32_range)

lemma u32_byte_masks: "(0x000000FF :: u32) = mask 8" "(0xFFFFFF00 :: u32) = NOT (mask 8)"
  by (simp_all add: mask_eq_exp_minus_1)

lemma da4_get_base_set_base:
  assumes "- da4_max_base \<le> v" "v \<le> da4_max_base"
  shows "da4_get_base (da4_set_base e v) = v"
proof -
  have "signed_drop_bit 8 (da4_set_base e v) = (word_of_int v :: u32)"
  proof (rule bit_word_eqI)
    fix n assume "n < LENGTH(32)"
    then have n: "n < 32" by simp
    have v: "bit v m \<longleftrightarrow> bit v 23" if "23 \<le> m" for m
    proof -
      have "signed_take_bit 23 v = v"
        using assms by (simp add: da4_max_base_def signed_take_bit_int_eq_self)
      moreover have "bit (signed_take_bit 23 v) m \<longleftrightarrow> bit v 23"
        using that by (simp add: bit_signed_take_bit_iff min_def)
      ultimately show ?thesis by simp
    qed
    show "bit (signed_drop_bit 8 (da4_set_base e v)) n \<longleftrightarrow> bit (word_of_int v :: u32) n"
      using n v [of n] v [of 31] v [of "31 - 8"] by (auto simp: da4_set_base_def u32_byte_masks bit_simps)
  qed
  then show ?thesis
    using assms by (simp add: da4_get_base_def da4_max_base_def sint32_range)
qed

interpretation da4: da_traits_laws doublearray4_traits
proof unfold_locales
  fix e v assume "- max_base doublearray4_traits \<le> v" "v \<le> max_base doublearray4_traits"
  then show "tr_get_base doublearray4_traits (tr_set_base doublearray4_traits e v) = v"
    by (simp add: doublearray4_traits_def da4_get_base_set_base)
next
  fix e v
  show "tr_get_check doublearray4_traits (tr_set_base doublearray4_traits e v)
    = tr_get_check doublearray4_traits e"
    unfolding doublearray4_traits_def da4_get_check_def da4_set_base_def u32_byte_masks
    by simp (rule bit_word_eqI, auto simp: bit_simps)
next
  fix e c
  show "tr_get_base doublearray4_traits (tr_set_check doublearray4_traits e c)
    = tr_get_base doublearray4_traits e"
  proof -
    have "signed_drop_bit 8 (da4_set_check e c) = signed_drop_bit 8 e"
      by (rule bit_word_eqI)
        (auto simp: da4_set_check_def u32_byte_masks bit_simps dest: bit_imp_le_length)
    then show ?thesis by (simp add: doublearray4_traits_def da4_get_base_def)
  qed
next
  fix e c
  show "tr_get_check doublearray4_traits (tr_set_check doublearray4_traits e c) = c"
    unfolding doublearray4_traits_def da4_get_check_def da4_set_check_def u32_byte_masks
    by simp (rule bit_word_eqI, auto simp: bit_simps)
next
  fix e rest
  show "elem_read doublearray4_traits (elem_image doublearray4_traits e @ rest) = e"
    by (simp add: doublearray4_traits_def)
qed (simp_all add: doublearray4_traits_def da4_get_base_def da4_get_check_def
  da4_max_base_def lit_def)

interpretation da5: da_traits_laws doublearray5_traits
proof unfold_locales
  fix e v assume "- max_base doublearray5_traits \<le> v" "v \<le> max_base doublearray5_traits"
  then show "tr_get_base doublearray5_traits (tr_set_base doublearray5_traits e v) = v"
    by (simp add: doublearray5_traits_def da5_get_base_set_base)
next
  fix e v
  show "tr_get_check doublearray5_traits (tr_set_base doublearray5_traits e v)
    = tr_get_check doublearray5_traits e"
    by (cases e) (simp add: doublearray5_traits_def Let_def)
next
  fix e c
  show "tr_get_base doublearray5_traits (tr_set_check doublearray5_traits e c)
    = tr_get_base doublearray5_traits e"
    by (cases e) (simp add: doublearray5_traits_def)
next
  fix e c
  show "tr_get_check doublearray5_traits (tr_set_check doublearray5_traits e c) = c"
    by (cases e) (simp add: doublearray5_traits_def)
next
  fix e rest
  show "length (elem_image doublearray5_traits e) = elem_size doublearray5_traits"
    and "elem_read doublearray5_traits (elem_image doublearray5_traits e @ rest) = e"
    by (cases e; simp add: doublearray5_traits_def element5_read_def)+
qed (simp_all add: doublearray5_traits_def da5_default_value_def un_le32_def
  da5_max_base_def lit_def)

section \<open>The unextendable array\<close>

text \<open>
  \<^verbatim>\<open>m_block\<close> is \<^term>\<open>None\<close> for the null pointer, otherwise the elements the pointer
  and \<^verbatim>\<open>m_size\<close> denote. With \<^verbatim>\<open>own\<close> the elements are copied, otherwise they are
  shared with the caller's block, which the trie never writes.
\<close>

record 'a arr =
  m_block :: "'a list option"
  m_own :: bool

definition arr_new :: "'a arr" where
  "arr_new = \<lparr>m_block = None, m_own = False\<rparr>"

definition arr_free :: "'a arr \<Rightarrow> 'a arr" where
  "arr_free a = \<lparr>m_block = None, m_own = False\<rparr>"

definition arr_assign :: "'a arr \<Rightarrow> 'a list option \<Rightarrow> bool \<Rightarrow> 'a arr" where
  "arr_assign a block own = (arr_free a)\<lparr>m_block := block, m_own := own\<rparr>"

text \<open>The copy constructor and \<^verbatim>\<open>operator=\<close> assign the other array's block and ownership.\<close>

definition arr_copy :: "'a arr \<Rightarrow> 'a arr \<Rightarrow> 'a arr" where
  "arr_copy a rho = arr_assign a (m_block rho) (m_own rho)"

definition arr_size :: "'a arr \<Rightarrow> nat" where
  "arr_size a = (case m_block a of None \<Rightarrow> 0 | Some xs \<Rightarrow> length xs)"

definition arr_allocated :: "'a arr \<Rightarrow> bool" where
  "arr_allocated a \<longleftrightarrow> m_block a \<noteq> None"

text \<open>\<^verbatim>\<open>operator[]\<close>: no check in the code, so a read outside the array is \<^term>\<open>None\<close>.\<close>

definition arr_get :: "'a arr \<Rightarrow> nat \<Rightarrow> 'a option" where
  "arr_get a i = (case m_block a of None \<Rightarrow> None
     | Some xs \<Rightarrow> if i < length xs then Some (xs ! i) else None)"

text \<open>The elements of an array, none for the null array.\<close>

definition arr_list :: "'a arr \<Rightarrow> 'a list" where
  "arr_list a = (case m_block a of None \<Rightarrow> [] | Some xs \<Rightarrow> xs)"

lemma arr_assign_simps [simp]:
  "arr_list (arr_assign a (Some xs) own) = xs"
  "arr_size (arr_assign a (Some xs) own) = length xs"
  "arr_allocated (arr_assign a (Some xs) own)"
  by (simp_all add: arr_assign_def arr_list_def arr_size_def arr_allocated_def)

lemma arr_copy_eq [simp]: "arr_copy a rho = rho"
  by (simp add: arr_copy_def arr_assign_def arr_free_def)

lemma arr_get_list: "arr_get a i = (if i < length (arr_list a) then Some (arr_list a ! i) else None)"
  by (auto simp: arr_get_def arr_list_def split: option.split)

lemma arr_size_list: "arr_size a = length (arr_list a)"
  by (auto simp: arr_size_def arr_list_def split: option.split)

end
