(* ===== verification/Das_Tail.thy ===== *)
theory Das_Tail
  imports Das_Traits
begin

text \<open>
  dastrie.h, the tail array: the writer \<^verbatim>\<open>otail\<close>, the reader \<^verbatim>\<open>itail\<close>, and the
  values stored in it. A record value is any type with \<^verbatim>\<open>operator<<\<close> and
  \<^verbatim>\<open>operator>>\<close>; the locale \<open>tail_codec\<close> states the contract between the two
  operators, and it is interpreted on \<^verbatim>\<open>dastrie::empty_type\<close> and on the
  \<^verbatim>\<open>string_array\<close> of the indexer (writer) and the server (reader).
\<close>

section \<open>The writer otail\<close>

text \<open>The state is the byte vector \<^verbatim>\<open>m_cont\<close>.\<close>

type_synonym otail = bytes

definition otail_new :: otail where "otail_new = []"

definition otail_bytes :: "otail \<Rightarrow> nat" where "otail_bytes t = length t"

definition otail_tellp :: "otail \<Rightarrow> nat" where "otail_tellp t = otail_bytes t"

definition otail_clear :: "otail \<Rightarrow> otail" where "otail_clear t = []"

text \<open>\<^verbatim>\<open>write(data, size)\<close>: grow by \<^verbatim>\<open>size\<close> bytes and copy the data to the end.\<close>

definition otail_write :: "otail \<Rightarrow> bytes \<Rightarrow> nat \<Rightarrow> otail" where
  "otail_write t data sz =
     (let offset = otail_bytes t
      in if 0 < sz then take offset (resize (offset + sz) 0 t) @ take sz data else t)"

text \<open>\<^verbatim>\<open>write(value)\<close> and the \<^verbatim>\<open>operator<<\<close> of the 32-bit types write their memory.\<close>

definition otail_put_u32 :: "otail \<Rightarrow> u32 \<Rightarrow> otail" where
  "otail_put_u32 t v = otail_write t (le32 v) 4"

definition otail_put_u8 :: "otail \<Rightarrow> byte \<Rightarrow> otail" where
  "otail_put_u8 t v = otail_write t [v] 1"

text \<open>
  \<^verbatim>\<open>write_string(std::string, offset)\<close>: the characters from \<^verbatim>\<open>offset\<close> on and the
  terminator of \<^verbatim>\<open>c_str()\<close>. The callers keep \<^verbatim>\<open>offset \<le> length\<close>.
\<close>

definition otail_write_string :: "otail \<Rightarrow> bytes \<Rightarrow> nat \<Rightarrow> otail" where
  "otail_write_string t s offset =
     otail_write t (drop offset (s @ [0])) (length s - offset + 1)"

definition otail_put_str :: "otail \<Rightarrow> bytes \<Rightarrow> otail" where
  "otail_put_str t s = otail_write_string t s 0"

lemma otail_write_append [simp]: "sz \<le> length data \<Longrightarrow> otail_write t data sz = t @ take sz data"
  by (auto simp: otail_write_def otail_bytes_def resize_def Let_def)

lemma otail_put_simps [simp]:
  "otail_put_u32 t v = t @ le32 v"
  "otail_put_u8 t c = t @ [c]"
  "offset \<le> length s \<Longrightarrow> otail_write_string t s offset = t @ drop offset s @ [0]"
  "otail_put_str t s = t @ s @ [0]"
  by (auto simp: otail_put_u32_def otail_put_u8_def otail_write_string_def otail_put_str_def)

section \<open>The reader itail\<close>

record itail =
  it_cont :: "byte arr" \<comment> \<open>\<^verbatim>\<open>m_cont\<close>\<close>
  it_off :: nat \<comment> \<open>\<^verbatim>\<open>m_offset\<close>\<close>

definition itail_new :: itail where
  "itail_new = \<lparr>it_cont = arr_new, it_off = 0\<rparr>"

text \<open>The implicit copy constructor, as in \<^verbatim>\<open>itail tmp_itail(m_tail)\<close>.\<close>

definition itail_copy :: "itail \<Rightarrow> itail" where
  "itail_copy t = \<lparr>it_cont = arr_copy arr_new (it_cont t), it_off = it_off t\<rparr>"

definition itail_assign :: "itail \<Rightarrow> bytes option \<Rightarrow> bool \<Rightarrow> itail" where
  "itail_assign t block own = t\<lparr>it_cont := arr_assign (it_cont t) block own\<rparr>"

definition itail_seekg :: "itail \<Rightarrow> nat \<Rightarrow> itail" where
  "itail_seekg t offset = (if offset < arr_size (it_cont t) then t\<lparr>it_off := offset\<rparr> else t)"

definition itail_tellg :: "itail \<Rightarrow> nat" where "itail_tellg t = it_off t"

definition itail_strlen :: "itail \<Rightarrow> nat option" where
  "itail_strlen t = strlen_at (arr_list (it_cont t)) (it_off t)"

text \<open>\<^verbatim>\<open>match_string\<close>: \<^verbatim>\<open>memcmp\<close> with the key and its terminator.\<close>

definition itail_match_string :: "itail \<Rightarrow> bytes \<Rightarrow> bool" where
  "itail_match_string t s =
     (let len = length s + 1
      in it_off t + len \<le> arr_size (it_cont t)
         \<and> take len (drop (it_off t) (arr_list (it_cont t))) = s @ [0])"

text \<open>
  \<^verbatim>\<open>match_string_partial\<close>: the string in the tail is a prefix of \<^verbatim>\<open>str\<close>. Its length
  comes from \<^verbatim>\<open>strlen\<close> on the tail array, which may run off its end.
\<close>

definition itail_match_string_partial :: "itail \<Rightarrow> bytes \<Rightarrow> bool option" where
  "itail_match_string_partial t s =
     (case itail_strlen t of
        None \<Rightarrow> None
      | Some len \<Rightarrow>
          Some (it_off t + len + 1 \<le> arr_size (it_cont t)
            \<and> take len (drop (it_off t) (arr_list (it_cont t))) = take len (s @ [0])
            \<and> arr_list (it_cont t) ! (it_off t + len) = 0))"

text \<open>
  \<^verbatim>\<open>read(data, size)\<close>: past the end nothing is read and nothing moves, and the
  caller's variable keeps what it held (\<^term>\<open>None\<close>).
\<close>

definition itail_read :: "itail \<Rightarrow> nat \<Rightarrow> bytes option \<times> itail" where
  "itail_read t sz =
     (if it_off t + sz \<le> arr_size (it_cont t)
      then (Some (take sz (drop (it_off t) (arr_list (it_cont t)))), t\<lparr>it_off := it_off t + sz\<rparr>)
      else (None, t))"

definition itail_get_u32 :: "itail \<Rightarrow> u32 option \<times> itail" where
  "itail_get_u32 t = (case itail_read t 4 of (bs, t') \<Rightarrow> (Option.bind bs read_le32, t'))"

text \<open>\<^verbatim>\<open>operator>>(std::string)\<close>: the C string at the position, and past its terminator.\<close>

definition itail_get_str :: "itail \<Rightarrow> (bytes \<times> itail) option" where
  "itail_get_str t =
     (case itail_strlen t of
        None \<Rightarrow> None
      | Some n \<Rightarrow> Some (take n (drop (it_off t) (arr_list (it_cont t))), t\<lparr>it_off := it_off t + (n + 1)\<rparr>))"

lemma itail_copy_eq [simp]: "itail_copy t = t"
  by (simp add: itail_copy_def)

text \<open>The tail holds \<^term>\<open>s\<close> at \<^term>\<open>off\<close>.\<close>

definition tail_holds :: "bytes \<Rightarrow> nat \<Rightarrow> bytes \<Rightarrow> bool" where
  "tail_holds cont off s \<longleftrightarrow> (\<exists>pre post. cont = pre @ s @ post \<and> length pre = off)"

lemma tail_holds_append: "tail_holds c off s \<Longrightarrow> tail_holds (c @ x) off s"
  by (auto simp: tail_holds_def) (metis append.assoc)

lemma tail_holds_end: "tail_holds (c @ s @ post) (length c) s"
  by (auto simp: tail_holds_def)

lemma tail_holds_split:
  "tail_holds c off (s @ t) \<Longrightarrow> tail_holds c off s \<and> tail_holds c (off + length s) t"
proof (unfold tail_holds_def, elim exE conjE, intro conjI)
  fix pre post assume c: "c = pre @ (s @ t) @ post" and len: "length pre = off"
  show "\<exists>pre post. c = pre @ s @ post \<and> length pre = off"
    using c len by (intro exI [of _ pre] exI [of _ "t @ post"]) simp
  show "\<exists>pre post. c = pre @ t @ post \<and> length pre = off + length s"
    using c len by (intro exI [of _ "pre @ s"] exI [of _ post]) simp
qed

lemma tail_holds_bound: "tail_holds c off s \<Longrightarrow> off + length s \<le> length c"
  by (auto simp: tail_holds_def)

lemma tail_holds_take: "tail_holds c off s \<Longrightarrow> take (length s) (drop off c) = s"
  by (auto simp: tail_holds_def)

lemma itail_strlen_holds:
  "tail_holds (arr_list (it_cont t)) (it_off t) (s @ [0]) \<Longrightarrow> nul_free s \<Longrightarrow> itail_strlen t = Some (length s)"
  by (auto simp: tail_holds_def itail_strlen_def strlen_at_append)

lemma itail_seekg_holds:
  "tail_holds (arr_list (it_cont t)) off s \<Longrightarrow> s \<noteq> [] \<Longrightarrow> itail_seekg t off = t\<lparr>it_off := off\<rparr>"
  by (cases s) (auto simp: itail_seekg_def arr_size_list dest: tail_holds_bound)

text \<open>On a stored string, \<^verbatim>\<open>match_string\<close> is equality.\<close>

lemma nul_free_prefix_eq:
  "nul_free s \<Longrightarrow> nul_free k \<Longrightarrow> k @ [0] = take (Suc (length k)) (s @ 0 # post) \<Longrightarrow> k = s"
proof (induction k arbitrary: s)
  case Nil
  then show ?case by (cases s) auto
next
  case (Cons a k)
  then show ?case by (cases s) auto
qed

lemma itail_match_string_holds:
  assumes holds: "tail_holds (arr_list (it_cont t)) (it_off t) (s @ [0])"
    and "nul_free s" "nul_free k"
  shows "itail_match_string t k \<longleftrightarrow> k = s"
proof -
  obtain pre post where c: "arr_list (it_cont t) = pre @ (s @ [0]) @ post" "length pre = it_off t"
    using holds by (auto simp: tail_holds_def)
  have "itail_match_string t k \<longleftrightarrow>
      length k + 1 \<le> length (s @ 0 # post) \<and> take (Suc (length k)) (s @ 0 # post) = k @ [0]"
    using c by (simp add: itail_match_string_def arr_size_list Let_def)
  also have "\<dots> \<longleftrightarrow> k = s"
    using nul_free_prefix_eq [OF assms(2,3), of post] by auto
  finally show ?thesis .
qed

lemma itail_get_str_holds:
  "tail_holds (arr_list (it_cont t)) (it_off t) (s @ [0]) \<Longrightarrow> nul_free s \<Longrightarrow>
   itail_get_str t = Some (s, t\<lparr>it_off := it_off t + length s + 1\<rparr>)"
  using tail_holds_take [of _ _ s] tail_holds_split [of _ _ s "[0]"]
  by (simp add: itail_get_str_def itail_strlen_holds)

lemma itail_get_u32_holds:
  "tail_holds (arr_list (it_cont t)) (it_off t) (le32 w) \<Longrightarrow>
   itail_get_u32 t = (Some w, t\<lparr>it_off := it_off t + 4\<rparr>)"
  using tail_holds_bound [of _ _ "le32 w"] tail_holds_take [of _ _ "le32 w"] read_le32_le32 [of w "[]"]
  by (simp add: itail_get_u32_def itail_read_def arr_size_list)

lemma itail_updates [simp]:
  "it_cont (itail_seekg t off) = it_cont t"
  by (simp add: itail_seekg_def)

section \<open>Record values\<close>

text \<open>
  The contract between \<^verbatim>\<open>operator<<\<close> (\<open>put\<close>) and \<^verbatim>\<open>operator>>\<close> (\<open>get\<close>) of a record
  value: writing appends, and reading at the place of a value written there gives the
  value back, for the values (\<open>ok\<close>) whose stored form is unambiguous.
\<close>

locale tail_codec =
  fixes put :: "otail \<Rightarrow> 'v \<Rightarrow> otail"
    and get :: "itail \<Rightarrow> ('v \<times> itail) option"
    and ok :: "'v \<Rightarrow> bool"
  assumes put_append: "put t v = t @ put [] v"
    and get_put: "ok v \<Longrightarrow> tail_holds (arr_list (it_cont r)) (it_off r) (put [] v) \<Longrightarrow>
      get r = Some (v, r\<lparr>it_off := it_off r + length (put [] v)\<rparr>)"
begin

lemma get_after_put:
  assumes "ok v"
  shows "get \<lparr>it_cont = arr_assign a (Some (put t v @ rest)) own, it_off = length t\<rparr>
    = Some (v, \<lparr>it_cont = arr_assign a (Some (put t v @ rest)) own, it_off = length (put t v)\<rparr>)"
proof -
  have "tail_holds (put t v @ rest) (length t) (put [] v)"
    using tail_holds_end [of t "put [] v" rest] by (simp add: put_append [of t v])
  then show ?thesis
    using get_put [OF assms, of "\<lparr>it_cont = arr_assign a (Some (put t v @ rest)) own, it_off = length t\<rparr>"]
    by (simp add: put_append [of t v])
qed

end

subsection \<open>empty\_type\<close>

definition empty_type_put :: "otail \<Rightarrow> unit \<Rightarrow> otail" where
  "empty_type_put os obj = os"

definition empty_type_get :: "itail \<Rightarrow> (unit \<times> itail) option" where
  "empty_type_get is = Some ((), is)"

interpretation empty_codec: tail_codec empty_type_put empty_type_get "\<lambda>_. True"
  by unfold_locales (auto simp: empty_type_put_def empty_type_get_def)

subsection \<open>string\_array\<close>

text \<open>
  A \<^verbatim>\<open>NodeItem\<close> is a display string and its rank, a \<^verbatim>\<open>float\<close> kept as its 32 bits.
\<close>

record node_item =
  strName :: bytes
  fRank :: u32

type_synonym string_array = "node_item list"

definition put_item :: "otail \<Rightarrow> node_item \<Rightarrow> otail" where
  "put_item os it = otail_put_u32 (otail_put_str os (strName it)) (fRank it)"

definition string_array_put :: "otail \<Rightarrow> string_array \<Rightarrow> otail" where
  "string_array_put os obj =
     foldl put_item (otail_put_u32 os (word_of_nat (length obj))) obj"

text \<open>
  The reader's loop. Its local \<^verbatim>\<open>item\<close> lives across the iterations, so a rank that
  cannot be read keeps the previous item's; before the first one it is indeterminate,
  and using it (or an indeterminate \<^verbatim>\<open>n\<close>) is \<^term>\<open>None\<close>.
\<close>

fun get_items :: "nat \<Rightarrow> itail \<Rightarrow> u32 option \<Rightarrow> string_array \<Rightarrow> (string_array \<times> itail) option" where
  "get_items 0 is rank obj = Some (obj, is)"
| "get_items (Suc n) is rank obj =
     (case itail_get_str is of
        None \<Rightarrow> None
      | Some (name, is1) \<Rightarrow>
          (case itail_get_u32 is1 of (r, is2) \<Rightarrow>
             (case (if r = None then rank else r) of
                None \<Rightarrow> None
              | Some w \<Rightarrow> get_items n is2 (Some w) (obj @ [\<lparr>strName = name, fRank = w\<rparr>]))))"

definition string_array_get :: "itail \<Rightarrow> (string_array \<times> itail) option" where
  "string_array_get is =
     (case itail_get_u32 is of
        (None, _) \<Rightarrow> None
      | (Some n, is1) \<Rightarrow> get_items (unat n) is1 None [])"

text \<open>The arrays that survive the trip: names without NUL, a count that fits its field.\<close>

definition string_array_ok :: "string_array \<Rightarrow> bool" where
  "string_array_ok obj \<longleftrightarrow> length obj < 2 ^ 32 \<and> (\<forall>it \<in> set obj. nul_free (strName it))"

definition items_image :: "string_array \<Rightarrow> bytes" where
  "items_image obj = concat (map (\<lambda>it. strName it @ [0] @ le32 (fRank it)) obj)"

lemma node_item_collapse [simp]: "\<lparr>strName = strName it, fRank = fRank it\<rparr> = it"
  for it :: node_item
  by (cases it) simp

lemma foldl_put_item: "foldl put_item os obj = os @ items_image obj"
  by (induction obj arbitrary: os) (simp_all add: put_item_def items_image_def)

lemma string_array_put_eq:
  "string_array_put os obj = os @ le32 (word_of_nat (length obj)) @ items_image obj"
  by (simp add: string_array_put_def foldl_put_item)

lemma get_items_holds:
  assumes "\<forall>it \<in> set obj. nul_free (strName it)"
    and "tail_holds (arr_list (it_cont r)) (it_off r) (items_image obj)"
  shows "get_items (length obj) r rank acc
    = Some (acc @ obj, r\<lparr>it_off := it_off r + length (items_image obj)\<rparr>)"
  using assms
proof (induction obj arbitrary: r rank acc)
  case Nil
  then show ?case by (simp add: items_image_def)
next
  case (Cons it obj)
  let ?r1 = "r\<lparr>it_off := it_off r + length (strName it) + 1\<rparr>"
  let ?r2 = "r\<lparr>it_off := it_off r + length (strName it) + 5\<rparr>"
  have img: "items_image (it # obj) = (strName it @ [0]) @ le32 (fRank it) @ items_image obj"
    by (simp add: items_image_def)
  have holds: "tail_holds (arr_list (it_cont r)) (it_off r) (strName it @ [0])"
    "tail_holds (arr_list (it_cont r)) (it_off r + length (strName it) + 1) (le32 (fRank it))"
    "tail_holds (arr_list (it_cont r)) (it_off r + length (strName it) + 5) (items_image obj)"
    using tail_holds_split [OF Cons.prems(2) [unfolded img]]
      tail_holds_split [of _ _ "le32 (fRank it)" "items_image obj"]
    by (auto simp: eval_nat_numeral)
  have "itail_get_str r = Some (strName it, ?r1)"
    using itail_get_str_holds [OF holds(1)] Cons.prems(1) by simp
  moreover have "itail_get_u32 ?r1 = (Some (fRank it), ?r2)"
    using itail_get_u32_holds [of ?r1 "fRank it"] holds(2) by (simp add: add_ac)
  moreover have "get_items (length obj) ?r2 (Some (fRank it)) (acc @ [it])
      = Some ((acc @ [it]) @ obj, ?r2\<lparr>it_off := it_off ?r2 + length (items_image obj)\<rparr>)"
    using Cons.IH [of ?r2] Cons.prems(1) holds(3) by simp
  ultimately show ?case
    by (simp add: img add_ac)
qed

interpretation sa_codec: tail_codec string_array_put string_array_get string_array_ok
proof unfold_locales
  fix t v show "string_array_put t v = t @ string_array_put [] v"
    by (simp add: string_array_put_eq)
next
  fix v and r :: itail
  assume ok: "string_array_ok v"
    and holds: "tail_holds (arr_list (it_cont r)) (it_off r) (string_array_put [] v)"
  then have h: "tail_holds (arr_list (it_cont r)) (it_off r) (le32 (word_of_nat (length v)))"
    "tail_holds (arr_list (it_cont r)) (it_off r + 4) (items_image v)"
    by (auto simp: string_array_put_eq dest!: tail_holds_split)
  have n: "unat (word_of_nat (length v) :: u32) = length v"
    using ok by (simp add: string_array_ok_def unat_of_nat take_bit_nat_eq_self)
  show "string_array_get r = Some (v, r\<lparr>it_off := it_off r + length (string_array_put [] v)\<rparr>)"
    using ok h(2) get_items_holds [of v "r\<lparr>it_off := it_off r + 4\<rparr>" None "[]"]
    by (simp add: string_array_get_def itail_get_u32_holds [OF h(1)] n string_array_put_eq
        string_array_ok_def add_ac)
qed

end
