(* ===== verification/Das_Trie.thy ===== *)
theory Das_Trie
  imports Das_Tail "HOL-Library.Monad_Syntax"
begin

text \<open>
  dastrie.h, the reader of a double-array trie: exact search (\<^verbatim>\<open>locate\<close>, \<^verbatim>\<open>find\<close>,
  \<^verbatim>\<open>get\<close>, \<^verbatim>\<open>in\<close>), the enumeration of the records below a prefix (\<^verbatim>\<open>locate_ex\<close>,
  \<^verbatim>\<open>getChildren\<close>, \<^verbatim>\<open>getChildrenRecursive\<close>), the prefix cursor (\<^verbatim>\<open>next_prefix\<close>)
  and the two \<^verbatim>\<open>assign\<close> and \<^verbatim>\<open>read\<close> operations that load a trie. A C string
  argument is the list of its bytes. \<^term>\<open>None\<close> is a read outside an array, the use of
  an indeterminate value, or a run that does not end.
\<close>

section \<open>State\<close>

record 'e trie =
  t_block :: "bytes option" \<comment> \<open>\<^verbatim>\<open>m_block\<close>, the memory \<^verbatim>\<open>read\<close> has allocated\<close>
  t_table :: "byte list" \<comment> \<open>\<^verbatim>\<open>m_table\<close>\<close>
  t_da :: "'e arr" \<comment> \<open>\<^verbatim>\<open>m_da\<close>\<close>
  t_tail :: itail \<comment> \<open>\<^verbatim>\<open>m_tail\<close>\<close>
  t_n :: "nat option" \<comment> \<open>\<^verbatim>\<open>m_n\<close>, which the constructor leaves indeterminate\<close>

definition trie_new :: "'e trie" where
  "trie_new = \<lparr>t_block = None, t_table = map word_of_nat [0..<NUMCHARS], t_da = arr_new,
     t_tail = itail_new, t_n = None\<rparr>"

definition trie_size :: "'e trie \<Rightarrow> nat option" where "trie_size t = t_n t"

definition t_get_base :: "'e da_traits \<Rightarrow> 'e trie \<Rightarrow> nat \<Rightarrow> int option" where
  "t_get_base T t i = map_option (tr_get_base T) (arr_get (t_da t) i)"

definition t_get_check :: "'e da_traits \<Rightarrow> 'e trie \<Rightarrow> nat \<Rightarrow> byte option" where
  "t_get_check T t i = map_option (tr_get_check T) (arr_get (t_da t) i)"

text \<open>A character of a C string, its terminator included.\<close>

definition cstr_at :: "bytes \<Rightarrow> nat \<Rightarrow> byte" where
  "cstr_at s p = (if p < length s then s ! p else 0)"

section \<open>Exact search\<close>

definition descend :: "'e da_traits \<Rightarrow> 'e trie \<Rightarrow> nat \<Rightarrow> byte \<Rightarrow> nat option" where
  "descend T t i c = do {
     base \<leftarrow> t_get_base T t i;
     if base \<le> 0 then Some INVALID_INDEX
     else do {
       let check = t_table t ! unat c;
       let next = nat base + unat check + 1;
       if arr_size (t_da t) \<le> next then Some INVALID_INDEX
       else do {
         ck \<leftarrow> t_get_check T t next;
         Some (if ck \<noteq> check then INVALID_INDEX else next)
       }
     }
   }"

text \<open>
  The loop of \<^verbatim>\<open>locate\<close> from position \<^verbatim>\<open>p\<close> of the key at element \<^verbatim>\<open>cur\<close>. It stops
  at a leaf with the leaf's offset and the position (\<^term>\<open>Some (offset, p)\<close>), or makes
  \<^verbatim>\<open>locate\<close> return false (\<^term>\<open>None\<close>).
\<close>

function locate_loop :: "'e da_traits \<Rightarrow> 'e trie \<Rightarrow> bytes \<Rightarrow> nat \<Rightarrow> nat \<Rightarrow> (nat \<times> nat) option option" where
  "locate_loop T t key p cur =
     (case t_get_base T t cur of
        None \<Rightarrow> None
      | Some base \<Rightarrow>
          if base < 0 then Some (Some (nat (- base), p))
          else if length key < p then Some None
          else case descend T t cur (cstr_at key p) of
              None \<Rightarrow> None
            | Some cur' \<Rightarrow>
                if cur' = INVALID_INDEX then Some None else locate_loop T t key (p + 1) cur')"
  by pat_completeness auto

termination
  by (relation "measure (\<lambda>(T, t, key, p, cur). length key + 1 - p)") auto

declare locate_loop.simps [simp del]

definition locate :: "'e da_traits \<Rightarrow> 'e trie \<Rightarrow> bytes \<Rightarrow> (nat \<times> 'e trie) option" where
  "locate T t key = do {
     r \<leftarrow> locate_loop T t key 0 INITIAL_INDEX;
     case r of
       None \<Rightarrow> Some (0, t)
     | Some (offset, p) \<Rightarrow> do {
         let p' = (if length key < p then length key else p);
         let t' = t\<lparr>t_tail := itail_seekg (t_tail t) offset\<rparr>;
         if itail_match_string (t_tail t') (drop p' key)
         then do { n \<leftarrow> itail_strlen (t_tail t'); Some (offset + n + 1, t') }
         else Some (0, t')
       }
   }"

definition trie_in :: "'e da_traits \<Rightarrow> 'e trie \<Rightarrow> bytes \<Rightarrow> (bool \<times> 'e trie) option" where
  "trie_in T t key = do { (offset, t') \<leftarrow> locate T t key; Some (offset \<noteq> 0, t') }"

text \<open>\<^verbatim>\<open>find\<close> returns true with a value, or false and leaves the caller's variable alone.\<close>

definition find :: "'e da_traits \<Rightarrow> (itail \<Rightarrow> ('v \<times> itail) option) \<Rightarrow> 'e trie \<Rightarrow> bytes \<Rightarrow>
  ('v option \<times> 'e trie) option" where
  "find T get t key = do {
     (offset, t1) \<leftarrow> locate T t key;
     if offset \<noteq> 0 then do {
       (v, tl') \<leftarrow> get (itail_seekg (t_tail t1) offset);
       Some (Some v, t1\<lparr>t_tail := tl'\<rparr>)
     } else Some (None, t1)
   }"

definition trie_get :: "'e da_traits \<Rightarrow> (itail \<Rightarrow> ('v \<times> itail) option) \<Rightarrow> 'e trie \<Rightarrow> bytes \<Rightarrow> 'v \<Rightarrow>
  ('v \<times> 'e trie) option" where
  "trie_get T get t key dflt = do {
     (r, t') \<leftarrow> find T get t key;
     Some (case r of Some v \<Rightarrow> v | None \<Rightarrow> dflt, t')
   }"

section \<open>The records below a prefix\<close>

record 'v key_value_pair =
  kv_key :: bytes
  kv_value :: 'v

text \<open>
  The loop of \<^verbatim>\<open>locate_ex\<close>, which ends at the end of the key: the offset of a leaf
  it has met before (0 if none), the position and the element, or \<^term>\<open>None\<close> when there is
  no child.
\<close>

function locate_ex_loop :: "'e da_traits \<Rightarrow> 'e trie \<Rightarrow> bytes \<Rightarrow> nat \<Rightarrow> nat \<Rightarrow>
  (nat \<times> nat \<times> nat) option option" where
  "locate_ex_loop T t key p cur =
     (if length key \<le> p then Some (Some (0, p, cur))
      else case t_get_base T t cur of
        None \<Rightarrow> None
      | Some base \<Rightarrow>
          if base < 0 then Some (Some (nat (- base), p, cur))
          else case descend T t cur (cstr_at key p) of
              None \<Rightarrow> None
            | Some cur' \<Rightarrow>
                if cur' = INVALID_INDEX then Some None else locate_ex_loop T t key (p + 1) cur')"
  by pat_completeness auto

termination
  by (relation "measure (\<lambda>(T, t, key, p, cur). length key + 1 - p)") auto

declare locate_ex_loop.simps [simp del]

definition locate_ex :: "'e da_traits \<Rightarrow> 'e trie \<Rightarrow> bytes \<Rightarrow> nat option" where
  "locate_ex T t key = do {
     r \<leftarrow> locate_ex_loop T t key 0 INITIAL_INDEX;
     case r of
       None \<Rightarrow> Some INVALID_INDEX
     | Some (offset, p, cur) \<Rightarrow> do {
         let tmp = itail_seekg (itail_copy (t_tail t)) offset;
         Some (if itail_match_string tmp (drop p key) then cur else INITIAL_INDEX)
       }
   }"

text \<open>
  The state of \<^verbatim>\<open>getChildrenRecursive\<close>: the result vector, the count still needed
  and the current key, all passed by reference.
\<close>

type_synonym 'v gc_state = "'v key_value_pair list \<times> int \<times> bytes"

text \<open>A leaf met by the loop: its tail string and its value are read from the loop's copy of the tail.\<close>

definition gc_leaf :: "(itail \<Rightarrow> ('v \<times> itail) option) \<Rightarrow> itail \<Rightarrow> int \<Rightarrow> 'v gc_state \<Rightarrow>
  (itail \<times> 'v gc_state) option" where
  "gc_leaf get tmp base = (\<lambda>(vec, n, key). do {
     (str_tail, tmp1) \<leftarrow> itail_get_str (itail_seekg tmp (nat (- base)));
     (v, tmp2) \<leftarrow> get tmp1;
     Some (tmp2, vec @ [\<lparr>kv_key = key @ str_tail, kv_value = v\<rparr>], n - 1, key)
   })"

text \<open>\<^verbatim>\<open>strCurrentKey.erase(size() - 1)\<close> throws on an empty string.\<close>

definition erase_last :: "bytes \<Rightarrow> bytes option" where
  "erase_last s = (if s = [] then None else Some (butlast s))"

text \<open>
  The loop over the characters \<^verbatim>\<open>c < 255\<close>; the recursive call is the loop of the child
  from 0, after the callee's own check. A corrupt trie can send it round for ever, which
  is \<^term>\<open>None\<close>.
\<close>

partial_function (option) gc_loop :: "'e da_traits \<Rightarrow> (itail \<Rightarrow> ('v \<times> itail) option) \<Rightarrow> 'e trie \<Rightarrow>
  nat \<Rightarrow> nat \<Rightarrow> itail \<Rightarrow> 'v gc_state \<Rightarrow> 'v gc_state option" where
  "gc_loop T get t cur c tmp st =
     (if \<not> (c < 255 \<and> 0 < fst (snd st)) then Some st
      else Option.bind (descend T t cur (word_of_nat c)) (\<lambda>nxt.
        if nxt = INVALID_INDEX then gc_loop T get t cur (c + 1) tmp st
        else Option.bind (t_get_base T t nxt) (\<lambda>base.
          Option.bind
            (let st1 = (fst st, fst (snd st), snd (snd st) @ [word_of_nat c])
             in if base < 0 then gc_leaf get tmp base st1 else Some (tmp, st1)) (\<lambda>(tmp2, st2).
          if fst (snd st2) \<le> 0 then Some st2
          else Option.bind
            (if nxt = 0 \<or> fst (snd st2) \<le> 0 then Some st2
             else gc_loop T get t nxt 0 (itail_copy (t_tail t)) st2) (\<lambda>st3.
          Option.bind (erase_last (snd (snd st3))) (\<lambda>key.
            gc_loop T get t cur (c + 1) tmp2 (fst st3, fst (snd st3), key)))))))"

declare gc_loop.simps [code]

definition getChildrenRecursive :: "'e da_traits \<Rightarrow> (itail \<Rightarrow> ('v \<times> itail) option) \<Rightarrow> 'e trie \<Rightarrow>
  nat \<Rightarrow> 'v gc_state \<Rightarrow> 'v gc_state option" where
  "getChildrenRecursive T get t cur st =
     (if cur = 0 \<or> fst (snd st) \<le> 0 then Some st
      else gc_loop T get t cur 0 (itail_copy (t_tail t)) st)"

definition getChildren :: "'e da_traits \<Rightarrow> (itail \<Rightarrow> ('v \<times> itail) option) \<Rightarrow> 'e trie \<Rightarrow>
  bytes \<Rightarrow> 'v key_value_pair list \<Rightarrow> int \<Rightarrow> (bool \<times> 'v key_value_pair list) option" where
  "getChildren T get t key vec n =
     (if n \<le> 0 then Some (True, vec)
      else do {
        offset \<leftarrow> locate_ex T t key;
        if offset \<noteq> 0 then do {
          base \<leftarrow> t_get_base T t offset;
          (vec1, n1) \<leftarrow>
            (if base < 0 then do {
               (str_tail, tmp1) \<leftarrow> itail_get_str (itail_seekg (itail_copy (t_tail t)) (nat (- base)));
               (v, tmp2) \<leftarrow> get tmp1;
               Some (vec @ [\<lparr>kv_key = key, kv_value = v\<rparr>], n - 1)
             } else Some (vec, n));
          (vec2, n2, key2) \<leftarrow> getChildrenRecursive T get t offset (vec1, n1, key);
          Some (True, vec2)
        } else Some (False, vec)
      })"

section \<open>The prefix cursor\<close>

datatype trie_error =
    InvalidArc \<comment> \<open>"An invalid arc found after a null character"\<close>
  | NonEmptyTail \<comment> \<open>"A non empty tail found after a null character"\<close>

record 'v prefix_cursor =
  pc_trie :: bool \<comment> \<open>\<^verbatim>\<open>m_trie\<close> is not null\<close>
  pc_query :: bytes
  pc_length :: "nat option" \<comment> \<open>\<^term>\<open>None\<close>: indeterminate\<close>
  pc_value :: "'v option"
  pc_cur :: nat

definition prefix_cursor_new :: "'v prefix_cursor" where
  "prefix_cursor_new = \<lparr>pc_trie = False, pc_query = [], pc_length = Some 0, pc_value = None,
     pc_cur = INITIAL_INDEX\<rparr>"

definition trie_prefix :: "bytes \<Rightarrow> 'v prefix_cursor" where
  "trie_prefix q = \<lparr>pc_trie = True, pc_query = q, pc_length = Some 0, pc_value = None,
     pc_cur = INITIAL_INDEX\<rparr>"

text \<open>The copy constructor does not set \<^verbatim>\<open>length\<close>.\<close>

definition prefix_cursor_copy :: "'v prefix_cursor \<Rightarrow> 'v prefix_cursor" where
  "prefix_cursor_copy rho = \<lparr>pc_trie = pc_trie rho, pc_query = pc_query rho, pc_length = None,
     pc_value = pc_value rho, pc_cur = pc_cur rho\<rparr>"

text \<open>
  How the loop of \<^verbatim>\<open>next_prefix\<close> ends: at a leaf with an offset, by returning false,
  or by returning true at the NUL child of a node.
\<close>

datatype 'v np_end = NpLeaf nat | NpFalse | NpFound 'v

text \<open>
  The child for NUL of the element just reached: an exception, a value that ends the
  search, or nothing.
\<close>

definition np_null_child :: "'e da_traits \<Rightarrow> (itail \<Rightarrow> ('v \<times> itail) option) \<Rightarrow> 'e trie \<Rightarrow> nat \<Rightarrow>
  (trie_error, ('v \<times> 'e trie) option) outcome" where
  "np_null_child T get t cur = do {
     nul \<leftarrow> descend T t cur 0;
     if nul = INVALID_INDEX then Some (Inr None)
     else do {
       base \<leftarrow> t_get_base T t nul;
       if base = 0 then Some (Inr None)
       else if 0 \<le> base then Some (Inl InvalidArc)
       else do {
         let tl1 = itail_seekg (t_tail t) (nat (- base));
         n \<leftarrow> itail_strlen tl1;
         if n \<noteq> 0 then Some (Inl NonEmptyTail)
         else do {
           (v, tl2) \<leftarrow> get (itail_seekg tl1 (nat (- base) + 1));
           Some (Inr (Some (v, t\<lparr>t_tail := tl2\<rparr>)))
         }
       }
     }
   }"

function np_loop :: "'e da_traits \<Rightarrow> (itail \<Rightarrow> ('v \<times> itail) option) \<Rightarrow> bytes \<Rightarrow> 'e trie \<Rightarrow> nat \<Rightarrow> nat \<Rightarrow>
  (trie_error, 'v np_end \<times> nat \<times> nat \<times> 'e trie) outcome" where
  "np_loop T get q t cur len =
     (case t_get_base T t cur of
        None \<Rightarrow> None
      | Some base \<Rightarrow>
          if base < 0 then Some (Inr (NpLeaf (nat (- base)), cur, len, t))
          else if length q < len then Some (Inr (NpFalse, cur, len, t))
          else case descend T t cur (cstr_at q len) of
              None \<Rightarrow> None
            | Some cur1 \<Rightarrow>
                if cur1 = INVALID_INDEX then Some (Inr (NpFalse, cur1, len, t))
                else case np_null_child T get t cur1 of
                    None \<Rightarrow> None
                  | Some (Inl e) \<Rightarrow> Some (Inl e)
                  | Some (Inr (Some (v, t'))) \<Rightarrow> Some (Inr (NpFound v, cur1, len + 1, t'))
                  | Some (Inr None) \<Rightarrow> np_loop T get q t cur1 (len + 1))"
  by pat_completeness auto

termination
  by (relation "measure (\<lambda>(T, get, q, t, cur, len). length q + 1 - len)") auto

declare np_loop.simps [simp del]

definition next_prefix :: "'e da_traits \<Rightarrow> (itail \<Rightarrow> ('v \<times> itail) option) \<Rightarrow> 'e trie \<Rightarrow>
  'v prefix_cursor \<Rightarrow> (trie_error, bool \<times> 'v prefix_cursor \<times> 'e trie) outcome" where
  "next_prefix T get t pfx =
     Option.bind (pc_length pfx) (\<lambda>len.
       if length (takeWhile (\<lambda>b. b \<noteq> 0) (pc_query pfx)) \<le> len then Some (Inr (False, pfx, t))
       else bindR (np_loop T get (pc_query pfx) t (pc_cur pfx) len) (\<lambda>(r, cur, len1, t1).
         case r of
           NpFalse \<Rightarrow> Some (Inr (False, pfx\<lparr>pc_cur := cur, pc_length := Some len1\<rparr>, t1))
         | NpFound v \<Rightarrow>
             Some (Inr (True, pfx\<lparr>pc_cur := cur, pc_length := Some len1, pc_value := Some v\<rparr>, t1))
         | NpLeaf offset \<Rightarrow>
             (let len2 = (if length (pc_query pfx) < len1 then length (pc_query pfx) else len1);
                  tl1 = itail_seekg (t_tail t1) offset
              in Option.bind (itail_match_string_partial tl1
                     (takeWhile (\<lambda>b. b \<noteq> 0) (drop len2 (pc_query pfx)))) (\<lambda>matched.
                 if matched then
                   Option.bind (itail_strlen tl1) (\<lambda>n.
                   Option.bind (get (itail_seekg tl1 (offset + n + 1))) (\<lambda>(v, tl2).
                     Some (Inr (True, pfx\<lparr>pc_cur := cur, pc_length := Some (len2 + n),
                                          pc_value := Some v\<rparr>, t1\<lparr>t_tail := tl2\<rparr>))))
                 else Some (Inr (False, pfx\<lparr>pc_cur := cur, pc_length := Some len2\<rparr>,
                                 t1\<lparr>t_tail := tl1\<rparr>))))))"

text \<open>\<^verbatim>\<open>prefix_cursor::next\<close>.\<close>

definition cursor_next :: "'e da_traits \<Rightarrow> (itail \<Rightarrow> ('v \<times> itail) option) \<Rightarrow> 'e trie \<Rightarrow>
  'v prefix_cursor \<Rightarrow> (trie_error, bool \<times> 'v prefix_cursor \<times> 'e trie) outcome" where
  "cursor_next T get t pfx =
     (if pc_trie pfx then next_prefix T get t pfx else Some (Inr (False, pfx, t)))"

section \<open>Loading a trie\<close>

text \<open>\<^verbatim>\<open>assign(da, tail, table)\<close>, which leaves \<^verbatim>\<open>m_n\<close> alone.\<close>

definition assign_parts :: "'e list \<Rightarrow> otail \<Rightarrow> byte list \<Rightarrow> 'e trie \<Rightarrow> 'e trie" where
  "assign_parts da tail table t =
     t\<lparr>t_da := arr_assign (t_da t) (Some da) True,
       t_tail := itail_assign (t_tail t) (Some tail) True,
       t_table := take NUMCHARS table\<rparr>"

definition read_uint32 :: "bytes \<Rightarrow> nat \<Rightarrow> (nat \<times> u32) option" where
  "read_uint32 block p = do { bs \<leftarrow> mem_slice block p 4; v \<leftarrow> read_le32 bs; Some (4, v) }"

definition read_chunk :: "bytes \<Rightarrow> nat \<Rightarrow> (nat \<times> bytes \<times> u32) option" where
  "read_chunk block p = do {
     chunk \<leftarrow> mem_slice block p 4;
     (_, sz) \<leftarrow> read_uint32 block (p + 4);
     Some (8, chunk, sz)
   }"

text \<open>The elements that start at a pointer into the block, which the trie shares.\<close>

definition elements_at :: "'e da_traits \<Rightarrow> nat \<Rightarrow> bytes \<Rightarrow> 'e list" where
  "elements_at T n bs = map (\<lambda>i. elem_read T (drop (i * elem_size T) bs)) [0..<n]"

text \<open>
  One child chunk whose data start at \<^verbatim>\<open>q\<close>. A chunk that claims more data than the
  block has is \<^term>\<open>None\<close>: its pointer range leaves the block.
\<close>

definition apply_chunk :: "'e da_traits \<Rightarrow> bytes \<Rightarrow> bytes \<Rightarrow> nat \<Rightarrow> u32 \<Rightarrow> 'e trie \<Rightarrow> 'e trie option" where
  "apply_chunk T block chunk q datasize t =
     (if chunk = lit ''TBLU'' then
        (if unat datasize = NUMCHARS
         then do { tb \<leftarrow> mem_slice block q NUMCHARS; Some (t\<lparr>t_table := tb\<rparr>) }
         else Some t)
      else if chunk = chunk_id T then do {
        let n = unat datasize div elem_size T;
        bs \<leftarrow> mem_slice block q (n * elem_size T);
        Some (t\<lparr>t_da := arr_assign (t_da t) (Some (elements_at T n bs)) False\<rparr>)
      }
      else if chunk = lit ''TAIL'' then do {
        bs \<leftarrow> mem_slice block q (unat datasize);
        Some (t\<lparr>t_tail := itail_assign (t_tail t) (Some bs) False\<rparr>)
      }
      else Some t)"

text \<open>The loop over the child chunks; a chunk of size 0 keeps it where it is for ever.\<close>

partial_function (option) chunk_loop ::
  "'e da_traits \<Rightarrow> bytes \<Rightarrow> nat \<Rightarrow> nat \<Rightarrow> 'e trie \<Rightarrow> 'e trie option" where
  "chunk_loop T block p last_p t =
     (if p < last_p then
        Option.bind (read_chunk block p) (\<lambda>(n, chunk, sz).
        Option.bind (apply_chunk T block chunk (p + n) (sz - word_of_nat CHUNKSIZE) t) (\<lambda>t'.
          chunk_loop T block (p + unat sz) last_p t'))
      else Some t)"

declare chunk_loop.simps [code]

definition assign_image :: "'e da_traits \<Rightarrow> bytes \<Rightarrow> nat \<Rightarrow> 'e trie \<Rightarrow> (nat \<times> 'e trie) option" where
  "assign_image T block sz t =
     (if sz < SDAT_CHUNKSIZE then Some (0, t)
      else do {
        (n1, chunk, total_size) \<leftarrow> read_chunk block 0;
        if chunk \<noteq> lit ''SDAT'' then Some (0, t)
        else do {
          (n2, sdat_size) \<leftarrow> read_uint32 block n1;
          if unat sdat_size \<noteq> SDAT_CHUNKSIZE then Some (0, t)
          else do {
            (n3, value) \<leftarrow> read_uint32 block (n1 + n2);
            t' \<leftarrow> chunk_loop T block (n1 + n2 + n3) (unat total_size) (t\<lparr>t_n := Some (unat value)\<rparr>);
            Some (if \<not> arr_allocated (t_da t') \<or> \<not> arr_allocated (it_cont (t_tail t'))
                  then 0 else unat total_size, t')
          }
        }
      })"

text \<open>
  \<^verbatim>\<open>read(std::istream)\<close>. A short \<^verbatim>\<open>is.read\<close> consumes what is left and sets the fail
  bit; \<^verbatim>\<open>seekg\<close> on a failed stream does nothing.
\<close>

record istream =
  is_data :: bytes
  is_pos :: nat
  is_failed :: bool

definition is_read :: "istream \<Rightarrow> nat \<Rightarrow> bytes \<times> istream" where
  "is_read is n =
     (if is_failed is then ([], is)
      else let bs = take n (drop (is_pos is) (is_data is))
           in (bs, is\<lparr>is_pos := is_pos is + length bs, is_failed := length bs < n\<rparr>))"

definition is_seekg :: "istream \<Rightarrow> nat \<Rightarrow> istream" where
  "is_seekg is p = (if is_failed is then is else is\<lparr>is_pos := p\<rparr>)"

definition trie_read :: "'e da_traits \<Rightarrow> istream \<Rightarrow> 'e trie \<Rightarrow> (nat \<times> istream \<times> 'e trie) option" where
  "trie_read T is t =
     (let offset = is_pos is;
          (data, is1) = is_read is CHUNKSIZE
      in if is_failed is1 then Some (0, is_seekg is1 offset, t)
         else do {
           (_, chunk, total_size) \<leftarrow> read_chunk data 0;
           if chunk \<noteq> lit ''SDAT'' then Some (0, is_seekg is1 offset, t)
           else if unat total_size < CHUNKSIZE then None \<comment> \<open>\<^verbatim>\<open>memcpy\<close> past the new block\<close>
           else do {
             let (rest, is2) = is_read is1 (unat total_size - CHUNKSIZE);
             if is_failed is2
             then Some (0, is_seekg is2 offset, t\<lparr>t_block := Some (data @ rest)\<rparr>)
             else do {
               (used_size, t') \<leftarrow> assign_image T (data @ rest) (unat total_size)
                 (t\<lparr>t_block := Some (data @ rest)\<rparr>);
               if used_size \<noteq> unat total_size then Some (0, is_seekg is2 offset, t')
               else Some (used_size, is2, t')
             }
           }
         })"

end
