(* ===== verification/Das_Builder.thy ===== *)
theory Das_Builder
  imports Das_Tail
begin

text \<open>
  dastrie.h, the builder of a double-array trie: its state, the list of vacant
  elements, the search for a base, the recursive arrangement of the records and
  the serialisation. A range \<^verbatim>\<open>[first, last)\<close> of records is the list of its
  records. Exceptions are values of \<open>das_error\<close>.
\<close>

section \<open>State\<close>

record 'v das_record =
  rec_key :: bytes
  rec_value :: 'v

datatype das_error =
    NoSpaceLeaves \<comment> \<open>"The double array has no space to store leaves"\<close>
  | NoSpaceChildren \<comment> \<open>"The double array has no space to store child nodes"\<close>
  | NotSorted \<comment> \<open>"The records are not sorted in dictionary order of keys"\<close>
  | DuplicatedKeys \<comment> \<open>"Duplicated keys detected"\<close>
  | EmptyRange \<comment> \<open>no exception: \<^verbatim>\<open>children[num_children - 1]\<close> with no child is undefined\<close>

record dlink_element =
  dl_prev :: nat
  dl_next :: nat

text \<open>The two ratios of \<^verbatim>\<open>stat_type\<close> are kept as numerator and denominator.\<close>

record stat_type =
  da_size :: nat
  da_num_total :: nat
  da_num_used :: nat
  da_num_nodes :: nat
  da_num_leaves :: nat
  da_usage :: "nat \<times> nat"
  tail_size :: nat
  bt_sum_base_trials :: nat
  bt_avg_base_trials :: "nat \<times> nat"

definition stat_zero :: stat_type where
  "stat_zero = \<lparr>da_size = 0, da_num_total = 0, da_num_used = 0, da_num_nodes = 0,
     da_num_leaves = 0, da_usage = (0, 1), tail_size = 0, bt_sum_base_trials = 0,
     bt_avg_base_trials = (0, 1)\<rparr>"

text \<open>
  The callback is a client's function; the model keeps whether one is set and the
  arguments it has been called with.
\<close>

record 'e builder =
  m_callback :: bool
  m_calls :: "(nat \<times> nat) list"
  m_i :: nat
  m_n :: nat
  m_da :: "'e list"
  m_tail :: otail
  m_table :: "byte list"
  m_used_bases :: "bool list"
  m_elink :: "dlink_element list"
  m_stat :: stat_type

definition builder_new :: "'e builder" where
  "builder_new = \<lparr>m_callback = False, m_calls = [], m_i = 0, m_n = 0, m_da = [],
     m_tail = otail_new, m_table = replicate NUMCHARS 0, m_used_bases = [], m_elink = [],
     m_stat = stat_zero\<rparr>"

definition set_callback :: "'e builder \<Rightarrow> bool \<Rightarrow> 'e builder" where
  "set_callback s cb = s\<lparr>m_callback := cb\<rparr>"

section \<open>Elements of the double array\<close>

definition b_get_base :: "'e da_traits \<Rightarrow> 'e builder \<Rightarrow> nat \<Rightarrow> int" where
  "b_get_base T s i = tr_get_base T (m_da s ! i)"

definition b_get_check :: "'e da_traits \<Rightarrow> 'e builder \<Rightarrow> nat \<Rightarrow> byte" where
  "b_get_check T s i = tr_get_check T (m_da s ! i)"

definition b_set_base :: "'e da_traits \<Rightarrow> nat \<Rightarrow> int \<Rightarrow> 'e builder \<Rightarrow> 'e builder" where
  "b_set_base T i v s = s\<lparr>m_da := (m_da s)[i := tr_set_base T (m_da s ! i) v]\<rparr>"

definition b_set_check :: "'e da_traits \<Rightarrow> nat \<Rightarrow> byte \<Rightarrow> 'e builder \<Rightarrow> 'e builder" where
  "b_set_check T i v s = s\<lparr>m_da := (m_da s)[i := tr_set_check T (m_da s ! i) v]\<rparr>"

definition da_in_use :: "'e da_traits \<Rightarrow> 'e builder \<Rightarrow> nat \<Rightarrow> bool" where
  "da_in_use T s i \<longleftrightarrow> i < length (m_da s) \<and> b_get_base T s i \<noteq> 0"

definition da_expand :: "'e da_traits \<Rightarrow> nat \<Rightarrow> 'e builder \<Rightarrow> 'e builder" where
  "da_expand T n s =
     (if length (m_da s) < n then s\<lparr>m_da := resize n (default_value T) (m_da s)\<rparr> else s)"

section \<open>The list of vacant elements\<close>

definition dlink_new :: dlink_element where
  "dlink_new = \<lparr>dl_prev = 0, dl_next = 0\<rparr>"

definition set_next :: "nat \<Rightarrow> nat \<Rightarrow> dlink_element list \<Rightarrow> dlink_element list" where
  "set_next i v el = el[i := (el ! i)\<lparr>dl_next := v\<rparr>]"

definition set_prev :: "nat \<Rightarrow> nat \<Rightarrow> dlink_element list \<Rightarrow> dlink_element list" where
  "set_prev i v el = el[i := (el ! i)\<lparr>dl_prev := v\<rparr>]"

definition vlist_init :: "dlink_element list \<Rightarrow> dlink_element list" where
  "vlist_init el = set_prev 0 0 (set_next 0 1 (resize 1 dlink_new el))"

definition vlist_next :: "dlink_element list \<Rightarrow> nat \<Rightarrow> nat" where
  "vlist_next el i = (if i < length el then dl_next (el ! i) else i + 1)"

text \<open>The loop of \<^verbatim>\<open>vlist_expand\<close> links the new elements from \<^verbatim>\<open>first\<close> on.\<close>

fun link_new :: "nat \<Rightarrow> nat \<Rightarrow> nat \<Rightarrow> dlink_element list \<Rightarrow> dlink_element list" where
  "link_new 0 i back el = el"
| "link_new (Suc n) i back el =
     link_new n (i + 1) i (set_next i (i + 1) (set_prev i back el))"

definition vlist_expand :: "nat \<Rightarrow> dlink_element list \<Rightarrow> dlink_element list" where
  "vlist_expand n el =
     (if length el < n
      then let first = length el;
               el1 = resize n dlink_new el;
               el2 = link_new (n - first) first (dl_prev (el1 ! 0)) el1
           in set_prev 0 (length el2 - 1) el2
      else el)"

definition vlist_use :: "nat \<Rightarrow> dlink_element list \<Rightarrow> dlink_element list" where
  "vlist_use i el =
     (let prev = dl_prev (el ! i);
          next = dl_next (el ! i);
          el1 = (if length el \<le> next
                 then set_prev 0 next (set_next next (next + 1) (resize (next + 1) dlink_new el))
                 else el)
      in set_prev next prev (set_next prev next el1))"

definition b_vlist_expand :: "nat \<Rightarrow> 'e builder \<Rightarrow> 'e builder" where
  "b_vlist_expand n s = s\<lparr>m_elink := vlist_expand n (m_elink s)\<rparr>"

definition b_vlist_use :: "nat \<Rightarrow> 'e builder \<Rightarrow> 'e builder" where
  "b_vlist_use i s = s\<lparr>m_elink := vlist_use i (m_elink s)\<rparr>"

section \<open>The character table\<close>

record unigram_freq =
  uf_c :: nat
  uf_freq :: nat \<comment> \<open>a \<^verbatim>\<open>double\<close> that is only counted up\<close>

definition comp_freq :: "unigram_freq \<Rightarrow> unigram_freq \<Rightarrow> bool" where
  "comp_freq x y \<longleftrightarrow> uf_freq x > uf_freq y"

definition bump_freq :: "nat \<Rightarrow> unigram_freq list \<Rightarrow> unigram_freq list" where
  "bump_freq c st = st[c := (st ! c)\<lparr>uf_freq := uf_freq (st ! c) + 1\<rparr>]"

text \<open>\<^verbatim>\<open>for (int i = 0; it->key[i]; ++i)\<close>: up to the first NUL or the end.\<close>

fun count_key :: "bytes \<Rightarrow> unigram_freq list \<Rightarrow> unigram_freq list" where
  "count_key [] st = st"
| "count_key (b # k) st = (if b = 0 then st else count_key k (bump_freq (unat b) st))"

fun count_records :: "'v das_record list \<Rightarrow> unigram_freq list \<Rightarrow> unigram_freq list" where
  "count_records [] st = st"
| "count_records (r # rs) st = count_records rs (bump_freq 0 (count_key (rec_key r) st))"

fun fill_table :: "nat \<Rightarrow> unigram_freq list \<Rightarrow> byte list \<Rightarrow> byte list" where
  "fill_table i [] table = table"
| "fill_table i (u # us) table = fill_table (i + 1) us (table[uf_c u := word_of_nat i])"

definition build_table ::
  "(unigram_freq list \<Rightarrow> unigram_freq list) \<Rightarrow> byte list \<Rightarrow> 'v das_record list \<Rightarrow> byte list" where
  "build_table srt table recs =
     (let st0 = map (\<lambda>i. \<lparr>uf_c = i, uf_freq = 0\<rparr>) [0..<NUMCHARS];
          st1 = count_records recs st0
      in fill_table 0 (srt st1) table)"

section \<open>Arranging the records\<close>

text \<open>\<^verbatim>\<open>it->key[p]\<close> on a \<^verbatim>\<open>std::string\<close>: NUL at its end. The code never goes further.\<close>

definition key_at :: "bytes \<Rightarrow> nat \<Rightarrow> byte" where
  "key_at k p = (if p < length k then k ! p else 0)"

text \<open>A child of the current node: its character, offset and range of records.\<close>

record 'v child =
  ch_c :: byte
  ch_offset :: nat
  ch_recs :: "'v das_record list"

definition extend_last :: "'v das_record \<Rightarrow> 'v child list \<Rightarrow> 'v child list" where
  "extend_last r chs = butlast chs @ [(last chs)\<lparr>ch_recs := ch_recs (last chs) @ [r]\<rparr>]"

fun scan_children :: "byte list \<Rightarrow> nat \<Rightarrow> 'v das_record list \<Rightarrow> int \<Rightarrow> 'v child list \<Rightarrow> nat \<Rightarrow>
  das_error + ('v child list \<times> nat)" where
  "scan_children table p [] pc chs max_offset = Inr (chs, max_offset)"
| "scan_children table p (r # rs) pc chs max_offset =
     (let c = key_at (rec_key r) p
      in if pc < uint c
         then let offset = unat (table ! unat c) + 1
              in scan_children table p rs (uint c)
                   (chs @ [\<lparr>ch_c = c, ch_offset = offset, ch_recs = [r]\<rparr>]) (max max_offset offset)
         else if uint c < pc then Inl NotSorted
         else scan_children table p rs (uint c) (extend_last r chs) max_offset)"

definition bump_trials :: "'e builder \<Rightarrow> 'e builder" where
  "bump_trials s =
     s\<lparr>m_stat := (m_stat s)\<lparr>bt_sum_base_trials := bt_sum_base_trials (m_stat s) + 1\<rparr>\<rparr>"

text \<open>
  The search for a base (the \<^verbatim>\<open>for (;;)\<close> loop): \<^term>\<open>None\<close> if it never ends.
\<close>

partial_function (option) find_base ::
  "'e da_traits \<Rightarrow> 'v child list \<Rightarrow> nat \<Rightarrow> nat \<Rightarrow> 'e builder \<Rightarrow> ('e builder \<times> nat) option" where
  "find_base T chs max_offset index s =
     (let s1 = bump_trials s;
          index1 = vlist_next (m_elink s1) index;
          offset0 = ch_offset (hd chs)
      in if index1 < INITIAL_INDEX + offset0 then find_base T chs max_offset index1 s1
         else let base = index1 - offset0
              in if base < length (m_used_bases s1) \<and> m_used_bases s1 ! base
                 then find_base T chs max_offset index1 s1
                 else let s2 = b_vlist_expand (base + max_offset + 1)
                                 (da_expand T (base + max_offset + 1) s1)
                      in if list_ex (\<lambda>ch. da_in_use T s2 (base + ch_offset ch)) (tl chs)
                         then find_base T chs max_offset index1 s2
                         else Some (s2, base))"

declare find_base.simps [code]

definition register_base :: "nat \<Rightarrow> 'e builder \<Rightarrow> 'e builder" where
  "register_base base s =
     (let ub = m_used_bases s;
          ub1 = (if length ub \<le> base then resize (base + 1) False ub else ub)
      in s\<lparr>m_used_bases := ub1[base := True]\<rparr>)"

fun reserve_children :: "'e da_traits \<Rightarrow> nat \<Rightarrow> 'v child list \<Rightarrow> 'e builder \<Rightarrow> 'e builder" where
  "reserve_children T base [] s = s"
| "reserve_children T base (ch # chs) s =
     reserve_children T base chs
       (b_vlist_use (base + ch_offset ch) (b_set_base T (base + ch_offset ch) 1 s))"

text \<open>A single record: its postfix and value go to the tail.\<close>

definition arrange_leaf :: "'e da_traits \<Rightarrow> (otail \<Rightarrow> 'v \<Rightarrow> otail) \<Rightarrow> nat \<Rightarrow> 'v das_record \<Rightarrow>
  'e builder \<Rightarrow> (das_error, 'e builder \<times> int) outcome" where
  "arrange_leaf T put p rec s =
     (let offset = otail_tellp (m_tail s)
      in if max_base T < int offset then Some (Inl NoSpaceLeaves)
         else let s1 = s\<lparr>m_tail := put (otail_write_string (m_tail s) (rec_key rec) p) (rec_value rec)\<rparr>;
                  s2 = (if m_callback s1
                        then s1\<lparr>m_i := m_i s1 + 1, m_calls := m_calls s1 @ [(m_i s1 + 1, m_n s1)]\<rparr>
                        else s1);
                  s3 = s2\<lparr>m_stat := (m_stat s2)\<lparr>da_num_leaves := da_num_leaves (m_stat s2) + 1\<rparr>\<rparr>
              in Some (Inr (s3, - int offset)))"

text \<open>
  The loop over the children; \<open>rec\<close> is the recursive call on a child's records.
\<close>

fun arrange_children :: "'e da_traits \<Rightarrow>
  (nat \<Rightarrow> 'v das_record list \<Rightarrow> 'e builder \<Rightarrow> (das_error, 'e builder \<times> int) outcome) \<Rightarrow>
  nat \<Rightarrow> nat \<Rightarrow> 'v child list \<Rightarrow> 'e builder \<Rightarrow> (das_error, 'e builder) outcome" where
  "arrange_children T rec base p [] s = Some (Inr s)"
| "arrange_children T rec base p (ch # chs) s =
     (if ch_c ch \<noteq> 0 \<or> length (ch_recs ch) = 1
      then bindR (rec (if ch_c ch \<noteq> 0 then p + 1 else p) (ch_recs ch) s) (\<lambda>(s1, v).
        arrange_children T rec base p chs
          (b_set_check T (base + ch_offset ch) (word_of_nat (ch_offset ch - 1))
            (b_set_base T (base + ch_offset ch) v s1)))
      else Some (Inl DuplicatedKeys))"

text \<open>
  \<^verbatim>\<open>arrange(p, first, last)\<close>. The recursion goes one character deeper in the keys at
  each level, so it is bounded by the longest key; the first argument is that bound.
\<close>

primrec arrange :: "nat \<Rightarrow> 'e da_traits \<Rightarrow> (otail \<Rightarrow> 'v \<Rightarrow> otail) \<Rightarrow> nat \<Rightarrow> 'v das_record list \<Rightarrow>
  'e builder \<Rightarrow> (das_error, 'e builder \<times> int) outcome" where
  "arrange 0 T put p recs s = None"
| "arrange (Suc fuel) T put p recs s =
     (if length recs = 1 then arrange_leaf T put p (hd recs) s
      else case scan_children (m_table s) p recs (-1) [] 0 of
        Inl e \<Rightarrow> Some (Inl e)
      | Inr (chs, max_offset) \<Rightarrow>
          if chs = [] then Some (Inl EmptyRange)
          else case find_base T chs max_offset 0 s of
            None \<Rightarrow> None
          | Some (s1, base) \<Rightarrow>
              if max_base T \<le> int (base + max_offset) then Some (Inl NoSpaceChildren)
              else bindR (arrange_children T (arrange fuel T put) base p chs
                           (reserve_children T base chs (register_base base s1))) (\<lambda>s2.
                Some (Inr (s2\<lparr>m_stat := (m_stat s2)\<lparr>da_num_nodes := da_num_nodes (m_stat s2) + 1\<rparr>\<rparr>,
                           int base))))"

section \<open>Building\<close>

definition compute_stat :: "'e da_traits \<Rightarrow> 'e builder \<Rightarrow> 'e builder" where
  "compute_stat T s =
     (let total = length (m_da s);
          used = da_num_used (m_stat s) + length (filter (da_in_use T s) [0..<total])
      in s\<lparr>m_stat := (m_stat s)\<lparr>da_size := elem_size T * total, da_num_total := total,
            da_num_used := used, da_usage := (used, total), tail_size := otail_bytes (m_tail s),
            bt_avg_base_trials := (bt_sum_base_trials (m_stat s), total)\<rparr>\<rparr>)"

text \<open>\<^verbatim>\<open>clear\<close> resets everything but the table of used bases.\<close>

definition builder_clear :: "'e da_traits \<Rightarrow> 'e builder \<Rightarrow> 'e builder" where
  "builder_clear T s =
     (let s1 = s\<lparr>m_table := map word_of_nat [0..<NUMCHARS], m_da := []\<rparr>;
          s2 = da_expand T 1 s1
      in s2\<lparr>m_tail := otail_put_u8 (otail_clear (m_tail s2)) 0,
            m_elink := vlist_init (m_elink s2), m_stat := stat_zero\<rparr>)"

definition max_key_length :: "'v das_record list \<Rightarrow> nat" where
  "max_key_length recs = foldr (\<lambda>r m. max (length (rec_key r)) m) recs 0"

definition build :: "'e da_traits \<Rightarrow> (otail \<Rightarrow> 'v \<Rightarrow> otail) \<Rightarrow>
  (unigram_freq list \<Rightarrow> unigram_freq list) \<Rightarrow> 'v das_record list \<Rightarrow> 'e builder \<Rightarrow>
  (das_error, 'e builder) outcome" where
  "build T put srt recs s =
     (let s1 = builder_clear T s;
          s2 = s1\<lparr>m_i := 0, m_n := length recs, m_table := build_table srt (m_table s1) recs\<rparr>;
          s3 = b_vlist_expand (INITIAL_INDEX + 1) (da_expand T (INITIAL_INDEX + 1) s2);
          s4 = b_vlist_use INITIAL_INDEX (b_set_base T INITIAL_INDEX 1 s3)
      in bindR (arrange (max_key_length recs + 2) T put 0 recs s4) (\<lambda>(s5, v).
           Some (Inr (compute_stat T (b_set_base T INITIAL_INDEX v s5)))))"

section \<open>Writing\<close>

definition write_uint32 :: "bytes \<Rightarrow> u32 \<Rightarrow> bytes" where
  "write_uint32 os v = os @ le32 v"

definition write_chunk :: "bytes \<Rightarrow> bytes \<Rightarrow> nat \<Rightarrow> bytes" where
  "write_chunk os chunk n = write_uint32 (os @ take 4 chunk) (word_of_nat n)"

definition builder_write :: "'e da_traits \<Rightarrow> 'e builder \<Rightarrow> bytes \<Rightarrow> bytes" where
  "builder_write T s os =
     (let sda_size = CHUNKSIZE + elem_size T * length (m_da s);
          tblu_size = CHUNKSIZE + NUMCHARS;
          tail_size = CHUNKSIZE + otail_bytes (m_tail s);
          total_size = SDAT_CHUNKSIZE + tblu_size + sda_size + tail_size;
          os1 = write_chunk os (lit ''SDAT'') total_size;
          os2 = write_uint32 os1 (word_of_nat SDAT_CHUNKSIZE);
          os3 = write_uint32 os2 (word_of_nat (m_n s));
          os4 = write_chunk os3 (lit ''TBLU'') tblu_size @ m_table s;
          os5 = write_chunk os4 (chunk_id T) sda_size @ concat (map (elem_image T) (m_da s))
      in write_chunk os5 (lit ''TAIL'') tail_size @ m_tail s)"

end
