(* ===== verification/Das_Vlist.thy ===== *)
theory Das_Vlist
  imports Das_Builder
begin

text \<open>
  The doubly linked list of vacant elements (\<^verbatim>\<open>m_elink\<close>): the invariant
  \<open>vlist_ok\<close> says that, for a set \<open>U\<close> of elements in use, \<^verbatim>\<open>next\<close> of a vacant
  element is the least vacant element after it (or one past the list), \<^verbatim>\<open>prev\<close> is
  the greatest before it, and \<^verbatim>\<open>prev\<close> of the header is the last one. The three
  operations keep it.
\<close>

definition next_vacant :: "nat set \<Rightarrow> nat \<Rightarrow> nat \<Rightarrow> nat \<Rightarrow> bool" where
  "next_vacant U n i j \<longleftrightarrow> i < j \<and> j \<le> n \<and> j \<notin> U \<and> {i<..<j} \<subseteq> U"

definition prev_vacant :: "nat set \<Rightarrow> nat \<Rightarrow> nat \<Rightarrow> bool" where
  "prev_vacant U i j \<longleftrightarrow> j < i \<and> j \<notin> U \<and> {j<..<i} \<subseteq> U"

definition vlist_ok :: "dlink_element list \<Rightarrow> nat set \<Rightarrow> bool" where
  "vlist_ok el U \<longleftrightarrow> 0 < length el \<and> U \<subseteq> {0<..<length el} \<and>
     (\<forall>i<length el. i \<notin> U \<longrightarrow> next_vacant U (length el) i (dl_next (el ! i))) \<and>
     (\<forall>i<length el. i \<notin> U \<longrightarrow> 0 < i \<longrightarrow> prev_vacant U i (dl_prev (el ! i))) \<and>
     prev_vacant U (length el) (dl_prev (el ! 0))"

lemma length_links [simp]:
  "length (set_next i v el) = length el" "length (set_prev i v el) = length el"
  by (simp_all add: set_next_def set_prev_def)

lemma nth_links:
  "k < length el \<Longrightarrow> dl_next (set_next i v el ! k) = (if k = i then v else dl_next (el ! k))"
  "k < length el \<Longrightarrow> dl_prev (set_next i v el ! k) = dl_prev (el ! k)"
  "k < length el \<Longrightarrow> dl_next (set_prev i v el ! k) = dl_next (el ! k)"
  "k < length el \<Longrightarrow> dl_prev (set_prev i v el ! k) = (if k = i then v else dl_prev (el ! k))"
  by (cases "k = i"; simp add: set_next_def set_prev_def)+

lemma vlist_init_ok: "vlist_ok (vlist_init el) {}"
  by (auto simp: vlist_ok_def vlist_init_def nth_links next_vacant_def prev_vacant_def)

lemma next_vacant_unique: "next_vacant U n i j \<Longrightarrow> next_vacant U n i j' \<Longrightarrow> j = j'"
  by (auto simp: next_vacant_def subset_iff) (metis linorder_neqE_nat)

lemma prev_vacant_unique: "prev_vacant U i j \<Longrightarrow> prev_vacant U i j' \<Longrightarrow> j = j'"
  by (auto simp: prev_vacant_def subset_iff) (metis linorder_neqE_nat)

lemma vlist_next_vacant:
  assumes "vlist_ok el U" and "i \<notin> U"
  shows "i < vlist_next el i \<and> vlist_next el i \<notin> U"
proof (cases "i < length el")
  case True
  with assms show ?thesis by (auto simp: vlist_ok_def vlist_next_def next_vacant_def)
next
  case False
  with assms show ?thesis by (auto simp: vlist_ok_def vlist_next_def)
qed

subsection \<open>Expanding\<close>

lemma length_link_new [simp]: "length (link_new n i bk el) = length el"
  by (induction n arbitrary: i bk el) auto

lemma nth_link_new:
  assumes "i + n \<le> length el" and "k < length el"
  shows "dl_next (link_new n i bk el ! k) = (if i \<le> k \<and> k < i + n then k + 1 else dl_next (el ! k))
    \<and> dl_prev (link_new n i bk el ! k) =
      (if i \<le> k \<and> k < i + n then (if k = i then bk else k - 1) else dl_prev (el ! k))"
  using assms
proof (induction n arbitrary: i bk el)
  case (Suc n)
  then show ?case by (auto simp: nth_links not_less le_Suc_eq)
qed simp

lemma length_vlist_expand [simp]: "length (vlist_expand n el) = max n (length el)"
  by (auto simp: vlist_expand_def Let_def)

lemma vlist_expand_nth:
  assumes "length el < n" "0 < length el" "k < n"
  shows "dl_next (vlist_expand n el ! k) = (if k < length el then dl_next (el ! k) else k + 1)"
    and "dl_prev (vlist_expand n el ! k) =
      (if k = 0 then n - 1 else if k < length el then dl_prev (el ! k)
       else if k = length el then dl_prev (el ! 0) else k - 1)"
  using assms nth_link_new [of "length el" "n - length el" "resize n dlink_new el" k "dl_prev (el ! 0)"]
  by (auto simp: vlist_expand_def Let_def nth_links nth_resize)

lemma vlist_expand_ok:
  assumes ok: "vlist_ok el U"
  shows "vlist_ok (vlist_expand n el) U"
proof (cases "length el < n")
  case False
  then show ?thesis using ok by (simp add: vlist_expand_def)
next
  case True
  let ?el = "vlist_expand n el"
  have pos: "0 < length el" and U: "U \<subseteq> {0<..<length el}"
    and nx: "\<And>i. i < length el \<Longrightarrow> i \<notin> U \<Longrightarrow> next_vacant U (length el) i (dl_next (el ! i))"
    and pv: "\<And>i. i < length el \<Longrightarrow> i \<notin> U \<Longrightarrow> 0 < i \<Longrightarrow> prev_vacant U i (dl_prev (el ! i))"
    and p0: "prev_vacant U (length el) (dl_prev (el ! 0))"
    using ok by (auto simp: vlist_ok_def)
  have len: "length ?el = n" using True by simp
  show ?thesis
    unfolding vlist_ok_def len
  proof (intro conjI allI impI)
    show "0 < n" "U \<subseteq> {0<..<n}" using U True by auto
  next
    fix i assume "i < n" "i \<notin> U"
    show "next_vacant U n i (dl_next (?el ! i))"
    proof (cases "i < length el")
      case True
      with nx [of i] \<open>i \<notin> U\<close> \<open>length el < n\<close> \<open>i < n\<close> pos show ?thesis
        by (auto simp: vlist_expand_nth next_vacant_def)
    next
      case False
      with U \<open>length el < n\<close> \<open>i < n\<close> pos show ?thesis
        by (auto simp: vlist_expand_nth next_vacant_def)
    qed
  next
    fix i assume i: "i < n" "i \<notin> U" "0 < i"
    consider "i < length el" | "i = length el" | "length el < i" by linarith
    then show "prev_vacant U i (dl_prev (?el ! i))"
    proof cases
      case 1
      with pv [of i] i True pos show ?thesis by (simp add: vlist_expand_nth)
    next
      case 2
      with p0 i True pos show ?thesis by (simp add: vlist_expand_nth)
    next
      case 3
      then have "\<not> i - 1 < length el" by linarith
      with U have "i - 1 \<notin> U" by (meson greaterThanLessThan_iff subsetD)
      with 3 i True pos show ?thesis by (auto simp: vlist_expand_nth prev_vacant_def)
    qed
  next
    have "\<not> n - 1 < length el" using True by linarith
    with U have "n - 1 \<notin> U" by (meson greaterThanLessThan_iff subsetD)
    then show "prev_vacant U n (dl_prev (?el ! 0))"
      using True pos by (auto simp: vlist_expand_nth prev_vacant_def)
  qed
qed

subsection \<open>Using an element\<close>

text \<open>Taking \<open>i\<close> between its vacant neighbours \<open>p\<close> and \<open>q\<close>.\<close>

lemma vacant_gap:
  assumes "prev_vacant U i p" "next_vacant U n i q"
  shows "{p<..<q} \<subseteq> insert i U"
  using assms by (auto simp: prev_vacant_def next_vacant_def subset_iff) (metis linorder_neqE_nat)

lemma next_vacant_other:
  assumes "next_vacant U n k j" "prev_vacant U i p" "k \<notin> U" "k \<noteq> p"
  shows "j \<noteq> i" "next_vacant (insert i U) n k j"
proof -
  show "j \<noteq> i"
  proof
    assume "j = i"
    with assms(1,3) have "prev_vacant U i k" by (auto simp: next_vacant_def prev_vacant_def)
    with assms(2,4) show False by (metis prev_vacant_unique)
  qed
  with assms(1) show "next_vacant (insert i U) n k j" by (auto simp: next_vacant_def)
qed

lemma prev_vacant_other:
  assumes "prev_vacant U k j" "next_vacant U n i q" "k \<notin> U" "k \<le> n" "k \<noteq> q"
  shows "j \<noteq> i" "prev_vacant (insert i U) k j"
proof -
  show "j \<noteq> i"
  proof
    assume "j = i"
    with assms(1,3,4) have "next_vacant U n i k" by (auto simp: next_vacant_def prev_vacant_def)
    with assms(2,5) show False by (metis next_vacant_unique)
  qed
  with assms(1) show "prev_vacant (insert i U) k j" by (auto simp: prev_vacant_def)
qed

lemma vlist_use_ok:
  assumes ok: "vlist_ok el U" and i: "0 < i" "i < length el" "i \<notin> U"
  shows "vlist_ok (vlist_use i el) (insert i U)"
    and "length el \<le> length (vlist_use i el)"
proof -
  define n where "n = length el"
  define p where "p = dl_prev (el ! i)"
  define q where "q = dl_next (el ! i)"
  define el1 where "el1 = (if n \<le> q then set_prev 0 q (set_next q (q + 1) (resize (q + 1) dlink_new el)) else el)"
  have U: "U \<subseteq> {0<..<n}"
    and nx: "\<And>k. k < n \<Longrightarrow> k \<notin> U \<Longrightarrow> next_vacant U n k (dl_next (el ! k))"
    and pv: "\<And>k. k < n \<Longrightarrow> k \<notin> U \<Longrightarrow> 0 < k \<Longrightarrow> prev_vacant U k (dl_prev (el ! k))"
    and p0: "prev_vacant U n (dl_prev (el ! 0))"
    using ok by (auto simp: vlist_ok_def n_def)
  have q: "next_vacant U n i q" and p: "prev_vacant U i p"
    using nx [of i] pv [of i] i by (auto simp: n_def p_def q_def)
  define m where "m = (if n \<le> q then n + 1 else n)"
  have qn: "q = n" if "n \<le> q" using q that by (simp add: next_vacant_def)
  have len1: "length el1 = m"
    using qn by (auto simp: el1_def m_def n_def)
  have use: "vlist_use i el = set_prev q p (set_next p q el1)"
    by (simp add: vlist_use_def Let_def p_def q_def el1_def n_def)
  have bounds: "p < i" "i < q" "q < m" "p < m" "n \<le> m" "i < n" "0 < n"
    using p q i qn by (auto simp: prev_vacant_def next_vacant_def m_def n_def)
  have el1_next: "dl_next (el1 ! k) = (if k < n then dl_next (el ! k) else k + 1)" if "k < m" for k
    using that qn bounds by (auto simp: el1_def m_def nth_links nth_resize n_def split: if_splits)
  have el1_prev: "dl_prev (el1 ! k) = (if k = 0 \<and> n \<le> q then q else dl_prev (el ! k))" if "k < n" for k
    using that qn bounds by (auto simp: el1_def m_def nth_links nth_resize n_def split: if_splits)
  show "length el \<le> length (vlist_use i el)"
    using bounds(5) by (simp add: use len1 n_def)
  show "vlist_ok (vlist_use i el) (insert i U)"
    unfolding vlist_ok_def use length_links len1
  proof (intro conjI allI impI)
    show "0 < m" "insert i U \<subseteq> {0<..<m}" using bounds U i by auto
  next
    fix k assume k: "k < m" "k \<notin> insert i U"
    show "next_vacant (insert i U) m k (dl_next (set_prev q p (set_next p q el1) ! k))"
    proof (cases "k = p")
      case True
      with bounds q vacant_gap [OF p q] show ?thesis by (simp add: nth_links len1 next_vacant_def)
    next
      case False
      show ?thesis
      proof (cases "k < n")
        case True
        then have "next_vacant (insert i U) n k (dl_next (el ! k))" using next_vacant_other(2) [OF nx p] k False by simp
        with False True bounds k show ?thesis by (auto simp: nth_links len1 el1_next next_vacant_def)
      next
        case k_new: False
        with bounds k have "k = n" "m = n + 1" by (auto simp: m_def split: if_splits)
        with False bounds U show ?thesis by (auto simp: nth_links len1 el1_next next_vacant_def)
      qed
    qed
  next
    fix k assume k: "k < m" "k \<notin> insert i U" "0 < k"
    show "prev_vacant (insert i U) k (dl_prev (set_prev q p (set_next p q el1) ! k))"
    proof (cases "k = q")
      case True
      with bounds p vacant_gap [OF p q] show ?thesis by (simp add: nth_links len1 prev_vacant_def)
    next
      case False
      have kn: "k < n" using k False qn by (auto simp: m_def split: if_splits)
      then have "prev_vacant (insert i U) k (dl_prev (el ! k))" using prev_vacant_other(2) [OF pv q] k False by simp
      with False kn k show ?thesis by (simp add: nth_links len1 el1_prev)
    qed
  next
    show "prev_vacant (insert i U) m (dl_prev (set_prev q p (set_next p q el1) ! 0))"
    proof (cases "n \<le> q")
      case True
      with qn [OF True] bounds U show ?thesis
        by (auto simp: nth_links len1 el1_prev prev_vacant_def m_def)
    next
      case False
      have "dl_prev (el ! 0) \<noteq> i"
      proof
        assume "dl_prev (el ! 0) = i"
        with p0 False bounds have "q \<in> U" by (auto simp: prev_vacant_def)
        with q show False by (simp add: next_vacant_def)
      qed
      with False p0 bounds show ?thesis
        by (auto simp: nth_links len1 el1_prev prev_vacant_def m_def)
    qed
  qed
qed

end
