(* ===== verification/Das_Scan.thy ===== *)
theory Das_Scan
  imports Das_Vlist
begin

text \<open>
  The two passes over the records that precede the arrangement of a node: the
  character table (\<^verbatim>\<open>build_table\<close> makes it a permutation of the byte values, whatever
  \<^verbatim>\<open>std::sort\<close> does with equal frequencies) and the scan of the children (it groups
  the records of a sorted range by their next character, and rejects a range that is
  not sorted).
\<close>

section \<open>The character table is a permutation\<close>

definition table_ok :: "byte list \<Rightarrow> bool" where
  "table_ok tbl \<longleftrightarrow> length tbl = NUMCHARS \<and> distinct tbl"

lemma unat_byte_less [simp]: "unat (c :: byte) < 256"
  using unsigned_less [of c] by simp

lemma table_ok_inject: "table_ok tbl \<Longrightarrow> tbl ! unat c = tbl ! unat d \<longleftrightarrow> c = d" for c d :: byte
  by (auto simp: table_ok_def NUMCHARS_def nth_eq_iff_index_eq intro: unsigned_word_eqI)

lemma length_fill_table [simp]: "length (fill_table i us tbl) = length tbl"
  by (induction i us tbl rule: fill_table.induct) simp_all

lemma fill_table_other: "c \<notin> uf_c ` set us \<Longrightarrow> fill_table i us tbl ! c = tbl ! c"
  by (induction i us tbl rule: fill_table.induct) auto

lemma fill_table_nth:
  "distinct (map uf_c us) \<Longrightarrow> k < length us \<Longrightarrow> uf_c (us ! k) < length tbl \<Longrightarrow>
   fill_table i us tbl ! uf_c (us ! k) = word_of_nat (i + k)"
proof (induction i us tbl arbitrary: k rule: fill_table.induct)
  case (2 i u us tbl)
  show ?case
  proof (cases k)
    case 0
    with 2 show ?thesis by (auto simp: fill_table_other)
  next
    case (Suc k')
    with 2 show ?thesis by simp
  qed
qed simp

lemma bump_freq_c [simp]: "map uf_c (bump_freq c st) = map uf_c st"
proof (cases "c < length st")
  case True
  then show ?thesis
    using list_update_id [of "map uf_c st" c] by (simp add: bump_freq_def map_update)
qed (simp add: bump_freq_def list_update_beyond)

lemma count_key_c [simp]: "map uf_c (count_key k st) = map uf_c st"
  by (induction k st rule: count_key.induct) simp_all

lemma count_records_c [simp]: "map uf_c (count_records recs st) = map uf_c st"
  by (induction recs st rule: count_records.induct) simp_all

lemma build_table_ok:
  assumes srt: "std_sort_ok comp_freq srt" and len: "length table = NUMCHARS"
  shows "table_ok (build_table srt table recs)"
proof -
  define st where "st = srt (count_records recs (map (\<lambda>i. \<lparr>uf_c = i, uf_freq = 0\<rparr>) [0..<NUMCHARS]))"
  define st0 where "st0 = count_records recs (map (\<lambda>i. \<lparr>uf_c = i, uf_freq = 0\<rparr>) [0..<NUMCHARS])"
  have "mset st = mset st0"
    using srt by (simp add: std_sort_ok_def st_def st0_def)
  then have "mset (map uf_c st) = mset (map uf_c st0)" by simp
  also have "map uf_c st0 = [0..<NUMCHARS]"
    by (simp add: st0_def comp_def)
  finally have m: "mset (map uf_c st) = mset [0..<NUMCHARS]" .
  then have dist: "distinct (map uf_c st)" and sets: "set (map uf_c st) = {0..<NUMCHARS}"
    by (metis distinct_upt mset_eq_imp_distinct_iff) (metis m atLeast_upt mset_eq_setD set_upt)
  have lst: "length st = NUMCHARS"
    using m by (metis length_map length_upt minus_nat.diff_0 mset_eq_length)
  let ?t = "fill_table 0 st table"
  have pos: "\<exists>k<NUMCHARS. c = uf_c (st ! k)" if "c < NUMCHARS" for c
  proof -
    have "c \<in> set (map uf_c st)" using that sets by simp
    then show ?thesis by (auto simp: in_set_conv_nth lst)
  qed
  have bound: "uf_c (st ! k) < NUMCHARS" if "k < NUMCHARS" for k
    using sets that lst by (metis atLeastLessThan_iff length_map nth_map nth_mem)
  have val: "?t ! uf_c (st ! k) = word_of_nat k" if "k < NUMCHARS" for k
    using fill_table_nth [OF dist, of k table 0] that lst len bound by simp
  have "distinct ?t"
    unfolding distinct_conv_nth
  proof (intro allI impI)
    fix i j assume "i < length ?t" "j < length ?t" "i \<noteq> j"
    then have ij: "i < NUMCHARS" "j < NUMCHARS" by (simp_all add: len)
    from pos [OF ij(1)] obtain k where k: "k < NUMCHARS" "i = uf_c (st ! k)" by blast
    from pos [OF ij(2)] obtain l where l: "l < NUMCHARS" "j = uf_c (st ! l)" by blast
    have "(word_of_nat k :: byte) \<noteq> word_of_nat l"
      using k l \<open>i \<noteq> j\<close> by (auto simp: NUMCHARS_def of_nat_eq_iff word_of_nat_eq_iff take_bit_nat_eq_self)
    then show "?t ! i \<noteq> ?t ! j" using k l val by simp
  qed
  then show ?thesis
    by (simp add: table_ok_def build_table_def st_def len Let_def)
qed

section \<open>Ranges of records\<close>

abbreviation key_char :: "nat \<Rightarrow> 'v das_record \<Rightarrow> byte" where
  "key_char p r \<equiv> key_at (rec_key r) p"

definition chars :: "nat \<Rightarrow> 'v das_record list \<Rightarrow> byte set" where
  "chars p recs = key_char p ` set recs"

definition child_recs :: "nat \<Rightarrow> byte \<Rightarrow> 'v das_record list \<Rightarrow> 'v das_record list" where
  "child_recs p c recs = filter (\<lambda>r. key_char p r = c) recs"

text \<open>
  A range the builder is called on: keys without NUL, in strictly increasing order,
  that agree on their first \<^verbatim>\<open>p\<close> characters.
\<close>

definition recs_ok :: "nat \<Rightarrow> 'v das_record list \<Rightarrow> bool" where
  "recs_ok p recs \<longleftrightarrow>
     (\<forall>r\<in>set recs. nul_free (rec_key r) \<and> p \<le> length (rec_key r)) \<and>
     (\<forall>r\<in>set recs. \<forall>r'\<in>set recs. take p (rec_key r) = take p (rec_key r')) \<and>
     sorted_wrt bytes_less (map rec_key recs)"

lemma key_at_0: "nul_free k \<Longrightarrow> key_at k p = 0 \<longleftrightarrow> length k \<le> p"
  by (auto simp: key_at_def dest: nul_free_nth)

lemma bytes_less_key_at:
  assumes "bytes_less k k'" "take p k = take p k'" "p \<le> length k" "p \<le> length k'"
  shows "key_at k p \<le> key_at k' p"
proof -
  have "bytes_less (take p k @ drop p k) (take p k' @ drop p k')"
    using assms(1) by simp
  then have "bytes_less (take p k' @ drop p k) (take p k' @ drop p k')"
    by (simp only: assms(2))
  then have "bytes_less (drop p k) (drop p k')" by (simp only: bytes_less_append)
  then show ?thesis
    using assms(3,4)
    by (cases "drop p k"; cases "drop p k'") (auto simp: key_at_def hd_drop_conv_nth [symmetric])
qed

lemma recs_ok_sorted_chars:
  assumes "recs_ok p recs"
  shows "sorted_wrt (\<lambda>r r'. key_char p r \<le> key_char p r') recs"
proof -
  have "sorted_wrt (\<lambda>r r'. bytes_less (rec_key r) (rec_key r')) recs"
    using assms by (simp add: recs_ok_def sorted_wrt_map)
  then show ?thesis
    by (rule sorted_wrt_mono_rel [rotated]) (use assms in \<open>auto simp: recs_ok_def intro: bytes_less_key_at\<close>)
qed

lemma child_recs_ok:
  assumes "recs_ok p recs" and "c \<noteq> 0"
  shows "recs_ok (p + 1) (child_recs p c recs)"
proof -
  have "nul_free (rec_key r) \<and> p + 1 \<le> length (rec_key r) \<and> take (p + 1) (rec_key r) = take p (rec_key r) @ [c]"
    if "r \<in> set (child_recs p c recs)" for r
    using assms that by (auto simp: recs_ok_def child_recs_def key_at_def take_Suc_conv_app_nth split: if_splits)
  moreover have "sorted_wrt bytes_less (map rec_key (child_recs p c recs))"
    using assms by (simp add: recs_ok_def child_recs_def sorted_wrt_map sorted_wrt_filter)
  ultimately show ?thesis
    using assms(1) by (auto simp: recs_ok_def child_recs_def)
qed

lemma child_recs_ok_0: "recs_ok p recs \<Longrightarrow> recs_ok p (child_recs p c recs)"
  by (auto simp: recs_ok_def child_recs_def sorted_wrt_map sorted_wrt_filter)

lemma length_child_recs_0:
  assumes "recs_ok p recs"
  shows "length (child_recs p 0 recs) \<le> 1"
proof -
  have key: "rec_key r = take p (rec_key r)" if "r \<in> set (child_recs p 0 recs)" for r
    using assms that by (auto simp: recs_ok_def child_recs_def key_at_0)
  have ok: "recs_ok p (child_recs p 0 recs)" by (rule child_recs_ok_0 [OF assms])
  then have same: "rec_key r = rec_key r'"
    if "r \<in> set (child_recs p 0 recs)" "r' \<in> set (child_recs p 0 recs)" for r r'
  proof -
    have "rec_key r = take p (rec_key r)" by (rule key [OF that(1)])
    also have "\<dots> = take p (rec_key r')" using ok that unfolding recs_ok_def by blast
    also have "\<dots> = rec_key r'" by (rule key [OF that(2), symmetric])
    finally show ?thesis .
  qed
  show ?thesis
  proof (cases "child_recs p 0 recs")
    case (Cons r rs)
    show ?thesis
    proof (cases rs)
      case (Cons r' rs')
      with \<open>child_recs p 0 recs = r # rs\<close> ok have "bytes_less (rec_key r) (rec_key r')"
        by (simp add: recs_ok_def)
      moreover have "rec_key r = rec_key r'"
        by (rule same) (simp_all add: \<open>child_recs p 0 recs = r # rs\<close> Cons)
      ultimately show ?thesis by simp
    qed (simp add: Cons)
  qed simp
qed

section \<open>Scanning the children\<close>

definition children_of :: "byte list \<Rightarrow> nat \<Rightarrow> 'v das_record list \<Rightarrow> 'v child list \<Rightarrow> nat \<Rightarrow> bool" where
  "children_of tbl p recs chs mx \<longleftrightarrow>
     distinct (map ch_c chs) \<and> set (map ch_c chs) = chars p recs \<and> mx \<le> 256 \<and>
     (\<forall>ch\<in>set chs. ch_offset ch = unat (tbl ! unat (ch_c ch)) + 1 \<and> ch_offset ch \<le> mx \<and>
        ch_recs ch = child_recs p (ch_c ch) recs)"

lemma children_of_new:
  assumes "children_of tbl p done chs mx" and "key_char p r = c" and "c \<notin> chars p done"
  shows "children_of tbl p (done @ [r])
    (chs @ [\<lparr>ch_c = c, ch_offset = unat (tbl ! unat c) + 1, ch_recs = [r]\<rparr>])
    (max mx (unat (tbl ! unat c) + 1))"
proof -
  have "child_recs p c done = []"
    using assms(3) by (auto simp: child_recs_def chars_def filter_empty_conv)
  with assms show ?thesis
    by (auto simp: children_of_def chars_def child_recs_def le_max_iff_disj Suc_le_eq)
qed

lemma children_of_extend:
  assumes ch: "children_of tbl p done chs mx" and "chs \<noteq> []" and c: "key_char p r = ch_c (last chs)"
  shows "children_of tbl p (done @ [r]) (extend_last r chs) mx"
proof -
  obtain ini l where chs: "chs = ini @ [l]" using \<open>chs \<noteq> []\<close> by (cases chs rule: rev_cases) auto
  from ch c have "ch_c l \<in> chars p done" by (auto simp: children_of_def chs)
  with ch c show ?thesis
    by (auto simp: children_of_def chs extend_last_def chars_def child_recs_def)
qed

lemma ch_c_last_extend: "chs \<noteq> [] \<Longrightarrow> ch_c (last (extend_last r chs)) = ch_c (last chs)"
  by (cases chs rule: rev_cases) (auto simp: extend_last_def)

text \<open>The loop's \<^verbatim>\<open>pc\<close> is the character of the last record seen, and of the last child.\<close>

definition scan_inv :: "nat \<Rightarrow> 'v das_record list \<Rightarrow> 'v child list \<Rightarrow> int \<Rightarrow> bool" where
  "scan_inv p seen chs pc \<longleftrightarrow>
     (if chs = [] then seen = [] \<and> pc = -1
      else seen \<noteq> [] \<and> pc = uint (key_char p (last seen)) \<and> key_char p (last seen) = ch_c (last chs))"

lemma scan_children_gen:
  assumes "sorted_wrt (\<lambda>r r'. key_char p r \<le> key_char p r') (seen @ rs)"
    and "children_of tbl p seen chs mx" and "scan_inv p seen chs pc"
  shows "\<exists>chs' mx'. scan_children tbl p rs pc chs mx = Inr (chs', mx') \<and> children_of tbl p (seen @ rs) chs' mx'"
  using assms
proof (induction rs arbitrary: seen chs mx pc)
  case Nil
  then show ?case by auto
next
  case (Cons r rs)
  let ?c = "key_char p r"
  have srt: "sorted_wrt (\<lambda>r r'. key_char p r \<le> key_char p r') ((seen @ [r]) @ rs)"
    using Cons.prems(1) by simp
  have le_last: "key_char p x \<le> key_char p (last seen)" if "x \<in> set seen" for x
    using that Cons.prems(1) by (cases seen rule: rev_cases) (auto simp: sorted_wrt_append)
  show ?case
  proof (cases "pc < uint ?c")
    case True
    have new: "?c \<notin> chars p seen"
      using True Cons.prems(3) le_last
      by (fastforce simp: chars_def word_le_def scan_inv_def split: if_splits)
    let ?off = "unat (tbl ! unat ?c) + 1"
    have "scan_inv p (seen @ [r]) (chs @ [\<lparr>ch_c = ?c, ch_offset = ?off, ch_recs = [r]\<rparr>]) (uint ?c)"
      by (simp add: scan_inv_def)
    from Cons.IH [OF srt children_of_new [OF Cons.prems(2) refl new] this] True
    show ?thesis by (simp add: Let_def)
  next
    case False
    with Cons.prems(3) have ne: "chs \<noteq> []"
      by (auto simp: scan_inv_def) (use uint_nonnegative [of ?c] in linarith)
    with Cons.prems(3) have inv: "seen \<noteq> []" "pc = uint (key_char p (last seen))"
      "key_char p (last seen) = ch_c (last chs)" by (auto simp: scan_inv_def)
    have "last seen \<in> set seen" using inv(1) by simp
    with Cons.prems(1) have "key_char p (last seen) \<le> ?c"
      unfolding sorted_wrt_append by simp
    with False inv have pc: "pc = uint ?c"
      by (simp add: word_le_def)
    with inv have eq: "?c = ch_c (last chs)" by (auto intro: unsigned_word_eqI)
    have "scan_inv p (seen @ [r]) (extend_last r chs) (uint ?c)"
      using ne eq by (simp add: scan_inv_def ch_c_last_extend) (simp add: extend_last_def)
    from Cons.IH [OF srt children_of_extend [OF Cons.prems(2) ne eq] this] pc
    show ?thesis by (simp add: Let_def)
  qed
qed

lemma scan_children_ok:
  assumes "recs_ok p recs"
  obtains chs mx where "scan_children tbl p recs (-1) [] 0 = Inr (chs, mx)" "children_of tbl p recs chs mx"
proof -
  have "children_of tbl p [] [] 0"
    by (simp add: children_of_def chars_def)
  then show ?thesis
    using scan_children_gen [of p "[]" recs tbl "[]" 0 "-1"] recs_ok_sorted_chars [OF assms] that
    by (auto simp: scan_inv_def)
qed

end
