(* ===== verification/Das_Arrange.thy ===== *)
theory Das_Arrange
  imports Das_Scan
begin

text \<open>
  The builder's recursion is correct: for a sorted range of records, \<^verbatim>\<open>arrange\<close>
  always returns, the only exceptions it can throw are the two for lack of space, and
  otherwise the double array represents the records (\<open>node_ok\<close>), what was there before
  is untouched, and every element newly in use belongs to a base registered since.
\<close>

section \<open>The state of the builder\<close>

definition in_use_set :: "'e da_traits \<Rightarrow> 'e builder \<Rightarrow> nat set" where
  "in_use_set T s = {j. da_in_use T s j}"

definition used_base :: "'e builder \<Rightarrow> nat \<Rightarrow> bool" where
  "used_base s b \<longleftrightarrow> b < length (m_used_bases s) \<and> m_used_bases s ! b"

definition builder_ok :: "'e da_traits \<Rightarrow> 'e builder \<Rightarrow> bool" where
  "builder_ok T s \<longleftrightarrow> vlist_ok (m_elink s) (in_use_set T s) \<and> table_ok (m_table s) \<and> m_tail s \<noteq> []"

text \<open>The place of the child for a character.\<close>

definition child_pos :: "byte list \<Rightarrow> nat \<Rightarrow> byte \<Rightarrow> nat" where
  "child_pos tbl b c = b + unat (tbl ! unat c) + 1"

lemma child_pos_inject: "table_ok tbl \<Longrightarrow> child_pos tbl b c = child_pos tbl b d \<longleftrightarrow> c = d"
  by (auto simp: child_pos_def table_ok_inject dest!: unsigned_word_eqI)

lemma in_use_less: "j \<in> in_use_set T s \<Longrightarrow> j < length (m_da s)"
  by (simp add: in_use_set_def da_in_use_def)

section \<open>Representation of records by the double array\<close>

text \<open>
  \<open>node_ok T da tail tbl put M I B v p recs\<close>: an element whose BASE is \<open>v\<close> represents
  the records \<open>recs\<close> from their character \<open>p\<close> on. A negative \<open>v\<close> is a leaf, whose tail
  holds the rest of the key and the value; a positive one is the base of a node, whose
  children are the elements at the places of its characters. \<open>M\<close> gives the characters
  of each base, \<open>I\<close> and \<open>B\<close> hold all elements and bases of the subtree.
\<close>

inductive node_ok :: "'e da_traits \<Rightarrow> 'e list \<Rightarrow> bytes \<Rightarrow> byte list \<Rightarrow> (otail \<Rightarrow> 'v \<Rightarrow> otail) \<Rightarrow>
  (nat \<Rightarrow> byte set) \<Rightarrow> nat set \<Rightarrow> nat set \<Rightarrow> int \<Rightarrow> nat \<Rightarrow> 'v das_record list \<Rightarrow> bool"
  for T da tail tbl put M I B where
  leaf: "0 < off \<Longrightarrow> p \<le> length (rec_key r) \<Longrightarrow>
    tail_holds tail off (drop p (rec_key r) @ [0] @ put [] (rec_value r)) \<Longrightarrow>
    node_ok T da tail tbl put M I B (- int off) p [r]"
| node: "2 \<le> length recs \<Longrightarrow> 0 < b \<Longrightarrow> b \<in> B \<Longrightarrow> M b = chars p recs \<Longrightarrow>
    \<forall>c\<in>chars p recs. child_pos tbl b c \<in> I \<and> child_pos tbl b c < length da
      \<and> tr_get_check T (da ! child_pos tbl b c) = tbl ! unat c
      \<and> node_ok T da tail tbl put M I B (tr_get_base T (da ! child_pos tbl b c))
          (if c = 0 then p else p + 1) (child_recs p c recs) \<Longrightarrow>
    node_ok T da tail tbl put M I B (int b) p recs"

lemma node_ok_mono:
  assumes "node_ok T da tail tbl put M I B v p recs"
    and "\<And>j. j \<in> I \<Longrightarrow> j < length da \<Longrightarrow> j < length da' \<and> da' ! j = da ! j"
    and "\<And>b. b \<in> B \<Longrightarrow> M' b = M b" and "I \<subseteq> I'" and "B \<subseteq> B'"
  shows "node_ok T da' (tail @ ext) tbl put M' I' B' v p recs"
  using assms(1)
proof (induction rule: node_ok.induct)
  case (leaf off p r)
  then show ?case by (intro node_ok.leaf) (simp_all add: tail_holds_append)
next
  case (node recs b p)
  show ?case
    using node assms(2-5) by (intro node_ok.node) (auto 0 3)
qed

text \<open>The BASE of a represented element is never 0.\<close>

lemma node_ok_nonzero: "node_ok T da tail tbl put M I B v p recs \<Longrightarrow> v \<noteq> 0"
  by (auto elim: node_ok.cases)

section \<open>Extending the double array\<close>

definition da_ext :: "'e da_traits \<Rightarrow> 'e builder \<Rightarrow> 'e builder \<Rightarrow> bool" where
  "da_ext T s s' \<longleftrightarrow> length (m_da s) \<le> length (m_da s') \<and>
     (\<forall>j<length (m_da s'). m_da s' ! j = (if j < length (m_da s) then m_da s ! j else default_value T))"

lemma da_ext_refl [simp]: "m_da s' = m_da s \<Longrightarrow> da_ext T s s'"
  by (simp add: da_ext_def)

lemma da_ext_trans: "da_ext T s s' \<Longrightarrow> da_ext T s' s'' \<Longrightarrow> da_ext T s s''"
  by (simp add: da_ext_def)

lemma da_ext_expand: "da_ext T s (da_expand T n s)"
  by (auto simp: da_ext_def da_expand_def nth_resize)

lemma length_da_expand [simp]: "length (m_da (da_expand T n s)) = max n (length (m_da s))"
  by (auto simp: da_expand_def)

lemma da_expand_frame [simp]:
  "m_tail (da_expand T n s) = m_tail s" "m_table (da_expand T n s) = m_table s"
  "m_used_bases (da_expand T n s) = m_used_bases s" "m_elink (da_expand T n s) = m_elink s"
  by (simp_all add: da_expand_def)

text \<open>What a search for a base leaves behind, and the base it returns.\<close>

definition base_found ::
  "'e da_traits \<Rightarrow> 'v child list \<Rightarrow> nat \<Rightarrow> 'e builder \<Rightarrow> 'e builder \<Rightarrow> nat \<Rightarrow> bool" where
  "base_found T chs mx s s' base \<longleftrightarrow> da_ext T s s' \<and>
    vlist_ok (m_elink s') (in_use_set T s) \<and>
    base + mx < length (m_da s') \<and> base + mx < length (m_elink s') \<and>
    0 < base \<and> \<not> used_base s base \<and>
    (\<forall>ch\<in>set chs. base + ch_offset ch \<notin> in_use_set T s) \<and>
    m_tail s' = m_tail s \<and> m_table s' = m_table s \<and> m_used_bases s' = m_used_bases s"

context da_traits_laws
begin

lemma da_ext_in_use: "da_ext T s s' \<Longrightarrow> in_use_set T s' = in_use_set T s"
  by (auto simp: da_ext_def in_use_set_def da_in_use_def b_get_base_def split: if_splits)

lemma base_found_later:
  assumes "base_found T chs mx s1 s' base" and "da_ext T s s1"
    and "m_tail s1 = m_tail s" "m_table s1 = m_table s" "m_used_bases s1 = m_used_bases s"
  shows "base_found T chs mx s s' base"
  using assms da_ext_in_use [OF assms(2)]
  by (auto simp: base_found_def used_base_def intro: da_ext_trans)

section \<open>The search for a base returns\<close>

text \<open>The arrays after they have been extended for a base.\<close>

lemma expanded_for_base:
  fixes n :: nat
  assumes "vlist_ok (m_elink s) (in_use_set T s)"
  defines "s2 \<equiv> b_vlist_expand n (da_expand T n (bump_trials s))"
  shows "da_ext T s s2" "in_use_set T s2 = in_use_set T s" "vlist_ok (m_elink s2) (in_use_set T s)"
    "n \<le> length (m_da s2)" "n \<le> length (m_elink s2)"
    "m_used_bases s2 = m_used_bases s" "m_tail s2 = m_tail s" "m_table s2 = m_table s"
proof -
  have s1: "m_elink (bump_trials s) = m_elink s" "m_da (bump_trials s) = m_da s" "m_used_bases (bump_trials s) = m_used_bases s"
    "m_tail (bump_trials s) = m_tail s" "m_table (bump_trials s) = m_table s"
    by (simp_all add: bump_trials_def)
  show ext: "da_ext T s s2"
    using da_ext_expand [of T "bump_trials s"] by (simp add: s2_def b_vlist_expand_def da_ext_def s1)
  show "in_use_set T s2 = in_use_set T s" by (rule da_ext_in_use [OF ext])
  show "vlist_ok (m_elink s2) (in_use_set T s)" using vlist_expand_ok [OF assms(1)] by (simp add: s2_def b_vlist_expand_def s1)
qed (simp_all add: s2_def b_vlist_expand_def bump_trials_def)

text \<open>A base that no child contradicts.\<close>

lemma base_found_here:
  fixes mx :: nat
  assumes ok: "vlist_ok (m_elink s) (in_use_set T s)" and chs: "chs \<noteq> []" "i \<notin> in_use_set T s" "i = base + ch_offset (hd chs)"
    and base: "0 < base" "\<not> used_base s base"
  defines "s2 \<equiv> b_vlist_expand (base + mx + 1) (da_expand T (base + mx + 1) (bump_trials s))"
  assumes free: "\<not> list_ex (\<lambda>ch. da_in_use T s2 (base + ch_offset ch)) (tl chs)"
  shows "base_found T chs mx s s2 base"
proof -
  note ex = expanded_for_base [OF ok, of "base + mx + 1", folded s2_def]
  have "base + ch_offset ch \<notin> in_use_set T s" if "ch \<in> set chs" for ch
  proof (cases "ch = hd chs")
    case False
    then have "ch \<in> set (tl chs)" using that chs(1) by (cases chs) auto
    then have "\<not> da_in_use T s2 (base + ch_offset ch)" using free by (auto simp: list_ex_iff)
    then show ?thesis unfolding ex(2) [symmetric] by (simp add: in_use_set_def)
  qed (use chs in simp)
  then show ?thesis using ex base by (simp add: base_found_def)
qed

lemma find_base_ok:
  assumes "vlist_ok (m_elink s) (in_use_set T s)" and "chs \<noteq> []"
    and "\<forall>ch\<in>set chs. 0 < ch_offset ch \<and> ch_offset ch \<le> mx" and "mx \<le> 256"
    and "index \<notin> in_use_set T s" and "in_use_set T s \<subseteq> {..<D}"
  shows "\<exists>s' base. find_base T chs mx index s = Some (s', base) \<and> base_found T chs mx s s' base"
  using assms
proof (induction "D + length (m_used_bases s) + 258 - index" arbitrary: s index rule: less_induct)
  case less
  define i where "i = vlist_next (m_elink s) index"
  define off where "off = ch_offset (hd chs)"
  define base where "base = i - off"
  define s2 where "s2 = b_vlist_expand (base + mx + 1) (da_expand T (base + mx + 1) (bump_trials s))"
  define clash where "clash = list_ex (\<lambda>ch. da_in_use T s2 (base + ch_offset ch)) (tl chs)"
  let ?s1 = "bump_trials s"
  have off: "0 < off" "off \<le> mx" "mx \<le> 256" using less.prems by (auto simp: off_def)
  have i: "index < i" "i \<notin> in_use_set T s" using vlist_next_vacant [OF less.prems(1,5)] by (auto simp: i_def)
  have s1: "m_elink ?s1 = m_elink s" "m_da ?s1 = m_da s" "m_used_bases ?s1 = m_used_bases s" "m_tail ?s1 = m_tail s" "m_table ?s1 = m_table s"
    by (simp_all add: bump_trials_def)
  have ext1: "da_ext T s ?s1" by (simp add: da_ext_def s1)
  note ex = expanded_for_base [OF less.prems(1), of "base + mx + 1", folded s2_def]
  have step: "find_base T chs mx index s =
    (if i < 1 + off \<or> used_base s base then find_base T chs mx i ?s1
     else if clash then find_base T chs mx i s2 else Some (s2, base))"
    by (subst find_base.simps) (simp add: Let_def s1 used_base_def INITIAL_INDEX_def i_def off_def base_def s2_def clash_def)
  have again: ?case if st: "find_base T chs mx index s = find_base T chs mx i s'" "da_ext T s s'" "vlist_ok (m_elink s') (in_use_set T s)"
      "m_used_bases s' = m_used_bases s" "m_tail s' = m_tail s" "m_table s' = m_table s" and b: "i < D + length (m_used_bases s) + 258" for s'
  proof -
    have use: "in_use_set T s' = in_use_set T s" by (rule da_ext_in_use [OF st(2)])
    have "D + length (m_used_bases s') + 258 - i < D + length (m_used_bases s) + 258 - index" using b i(1) st(4) by simp
    from less.hyps [of s' i, unfolded use, OF this st(3) less.prems(2-4) i(2) less.prems(6)]
    show ?thesis using base_found_later [OF _ st(2,5,6,4)] unfolding st(1) by blast
  qed
  consider (retry) "i < 1 + off \<or> used_base s base" | (clash) "1 + off \<le> i" "\<not> used_base s base" clash
    | (found) "1 + off \<le> i" "\<not> used_base s base" "\<not> clash" by linarith
  then show ?case
  proof cases
    case retry
    have "base < length (m_used_bases s)" if "used_base s base" using that by (simp add: used_base_def)
    then have "i < D + length (m_used_bases s) + 258" using retry off unfolding base_def by linarith
    then show ?thesis using retry step less.prems(1) s1 by (intro again [of ?s1, OF _ ext1]) simp_all
  next
    case clash
    then obtain ch where "ch \<in> set (tl chs)" "base + ch_offset ch \<in> in_use_set T s2" by (auto simp: clash_def list_ex_iff in_use_set_def)
    then have "base < D" using less.prems(6) unfolding ex(2) by auto
    then have "i < D + length (m_used_bases s) + 258" using off unfolding base_def by linarith
    then show ?thesis using clash step by (intro again [of s2, OF _ ex(1,3,6,7,8)]) simp_all
  next
    case found
    then have "find_base T chs mx index s = Some (s2, base)" using step by simp
    moreover have "base_found T chs mx s s2 base"
      unfolding s2_def
    proof (rule base_found_here [OF less.prems(1,2) i(2)])
      show "i = base + ch_offset (hd chs)" "0 < base" using found(1) by (simp_all add: base_def off_def)
      show "\<not> list_ex (\<lambda>ch. da_in_use T (b_vlist_expand (base + mx + 1) (da_expand T (base + mx + 1) (bump_trials s))) (base + ch_offset ch)) (tl chs)"
        using found(3) unfolding clash_def s2_def .
    qed (rule found(2))
    ultimately show ?thesis by blast
  qed
qed

end

section \<open>What a call of arrange guarantees\<close>

text \<open>The call returns; an exception it throws is for lack of space; a result satisfies \<open>Q\<close>.\<close>

definition outcome_ok :: "(das_error, 'a) outcome \<Rightarrow> ('a \<Rightarrow> bool) \<Rightarrow> bool" where
  "outcome_ok R Q = (case R of None \<Rightarrow> False
     | Some (Inl e) \<Rightarrow> e = NoSpaceLeaves \<or> e = NoSpaceChildren
     | Some (Inr x) \<Rightarrow> Q x)"

lemma outcome_ok_simps [simp]:
  "\<not> outcome_ok None Q"
  "outcome_ok (Some (Inl e)) Q \<longleftrightarrow> e = NoSpaceLeaves \<or> e = NoSpaceChildren"
  "outcome_ok (Some (Inr x)) Q \<longleftrightarrow> Q x"
  by (simp_all add: outcome_ok_def)

lemma outcome_ok_bind:
  assumes "outcome_ok m P" and "\<And>x. P x \<Longrightarrow> outcome_ok (f x) Q"
  shows "outcome_ok (bindR m f) Q"
proof (cases m)
  case (Some r)
  with assms show ?thesis by (cases r) simp_all
qed (use assms in simp)

lemma outcome_ok_mono: "outcome_ok m P \<Longrightarrow> (\<And>x. P x \<Longrightarrow> Q x) \<Longrightarrow> outcome_ok m Q"
  by (auto simp: outcome_ok_def split: option.splits sum.splits)

text \<open>Elements and bases taken since \<open>s\<close>.\<close>

definition new_use :: "'e da_traits \<Rightarrow> 'e builder \<Rightarrow> 'e builder \<Rightarrow> nat set" where
  "new_use T s s' = in_use_set T s' - in_use_set T s"

definition new_bases :: "'e builder \<Rightarrow> 'e builder \<Rightarrow> nat set" where
  "new_bases s s' = {b. used_base s' b \<and> \<not> used_base s b}"

text \<open>Everything only grows, and elements in use outside \<open>X\<close> keep their value.\<close>

definition grows :: "'e da_traits \<Rightarrow> nat set \<Rightarrow> 'e builder \<Rightarrow> 'e builder \<Rightarrow> bool" where
  "grows T X s s' \<longleftrightarrow> in_use_set T s \<subseteq> in_use_set T s' \<and>
     (\<forall>j\<in>in_use_set T s - X. m_da s' ! j = m_da s ! j) \<and>
     length (m_da s) \<le> length (m_da s') \<and> (\<exists>ext. m_tail s' = m_tail s @ ext) \<and>
     m_table s' = m_table s \<and> (\<forall>b. used_base s b \<longrightarrow> used_base s' b)"

text \<open>Every element taken since \<open>s\<close> is the child of a base registered since, for one of its characters.\<close>

definition owned :: "'e da_traits \<Rightarrow> (nat \<Rightarrow> byte set) \<Rightarrow> 'e builder \<Rightarrow> 'e builder \<Rightarrow> bool" where
  "owned T M s s' \<longleftrightarrow> (\<forall>j\<in>new_use T s s'. \<exists>b\<in>new_bases s s'. \<exists>c\<in>M b.
     j = child_pos (m_table s) b c \<and> tr_get_check T (m_da s' ! j) = m_table s ! unat c)"

definition agree :: "'e builder \<Rightarrow> (nat \<Rightarrow> byte set) \<Rightarrow> (nat \<Rightarrow> byte set) \<Rightarrow> bool" where
  "agree s M M' \<longleftrightarrow> (\<forall>b. used_base s b \<longrightarrow> M' b = M b)"

text \<open>The postcondition of \<^verbatim>\<open>arrange\<close> from \<open>s\<close> with result \<open>(s', v)\<close>.\<close>

definition arranged :: "'e da_traits \<Rightarrow> (otail \<Rightarrow> 'v \<Rightarrow> otail) \<Rightarrow> (nat \<Rightarrow> byte set) \<Rightarrow> (nat \<Rightarrow> byte set) \<Rightarrow>
  'e builder \<Rightarrow> nat \<Rightarrow> 'v das_record list \<Rightarrow> 'e builder \<times> int \<Rightarrow> bool" where
  "arranged T put M M' s p recs = (\<lambda>(s', v). grows T {} s s' \<and> builder_ok T s' \<and> agree s M M' \<and>
     owned T M' s s' \<and> - max_base T \<le> v \<and> v \<le> max_base T \<and>
     node_ok T (m_da s') (m_tail s') (m_table s) put M' (new_use T s s') (new_bases s s') v p recs)"

text \<open>The same for the loop over the children, whose elements \<open>s\<close> has reserved.\<close>

definition places :: "nat \<Rightarrow> 'v child list \<Rightarrow> nat set" where
  "places base chs = (\<lambda>ch. base + ch_offset ch) ` set chs"

definition next_p :: "nat \<Rightarrow> byte \<Rightarrow> nat" where
  "next_p p c = (if c = 0 then p else p + 1)"

definition children_arranged :: "'e da_traits \<Rightarrow> (otail \<Rightarrow> 'v \<Rightarrow> otail) \<Rightarrow> (nat \<Rightarrow> byte set) \<Rightarrow>
  (nat \<Rightarrow> byte set) \<Rightarrow> 'e builder \<Rightarrow> nat \<Rightarrow> nat \<Rightarrow> 'v child list \<Rightarrow> 'e builder \<Rightarrow> bool" where
  "children_arranged T put M M' s base p chs s' \<longleftrightarrow> grows T (places base chs) s s' \<and> builder_ok T s' \<and>
     agree s M M' \<and> owned T M' s s' \<and>
     (\<forall>ch\<in>set chs. tr_get_check T (m_da s' ! (base + ch_offset ch)) = m_table s ! unat (ch_c ch) \<and>
        node_ok T (m_da s') (m_tail s') (m_table s) put M' (new_use T s s') (new_bases s s')
          (tr_get_base T (m_da s' ! (base + ch_offset ch))) (next_p p (ch_c ch)) (ch_recs ch))"

section \<open>Frame lemmas\<close>

lemma builder_frames [simp]:
  "m_tail (b_set_base T i v s) = m_tail s" "m_tail (b_set_check T i c s) = m_tail s"
  "m_table (b_set_base T i v s) = m_table s" "m_table (b_set_check T i c s) = m_table s"
  "m_used_bases (b_set_base T i v s) = m_used_bases s" "m_used_bases (b_set_check T i c s) = m_used_bases s"
  "m_elink (b_set_base T i v s) = m_elink s" "m_elink (b_set_check T i c s) = m_elink s"
  "m_tail (b_vlist_use i s) = m_tail s" "m_table (b_vlist_use i s) = m_table s"
  "m_used_bases (b_vlist_use i s) = m_used_bases s" "m_da (b_vlist_use i s) = m_da s"
  "m_tail (register_base b s) = m_tail s" "m_table (register_base b s) = m_table s"
  "m_elink (register_base b s) = m_elink s" "m_da (register_base b s) = m_da s"
  "length (m_da (b_set_base T i v s)) = length (m_da s)"
  "length (m_da (b_set_check T i c s)) = length (m_da s)"
  by (simp_all add: b_set_base_def b_set_check_def b_vlist_use_def register_base_def Let_def)

lemma in_use_set_cong: "m_da s' = m_da s \<Longrightarrow> in_use_set T s' = in_use_set T s"
  by (simp add: in_use_set_def da_in_use_def b_get_base_def)

lemma used_base_cong: "m_used_bases s' = m_used_bases s \<Longrightarrow> used_base s' b = used_base s b"
  by (simp add: used_base_def)

lemma used_base_register [simp]: "used_base (register_base base s) b \<longleftrightarrow> b = base \<or> used_base s b"
  by (auto simp: used_base_def register_base_def Let_def nth_resize nth_list_update)

lemma grows_refl [simp]: "grows T X s s"
  by (simp add: grows_def)

lemma grows_trans: "grows T X s s1 \<Longrightarrow> grows T X s1 s2 \<Longrightarrow> grows T X s s2"
  unfolding grows_def by (auto simp: subset_iff)

lemma grows_weaken: "grows T X s s' \<Longrightarrow> X \<subseteq> Y \<Longrightarrow> grows T Y s s'"
  by (auto simp: grows_def)

context da_traits_laws
begin

section \<open>The operations on elements\<close>

lemma in_use_set_base:
  assumes "j < length (m_da s)" "v \<noteq> 0" "- max_base T \<le> v" "v \<le> max_base T"
  shows "in_use_set T (b_set_base T j v s) = insert j (in_use_set T s)"
  using assms
  by (auto simp: in_use_set_def da_in_use_def b_get_base_def b_set_base_def nth_list_update
      get_base_set_base split: if_splits)

lemma in_use_set_check [simp]: "in_use_set T (b_set_check T j c s) = in_use_set T s"
proof -
  have "tr_get_base T (m_da (b_set_check T j c s) ! i) = tr_get_base T (m_da s ! i)"
    if "i < length (m_da s)" for i
    using that by (cases "i = j") (simp_all add: b_set_check_def)
  then show ?thesis
    by (auto simp: in_use_set_def da_in_use_def b_get_base_def)
qed

lemma b_set_nth_other:
  "i \<noteq> j \<Longrightarrow> m_da (b_set_base T j v s) ! i = m_da s ! i"
  "i \<noteq> j \<Longrightarrow> m_da (b_set_check T j c s) ! i = m_da s ! i"
  by (simp_all add: b_set_base_def b_set_check_def)

lemma b_set_both:
  assumes "j < length (m_da s)" "- max_base T \<le> v" "v \<le> max_base T"
  shows "tr_get_base T (m_da (b_set_check T j c (b_set_base T j v s)) ! j) = v"
    and "tr_get_check T (m_da (b_set_check T j c (b_set_base T j v s)) ! j) = c"
  using assms by (simp_all add: b_set_base_def b_set_check_def get_base_set_base)

lemma reserve_children_ok:
  assumes "vlist_ok (m_elink s) (in_use_set T s)" and "distinct (map ch_offset chs)"
    and "\<forall>ch\<in>set chs. base + ch_offset ch \<notin> in_use_set T s \<and> 0 < base + ch_offset ch
      \<and> base + ch_offset ch < length (m_da s) \<and> base + ch_offset ch < length (m_elink s)"
  defines "s' \<equiv> reserve_children T base chs s"
  shows "vlist_ok (m_elink s') (in_use_set T s') \<and> in_use_set T s' = in_use_set T s \<union> places base chs \<and>
    length (m_da s') = length (m_da s) \<and> (\<forall>j. j \<notin> places base chs \<longrightarrow> m_da s' ! j = m_da s ! j) \<and>
    m_tail s' = m_tail s \<and> m_table s' = m_table s \<and> m_used_bases s' = m_used_bases s"
  using assms(1-3) unfolding s'_def
proof (induction chs arbitrary: s)
  case Nil
  then show ?case by (simp add: places_def)
next
  case (Cons ch chs)
  let ?j = "base + ch_offset ch"
  let ?s1 = "b_vlist_use ?j (b_set_base T ?j 1 s)"
  have use1: "in_use_set T ?s1 = insert ?j (in_use_set T s)"
    using Cons.prems(3) max_base_pos
    by (simp add: in_use_set_cong [of "b_vlist_use _ _" "b_set_base T ?j 1 s"] in_use_set_base)
  have ok1: "vlist_ok (m_elink ?s1) (in_use_set T ?s1)"
    and len1: "length (m_elink s) \<le> length (m_elink ?s1)"
    using vlist_use_ok [OF Cons.prems(1), of ?j] Cons.prems(3)
    by (simp_all add: use1) (simp_all add: b_vlist_use_def)
  have ne: "ch_offset c \<noteq> ch_offset ch" if "c \<in> set chs" for c
    using Cons.prems(2) imageI [OF that, of ch_offset] by auto
  have "distinct (map ch_offset chs)"
    and "\<forall>c\<in>set chs. base + ch_offset c \<notin> in_use_set T ?s1 \<and> 0 < base + ch_offset c
      \<and> base + ch_offset c < length (m_da ?s1) \<and> base + ch_offset c < length (m_elink ?s1)"
    using Cons.prems(2,3) len1 ne by (auto simp: use1)
  from Cons.IH [OF ok1 this] show ?case
    by (auto simp: use1 places_def b_set_nth_other)
qed

section \<open>The induction\<close>

lemma children_of_offsets:
  assumes "children_of tbl p recs chs mx" and "table_ok tbl"
  shows "distinct (map ch_offset chs)"
    and "\<forall>ch\<in>set chs. 0 < ch_offset ch \<and> ch_offset ch \<le> mx \<and>
      base + ch_offset ch = child_pos tbl base (ch_c ch) \<and>
      (word_of_nat (ch_offset ch - 1) :: byte) = tbl ! unat (ch_c ch)"
proof -
  have "ch_offset ch = child_pos tbl 0 (ch_c ch)" if "ch \<in> set chs" for ch
    using assms(1) that by (simp add: children_of_def child_pos_def)
  then have "map ch_offset chs = map (child_pos tbl 0) (map ch_c chs)" by simp
  moreover have "inj_on (child_pos tbl 0) (set (map ch_c chs))"
    using assms(2) by (simp add: inj_on_def child_pos_inject)
  moreover have "distinct (map ch_c chs)"
    using assms(1) by (simp add: children_of_def)
  ultimately show "distinct (map ch_offset chs)"
    by (metis distinct_map)
  show "\<forall>ch\<in>set chs. 0 < ch_offset ch \<and> ch_offset ch \<le> mx \<and>
      base + ch_offset ch = child_pos tbl base (ch_c ch) \<and>
      (word_of_nat (ch_offset ch - 1) :: byte) = tbl ! unat (ch_c ch)"
    using assms(1) by (auto simp: children_of_def child_pos_def)
qed

end

section \<open>Later changes keep what is represented\<close>

lemma in_use_growsD: "grows T X s s' \<Longrightarrow> j \<in> in_use_set T s \<Longrightarrow> j \<in> in_use_set T s'"
  by (auto simp: grows_def)

lemma nth_growsD: "grows T X s s' \<Longrightarrow> j \<in> in_use_set T s \<Longrightarrow> j \<notin> X \<Longrightarrow> m_da s' ! j = m_da s ! j"
  by (simp add: grows_def)

lemma node_ok_later:
  assumes "node_ok T (m_da s1) (m_tail s1) tbl put M1 (new_use T s s1) (new_bases s s1) v p recs"
    and g: "grows T X s1 s'" and X: "X \<subseteq> in_use_set T s" and "agree s1 M1 M'"
    and g0: "grows T Y s s1"
  shows "node_ok T (m_da s') (m_tail s') tbl put M' (new_use T s s') (new_bases s s') v p recs"
proof -
  obtain ext where ext: "m_tail s' = m_tail s1 @ ext" using g by (auto simp: grows_def)
  show ?thesis
    unfolding ext
  proof (rule node_ok_mono [OF assms(1)])
    fix j assume "j \<in> new_use T s s1"
    then have "j \<in> in_use_set T s1" "j \<notin> X" using X by (auto simp: new_use_def)
    with g show "j < length (m_da s') \<and> m_da s' ! j = m_da s1 ! j"
      using in_use_less [OF in_use_growsD] nth_growsD by blast
  next
    show "new_use T s s1 \<subseteq> new_use T s s'"
      using in_use_growsD [OF g] by (auto simp: new_use_def)
    show "new_bases s s1 \<subseteq> new_bases s s'"
      using g by (auto simp: new_bases_def grows_def)
    show "M' b = M1 b" if "b \<in> new_bases s s1" for b
      using that assms(4) by (simp add: agree_def new_bases_def)
  qed
qed

lemma owned_later:
  assumes o1: "owned T M1 s s1" and o2: "owned T M' s1 s'"
    and g: "grows T X s1 s'" and X: "X \<subseteq> in_use_set T s" and ag: "agree s1 M1 M'"
    and g0: "grows T Y s s1"
  shows "owned T M' s s'"
  unfolding owned_def
proof
  fix j assume j: "j \<in> new_use T s s'"
  have tbl: "m_table s1 = m_table s" using g0 by (simp add: grows_def)
  have bases: "new_bases s s1 \<subseteq> new_bases s s'" "new_bases s1 s' \<subseteq> new_bases s s'"
    using g g0 by (auto simp: new_bases_def grows_def)
  show "\<exists>b\<in>new_bases s s'. \<exists>c\<in>M' b. j = child_pos (m_table s) b c
      \<and> tr_get_check T (m_da s' ! j) = m_table s ! unat c"
  proof (cases "j \<in> in_use_set T s1")
    case True
    with j have new: "j \<in> new_use T s s1" by (simp add: new_use_def)
    then obtain b c where bc: "b \<in> new_bases s s1" "c \<in> M1 b" "j = child_pos (m_table s) b c"
      "tr_get_check T (m_da s1 ! j) = m_table s ! unat c"
      using o1 unfolding owned_def by blast
    moreover have "m_da s' ! j = m_da s1 ! j"
      using nth_growsD [OF g True] new X by (auto simp: new_use_def)
    moreover have "M' b = M1 b" using bc(1) ag by (simp add: agree_def new_bases_def)
    ultimately show ?thesis
      using bases(1) by (intro bexI [of _ b] bexI [of _ c]) auto
  next
    case False
    with j have "j \<in> new_use T s1 s'" by (simp add: new_use_def)
    with o2 bases(2) show ?thesis unfolding owned_def tbl by blast
  qed
qed

text \<open>The builder relies on both contracts: the element layout and the record values.\<close>

locale das_builder_laws = da_traits_laws T + tail_codec put get ok
  for T :: "'e da_traits" and put :: "otail \<Rightarrow> 'v \<Rightarrow> otail"
    and get :: "itail \<Rightarrow> ('v \<times> itail) option" and ok :: "'v \<Rightarrow> bool"
begin

lemma arrange_leaf_ok:
  assumes ok: "builder_ok T s" and p: "p \<le> length (rec_key r)"
  shows "outcome_ok (arrange_leaf T put p r s) (arranged T put M M s p [r])"
proof (cases "max_base T < int (length (m_tail s))")
  case True
  then show ?thesis by (simp add: arrange_leaf_def otail_tellp_def otail_bytes_def)
next
  case False
  let ?off = "length (m_tail s)"
  let ?tail = "m_tail s @ drop p (rec_key r) @ [0] @ put [] (rec_value r)"
  obtain s' where s': "arrange_leaf T put p r s = Some (Inr (s', - int ?off))"
    and fr: "m_da s' = m_da s" "m_tail s' = ?tail" "m_table s' = m_table s"
      "m_used_bases s' = m_used_bases s" "m_elink s' = m_elink s"
    using False p put_append [of "m_tail s @ drop p (rec_key r) @ [0]" "rec_value r"]
    by (auto simp: arrange_leaf_def otail_tellp_def otail_bytes_def Let_def)
  have use: "in_use_set T s' = in_use_set T s" by (rule in_use_set_cong [OF fr(1)])
  have "node_ok T (m_da s') (m_tail s') (m_table s) put M (new_use T s s') (new_bases s s') (- int ?off) p [r]"
    using ok p tail_holds_end [of "m_tail s" "drop p (rec_key r) @ [0] @ put [] (rec_value r)" "[]"]
    by (intro node_ok.leaf) (auto simp: builder_ok_def fr)
  then show ?thesis
    using ok False
    by (simp add: s' arranged_def grows_def builder_ok_def agree_def owned_def new_use_def
        used_base_def use fr)
qed

text \<open>Storing the value and the check of a reserved child.\<close>

lemma child_stored:
  fixes c :: byte
  assumes j: "j \<in> in_use_set T s" and v: "v \<noteq> 0" "- max_base T \<le> v" "v \<le> max_base T"
  defines "s2 \<equiv> b_set_check T j c (b_set_base T j v s)"
  shows "in_use_set T s2 = in_use_set T s" "grows T {j} s s2" "builder_ok T s \<Longrightarrow> builder_ok T s2" "used_base s2 b = used_base s b"
proof -
  show use: "in_use_set T s2 = in_use_set T s"
    using in_use_less [OF j] v j by (simp add: s2_def in_use_set_base insert_absorb)
  show "grows T {j} s s2" unfolding grows_def use by (simp add: s2_def b_set_nth_other used_base_def)
  show "builder_ok T s \<Longrightarrow> builder_ok T s2" unfolding builder_ok_def use by (simp add: s2_def)
  show "used_base s2 b = used_base s b" by (simp add: s2_def used_base_def)
qed

text \<open>The first child and the others.\<close>

lemma children_arranged_Cons:
  assumes ar: "arranged T put M M1 s (next_p p (ch_c ch)) (ch_recs ch) (s1, v)"
    and j: "base + ch_offset ch \<in> in_use_set T s" "places base chs \<subseteq> in_use_set T s" "base + ch_offset ch \<notin> places base chs"
    and c: "(word_of_nat (ch_offset ch - 1) :: byte) = m_table s ! unat (ch_c ch)"
  defines "s2 \<equiv> b_set_check T (base + ch_offset ch) (word_of_nat (ch_offset ch - 1)) (b_set_base T (base + ch_offset ch) v s1)"
  assumes ca: "children_arranged T put M1 M' s2 base p chs s'"
  shows "children_arranged T put M M' s base p (ch # chs) s'"
proof -
  let ?j = "base + ch_offset ch"
  have g1: "grows T {} s s1" and ag1: "agree s M M1" and ow1: "owned T M1 s s1" and v: "- max_base T \<le> v" "v \<le> max_base T"
    and n1: "node_ok T (m_da s1) (m_tail s1) (m_table s) put M1 (new_use T s s1) (new_bases s s1) v (next_p p (ch_c ch)) (ch_recs ch)"
    using ar by (auto simp: arranged_def grows_def)
  have tbl: "m_table s1 = m_table s" "m_table s2 = m_table s" using g1 by (simp_all add: grows_def s2_def)
  have j1: "?j \<in> in_use_set T s1" using in_use_growsD [OF g1 j(1)] .
  note st = child_stored [OF j1 node_ok_nonzero [OF n1] v, where c = "word_of_nat (ch_offset ch - 1)", folded s2_def]
  have g3: "grows T (places base chs) s2 s'" and ag2: "agree s2 M1 M'" and ow2: "owned T M' s2 s'" and ok: "builder_ok T s'"
    using ca by (simp_all add: children_arranged_def)
  have ag1': "agree s1 M1 M'" using ag2 unfolding agree_def st(4) .
  have P: "places base (ch # chs) = insert ?j (places base chs)" by (simp add: places_def)
  have g13: "grows T (insert ?j (places base chs)) s1 s'" using grows_trans [OF grows_weaken [OF st(2)] grows_weaken [OF g3]] by blast
  have new2: "new_use T s2 s' = new_use T s1 s'" "new_bases s2 s' = new_bases s1 s'" by (simp_all only: new_use_def new_bases_def st(1,4))
  have ow12: "owned T M' s1 s'" using ow2 tbl unfolding owned_def new2 by simp
  have sub: "new_use T s1 s' \<subseteq> new_use T s s'" "new_bases s1 s' \<subseteq> new_bases s s'" using g1 by (auto simp: new_use_def new_bases_def grows_def)
  have jval: "m_da s' ! ?j = m_da s2 ! ?j" by (rule nth_growsD [OF g3 _ j(3)]) (simp only: st(1) j1)
  have first: "node_ok T (m_da s') (m_tail s') (m_table s) put M' (new_use T s s') (new_bases s s') v (next_p p (ch_c ch)) (ch_recs ch)"
    using node_ok_later [OF n1 g13 _ ag1' g1] j by simp
  have others: "tr_get_check T (m_da s' ! (base + ch_offset d)) = m_table s ! unat (ch_c d) \<and>
      node_ok T (m_da s') (m_tail s') (m_table s) put M' (new_use T s s') (new_bases s s')
        (tr_get_base T (m_da s' ! (base + ch_offset d))) (next_p p (ch_c d)) (ch_recs d)" if "d \<in> set chs" for d
    using ca that node_ok_mono [where da = "m_da s'" and da' = "m_da s'" and ext = "[]" and M = M' and M' = M' and put = put, OF _ _ _ sub] tbl(2)
    unfolding children_arranged_def new2 by simp
  show ?thesis
    unfolding children_arranged_def P
  proof (intro conjI)
    show "grows T (insert ?j (places base chs)) s s'" using grows_trans [OF grows_weaken [OF g1] g13] by simp
    show "agree s M M'" using ag1 ag1' g1 by (simp add: agree_def grows_def)
    show "owned T M' s s'" using owned_later [OF ow1 ow12 g13 _ ag1' g1] j by simp
    show "\<forall>d\<in>set (ch # chs). tr_get_check T (m_da s' ! (base + ch_offset d)) = m_table s ! unat (ch_c d) \<and>
        node_ok T (m_da s') (m_tail s') (m_table s) put M' (new_use T s s') (new_bases s s')
          (tr_get_base T (m_da s' ! (base + ch_offset d))) (next_p p (ch_c d)) (ch_recs d)"
      using first others b_set_both [OF in_use_less [OF j1] v] c jval by (simp add: s2_def)
  qed (rule ok)
qed

lemma arrange_children_ok:
  assumes call: "\<And>ch s M. ch \<in> set chs \<Longrightarrow> builder_ok T s \<Longrightarrow> m_table s = tbl \<Longrightarrow>
      outcome_ok (f (next_p p (ch_c ch)) (ch_recs ch) s)
        (\<lambda>r. \<exists>M'. arranged T put M M' s (next_p p (ch_c ch)) (ch_recs ch) r)"
    and single: "\<forall>ch\<in>set chs. ch_c ch = 0 \<longrightarrow> length (ch_recs ch) = 1"
    and "builder_ok T s" "m_table s = tbl" "places base chs \<subseteq> in_use_set T s"
    and "distinct (map ch_offset chs)"
    and "\<forall>ch\<in>set chs. (word_of_nat (ch_offset ch - 1) :: byte) = tbl ! unat (ch_c ch)"
  shows "outcome_ok (arrange_children T f base p chs s)
    (\<lambda>s'. \<exists>M'. children_arranged T put M M' s base p chs s')"
  using assms
proof (induction chs arbitrary: s M)
  case Nil
  then have "children_arranged T put M M s base p [] s"
    by (simp add: children_arranged_def agree_def owned_def new_use_def)
  then show ?case by auto
next
  case (Cons ch chs)
  let ?j = "base + ch_offset ch"
  have j: "?j \<in> in_use_set T s" "places base chs \<subseteq> in_use_set T s" using Cons.prems(5) by (auto simp: places_def)
  have jn: "?j \<notin> places base chs" using Cons.prems(6) by (auto simp: places_def)
  have rec: "arrange_children T f base p (ch # chs) s =
      bindR (f (next_p p (ch_c ch)) (ch_recs ch) s) (\<lambda>(s1, v). arrange_children T f base p chs
        (b_set_check T ?j (word_of_nat (ch_offset ch - 1)) (b_set_base T ?j v s1)))"
    using Cons.prems(2) by (auto simp: next_p_def)
  show ?case
    unfolding rec
  proof (rule outcome_ok_bind [OF Cons.prems(1) [of ch s M]])
    fix r assume "\<exists>M'. arranged T put M M' s (next_p p (ch_c ch)) (ch_recs ch) r"
    then obtain s1 v M1 where r: "r = (s1, v)"
      and ar: "arranged T put M M1 s (next_p p (ch_c ch)) (ch_recs ch) (s1, v)" by (cases r) auto
    let ?s2 = "b_set_check T ?j (word_of_nat (ch_offset ch - 1)) (b_set_base T ?j v s1)"
    have g1: "grows T {} s s1" and ok1: "builder_ok T s1" and v: "- max_base T \<le> v" "v \<le> max_base T" "v \<noteq> 0"
      using ar node_ok_nonzero [of T _ _ _ put] unfolding arranged_def by (simp_all, blast)
    have tbl2: "m_table ?s2 = tbl" using g1 Cons.prems(4) by (simp add: grows_def)
    note st = child_stored [OF in_use_growsD [OF g1 j(1)] v(3,1,2), where c = "word_of_nat (ch_offset ch - 1)"]
    have P2: "places base chs \<subseteq> in_use_set T ?s2" using j(2) in_use_growsD [OF g1] unfolding st(1) by blast
    have "outcome_ok (arrange_children T f base p chs ?s2) (\<lambda>s'. \<exists>M'. children_arranged T put M1 M' ?s2 base p chs s')"
      using Cons.prems st(3) [OF ok1] tbl2 P2 by (intro Cons.IH) simp_all
    then show "outcome_ok (case r of (s1, v) \<Rightarrow> arrange_children T f base p chs
        (b_set_check T ?j (word_of_nat (ch_offset ch - 1)) (b_set_base T ?j v s1)))
      (\<lambda>s'. \<exists>M'. children_arranged T put M M' s base p (ch # chs) s')"
      unfolding r prod.case
      using children_arranged_Cons [OF ar j jn] Cons.prems(4,7) by (elim outcome_ok_mono) auto
  qed (use Cons.prems in simp_all)
qed

lemma stat_frames [simp]:
  "in_use_set T (s\<lparr>m_stat := x\<rparr>) = in_use_set T s"
  "used_base (s\<lparr>m_stat := x\<rparr>) b = used_base s b"
  "builder_ok T (s\<lparr>m_stat := x\<rparr>) = builder_ok T s"
  by (simp_all add: in_use_set_def da_in_use_def b_get_base_def used_base_def builder_ok_def)

text \<open>From the search for a base to the reserved children.\<close>

lemma reserved_ok:
  assumes ok: "builder_ok T s" and ch: "children_of (m_table s) p recs chs mx"
    and found: "base_found T chs mx s s1 base"
  defines "s3 \<equiv> reserve_children T base chs (register_base base s1)"
  shows "builder_ok T s3" and "grows T {} s s3" and "m_table s3 = m_table s"
    and "in_use_set T s3 = in_use_set T s \<union> places base chs"
    and "used_base s3 b \<longleftrightarrow> b = base \<or> used_base s b"
proof -
  let ?s2 = "register_base base s1"
  have f: "da_ext T s s1" "vlist_ok (m_elink s1) (in_use_set T s)" "base + mx < length (m_da s1)"
    "base + mx < length (m_elink s1)" "0 < base"
    "\<forall>ch\<in>set chs. base + ch_offset ch \<notin> in_use_set T s" "m_tail s1 = m_tail s"
    "m_table s1 = m_table s" "m_used_bases s1 = m_used_bases s"
    using found by (simp_all add: base_found_def)
  have use2: "in_use_set T ?s2 = in_use_set T s"
    using da_ext_in_use [OF f(1)] in_use_set_cong [of ?s2 s1 T] by simp
  have tbl: "table_ok (m_table s)" using ok by (simp add: builder_ok_def)
  have le: "ch_offset c \<le> mx" if "c \<in> set chs" for c
    using ch that unfolding children_of_def by blast
  have v: "vlist_ok (m_elink ?s2) (in_use_set T ?s2)" using f(2) by (simp add: use2)
  have pl: "\<forall>ch\<in>set chs. base + ch_offset ch \<notin> in_use_set T ?s2 \<and> 0 < base + ch_offset ch
      \<and> base + ch_offset ch < length (m_da ?s2) \<and> base + ch_offset ch < length (m_elink ?s2)"
    using f le by (fastforce simp: use2)
  note res = reserve_children_ok [OF v children_of_offsets(1) [OF ch tbl] pl, folded s3_def]
  show use3: "in_use_set T s3 = in_use_set T s \<union> places base chs" using res use2 by simp
  show tbl3: "m_table s3 = m_table s" using res f(8) by simp
  have tail3: "m_tail s3 = m_tail s" using res f(7) by simp
  show ub: "used_base s3 b \<longleftrightarrow> b = base \<or> used_base s b" for b
    using res f(9) used_base_cong [of s3 ?s2 b] used_base_cong [of s1 s b] by simp
  show "builder_ok T s3"
    unfolding builder_ok_def tbl3
  proof (intro conjI)
    show "vlist_ok (m_elink s3) (in_use_set T s3)" using res by blast
    show "m_tail s3 \<noteq> []" using tail3 ok by (simp add: builder_ok_def)
  qed (rule tbl)
  have "m_da s3 ! j = m_da s ! j" if "j \<in> in_use_set T s" for j
  proof -
    have "j \<notin> places base chs" using f(6) that by (auto simp: places_def)
    then have "m_da s3 ! j = m_da s1 ! j" using res by simp
    then show ?thesis using f(1) in_use_less [OF that] by (simp add: da_ext_def)
  qed
  moreover have "length (m_da s) \<le> length (m_da s3)" using res f(1) by (simp add: da_ext_def)
  ultimately show "grows T {} s s3"
    using conjunct1 [OF res] tail3 ub unfolding grows_def use3 tbl3 by simp
qed

lemma grows_fresh:
  "grows T {} s s3 \<Longrightarrow> grows T P s3 s4 \<Longrightarrow> P \<inter> in_use_set T s = {} \<Longrightarrow> grows T {} s s4"
  unfolding grows_def
  by (intro conjI ballI) (blast, metis Diff_empty Diff_iff disjoint_iff subsetD, auto)

text \<open>The elements of a node: its children, reserved for \<open>base\<close>, and those taken for the nodes below.\<close>

lemma owned_node:
  assumes use: "in_use_set T s3 = in_use_set T s \<union> places base chs" "m_table s3 = m_table s"
    and base: "base \<in> new_bases s s4" "new_bases s3 s4 \<subseteq> new_bases s s4" "owned T M s3 s4"
    and chs: "\<And>ch. ch \<in> set chs \<Longrightarrow> ch_c ch \<in> M base \<and> base + ch_offset ch = child_pos (m_table s) base (ch_c ch) \<and>
      tr_get_check T (m_da s4 ! (base + ch_offset ch)) = m_table s ! unat (ch_c ch)"
  shows "owned T M s s4"
  unfolding owned_def
proof
  fix j assume j: "j \<in> new_use T s s4"
  show "\<exists>b\<in>new_bases s s4. \<exists>c\<in>M b. j = child_pos (m_table s) b c \<and> tr_get_check T (m_da s4 ! j) = m_table s ! unat c"
  proof (cases "j \<in> in_use_set T s3")
    case True
    with j use(1) obtain ch where ch: "ch \<in> set chs" "j = base + ch_offset ch" by (auto simp: new_use_def places_def)
    show ?thesis using chs [OF ch(1)] base(1) ch(2) by metis
  next
    case False
    with j have "j \<in> new_use T s3 s4" by (simp add: new_use_def)
    with base(2,3) show ?thesis unfolding owned_def use(2) by blast
  qed
qed

lemma node_arranged:
  assumes ok: "builder_ok T s" and len: "2 \<le> length recs"
    and ch: "children_of (m_table s) p recs chs mx" and found: "base_found T chs mx s s1 base"
    and bound: "int (base + mx) < max_base T"
    and s3: "s3 = reserve_children T base chs (register_base base s1)"
    and ca: "children_arranged T put (M(base := chars p recs)) M' s3 base p chs s4"
  shows "arranged T put M M' s p recs (s4\<lparr>m_stat := x\<rparr>, int base)"
proof -
  note r = reserved_ok [OF ok ch found, folded s3]
  have c: "grows T (places base chs) s3 s4" "builder_ok T s4" "agree s3 (M(base := chars p recs)) M'"
    "owned T M' s3 s4"
    "\<forall>ch\<in>set chs. tr_get_check T (m_da s4 ! (base + ch_offset ch)) = m_table s ! unat (ch_c ch) \<and>
        node_ok T (m_da s4) (m_tail s4) (m_table s) put M' (new_use T s3 s4) (new_bases s3 s4)
          (tr_get_base T (m_da s4 ! (base + ch_offset ch))) (next_p p (ch_c ch)) (ch_recs ch)"
    using ca r(3) by (simp_all add: children_arranged_def)
  have b: "0 < base" "\<not> used_base s base" "places base chs \<inter> in_use_set T s = {}"
    using found by (auto simp: base_found_def places_def)
  have g: "grows T {} s s4" by (rule grows_fresh [OF r(2) c(1) b(3)])
  have M': "M' base = chars p recs" using c(3) r(5) by (simp add: agree_def)
  have baseB: "base \<in> new_bases s s4"
    using c(1) r(5) b(2) by (simp add: new_bases_def grows_def)
  have sub: "new_use T s3 s4 \<subseteq> new_use T s s4" "new_bases s3 s4 \<subseteq> new_bases s s4"
    using r(2) by (auto simp: new_use_def new_bases_def grows_def)
  have placeI: "places base chs \<subseteq> new_use T s s4"
    using b(3) r(4) c(1) by (auto simp: new_use_def grows_def)
  have tbl: "table_ok (m_table s)" using ok by (simp add: builder_ok_def)
  have pos: "base + ch_offset ch = child_pos (m_table s) base (ch_c ch)" if "ch \<in> set chs" for ch
    using children_of_offsets(2) [OF ch tbl, of base] that by simp
  have charsD: "\<exists>ch\<in>set chs. ch_c ch = d \<and> ch_recs ch = child_recs p d recs" if "d \<in> chars p recs" for d
  proof -
    have "d \<in> ch_c ` set chs" using ch that by (simp add: children_of_def)
    with ch show ?thesis by (fastforce simp: children_of_def)
  qed
  have chars: "ch_c ch \<in> chars p recs" if "ch \<in> set chs" for ch
    using ch that by (auto simp: children_of_def)
  have own: "owned T M' s s4"
    using chars pos c(5) M' by (intro owned_node [OF r(4,3) baseB sub(2) c(4)]) blast
  have "node_ok T (m_da s4) (m_tail s4) (m_table s) put M' (new_use T s s4) (new_bases s s4) (int base) p recs"
  proof (rule node_ok.node [where M = M', OF len b(1) baseB M'], rule ballI)
    fix d assume "d \<in> chars p recs"
    then obtain ch where d: "ch \<in> set chs" "ch_c ch = d" "ch_recs ch = child_recs p d recs"
      using charsD by blast
    let ?j = "child_pos (m_table s) base d"
    have j: "?j \<in> new_use T s s4"
      using placeI d pos by (auto simp: places_def)
    then have "?j < length (m_da s4)" by (auto simp: new_use_def dest: in_use_less)
    moreover have "node_ok T (m_da s4) (m_tail s4) (m_table s) put M' (new_use T s s4) (new_bases s s4)
        (tr_get_base T (m_da s4 ! ?j)) (next_p p d) (child_recs p d recs)"
      using node_ok_mono [where da = "m_da s4" and da' = "m_da s4" and ext = "[]" and M = M'
          and M' = M' and put = put, OF _ _ _ sub] c(5) d pos by auto
    ultimately show "?j \<in> new_use T s s4 \<and> ?j < length (m_da s4) \<and>
        tr_get_check T (m_da s4 ! ?j) = m_table s ! unat d \<and>
        node_ok T (m_da s4) (m_tail s4) (m_table s) put M' (new_use T s s4) (new_bases s s4)
          (tr_get_base T (m_da s4 ! ?j)) (if d = 0 then p else p + 1) (child_recs p d recs)"
      using j c(5) d pos by (auto simp: next_p_def)
  qed
  moreover have "agree s M M'"
    using c(3) r(5) b(2) by (auto simp: agree_def)
  moreover have "new_use T s (s4\<lparr>m_stat := x\<rparr>) = new_use T s s4"
    "new_bases s (s4\<lparr>m_stat := x\<rparr>) = new_bases s s4"
    by (simp_all add: new_use_def new_bases_def)
  ultimately show ?thesis
    using g c(2) own bound max_base_pos
    by (simp add: arranged_def grows_def owned_def)
qed

text \<open>The children of a node are ranges that \<^verbatim>\<open>arrange\<close> accepts.\<close>

lemma child_ranges:
  assumes ok: "recs_ok p recs" and ch: "children_of tbl p recs chs mx" and c: "c \<in> set chs"
  shows "recs_ok (next_p p (ch_c c)) (ch_recs c)" "ch_recs c \<noteq> []" "ch_c c = 0 \<Longrightarrow> length (ch_recs c) = 1"
    "2 \<le> length (ch_recs c) \<Longrightarrow> \<forall>r\<in>set recs. length (rec_key r) + 2 \<le> p + Suc n \<Longrightarrow>
      \<forall>r\<in>set (ch_recs c). length (rec_key r) + 2 \<le> next_p p (ch_c c) + n"
proof -
  have cr: "ch_recs c = child_recs p (ch_c c) recs" and "ch_c c \<in> chars p recs" using ch c by (auto simp: children_of_def)
  then obtain r where "r \<in> set recs" "key_char p r = ch_c c" by (auto simp: chars_def)
  then show ne: "ch_recs c \<noteq> []" by (auto simp: cr child_recs_def filter_empty_conv)
  show "recs_ok (next_p p (ch_c c)) (ch_recs c)"
    using child_recs_ok [OF ok] child_recs_ok_0 [OF ok] by (simp add: cr next_p_def)
  show single: "length (ch_recs c) = 1" if "ch_c c = 0"
    using length_child_recs_0 [OF ok] ne that by (cases "ch_recs c") (auto simp: cr)
  show "\<forall>r\<in>set (ch_recs c). length (rec_key r) + 2 \<le> next_p p (ch_c c) + n"
    if "2 \<le> length (ch_recs c)" "\<forall>r\<in>set recs. length (rec_key r) + 2 \<le> p + Suc n"
    using that single by (cases "ch_c c = 0") (auto simp: cr next_p_def child_recs_def)
qed

lemma arrange_ok:
  assumes "recs_ok p recs" and "recs \<noteq> []" and "builder_ok T s" and "1 \<le> fuel"
    and "2 \<le> length recs \<longrightarrow> (\<forall>r\<in>set recs. length (rec_key r) + 2 \<le> p + fuel)"
  shows "outcome_ok (arrange fuel T put p recs s) (\<lambda>r. \<exists>M'. arranged T put M M' s p recs r)"
  using assms
proof (induction fuel arbitrary: p recs s M)
  case (Suc fuel)
  show ?case
  proof (cases "length recs = 1")
    case True
    then obtain r where r: "recs = [r]" by (cases recs) auto
    have "outcome_ok (arrange_leaf T put p r s) (arranged T put M M s p [r])"
      using Suc.prems(1,3) by (intro arrange_leaf_ok) (simp_all add: r recs_ok_def)
    then show ?thesis by (auto simp: r elim: outcome_ok_mono)
  next
    case False
    with Suc.prems(2) have len: "2 \<le> length recs" by (cases recs) (auto simp: Suc_le_eq)
    obtain chs mx where scan: "scan_children (m_table s) p recs (-1) [] 0 = Inr (chs, mx)"
      and ch: "children_of (m_table s) p recs chs mx"
      using scan_children_ok [OF Suc.prems(1)] by blast
    have ne: "chs \<noteq> []"
      using ch Suc.prems(2) by (auto simp: children_of_def chars_def)
    have ok: "vlist_ok (m_elink s) (in_use_set T s)" "table_ok (m_table s)"
      using Suc.prems(3) by (simp_all add: builder_ok_def)
    have offs: "\<forall>ch\<in>set chs. 0 < ch_offset ch \<and> ch_offset ch \<le> mx"
      using children_of_offsets(2) [OF ch ok(2)] by blast
    have "\<exists>s1 base. find_base T chs mx 0 s = Some (s1, base) \<and> base_found T chs mx s s1 base"
      using ch ok(1) in_use_less [of _ T s]
      by (intro find_base_ok [OF ok(1) ne offs, where D = "length (m_da s)"])
        (auto simp: children_of_def vlist_ok_def)
    then obtain s1 base where fb: "find_base T chs mx 0 s = Some (s1, base)"
      and found: "base_found T chs mx s s1 base" by blast
    let ?s3 = "reserve_children T base chs (register_base base s1)"
    have call: "outcome_ok (arrange fuel T put (next_p p (ch_c c)) (ch_recs c) s')
        (\<lambda>r. \<exists>M'. arranged T put N M' s' (next_p p (ch_c c)) (ch_recs c) r)"
      if c: "c \<in> set chs" and s': "builder_ok T s'" for c s' N
    proof -
      note cr = child_ranges [OF Suc.prems(1) ch c]
      have "1 \<le> fuel" using Suc.prems(1,2,5) len by (cases recs) (fastforce simp: recs_ok_def)+
      then show ?thesis using Suc.IH [OF cr(1,2) s', of N] cr(4) [of fuel] Suc.prems(5) len by blast
    qed
    have single: "\<forall>c\<in>set chs. ch_c c = 0 \<longrightarrow> length (ch_recs c) = 1"
      using child_ranges(3) [OF Suc.prems(1) ch] by blast
    note r3 = reserved_ok [OF Suc.prems(3) ch found]
    have kids: "outcome_ok (arrange_children T (arrange fuel T put) base p chs ?s3)
        (\<lambda>s'. \<exists>M'. children_arranged T put (M(base := chars p recs)) M' ?s3 base p chs s')"
      using children_of_offsets [OF ch ok(2)] call single r3
      by (intro arrange_children_ok [where tbl = "m_table s"]) auto
    show ?thesis
    proof (cases "max_base T \<le> int (base + mx)")
      case True
      then show ?thesis using False ne by (simp add: scan fb)
    next
      case bound: False
      have "outcome_ok (bindR (arrange_children T (arrange fuel T put) base p chs ?s3) (\<lambda>s2.
          Some (Inr (s2\<lparr>m_stat := (m_stat s2)\<lparr>da_num_nodes := da_num_nodes (m_stat s2) + 1\<rparr>\<rparr>, int base))))
          (\<lambda>r. \<exists>M'. arranged T put M M' s p recs r)"
        using node_arranged [OF Suc.prems(3) len ch found _ refl] bound
        by (intro outcome_ok_bind [OF kids]) (fastforce simp del: of_nat_add)
      with False ne bound show ?thesis by (simp add: scan fb)
    qed
  qed
qed simp

end

end
