(* ===== verification/Das_Build.thy ===== *)
theory Das_Build
  imports Das_Arrange
begin

text \<open>
  The whole of \<^verbatim>\<open>builder::build\<close>: it leaves a double array, a tail and a table that
  represent the records (\<open>represents\<close>), in the form the reader of the trie needs.
\<close>

section \<open>What a finished double array represents\<close>

text \<open>
  Every element with a BASE is the root or a child of one base, for one of the
  characters of that base: this is what makes a failed CHECK comparison mean that the
  child does not exist.
\<close>

definition elems_owned :: "'e da_traits \<Rightarrow> byte list \<Rightarrow> (nat \<Rightarrow> byte set) \<Rightarrow> nat set \<Rightarrow> 'e list \<Rightarrow> bool" where
  "elems_owned T tbl M B da \<longleftrightarrow> (\<forall>j<length da. tr_get_base T (da ! j) \<noteq> 0 \<longrightarrow> j = INITIAL_INDEX \<or>
     (\<exists>b\<in>B. \<exists>c\<in>M b. j = child_pos tbl b c \<and> tr_get_check T (da ! j) = tbl ! unat c))"

definition represents :: "'e da_traits \<Rightarrow> (otail \<Rightarrow> 'v \<Rightarrow> otail) \<Rightarrow> 'v das_record list \<Rightarrow>
  'e list \<Rightarrow> bytes \<Rightarrow> byte list \<Rightarrow> bool" where
  "represents T put recs da tail tbl \<longleftrightarrow> table_ok tbl \<and> INITIAL_INDEX < length da \<and>
     tail \<noteq> [] \<and> tail ! 0 = 0 \<and>
     (\<exists>M I B. elems_owned T tbl M B da \<and>
        node_ok T da tail tbl put M I B (tr_get_base T (da ! INITIAL_INDEX)) 0 recs)"

text \<open>The records \<^verbatim>\<open>build\<close> is meant for: sorted C strings.\<close>

definition keys_ok :: "'v das_record list \<Rightarrow> bool" where
  "keys_ok recs \<longleftrightarrow> (\<forall>r\<in>set recs. nul_free (rec_key r)) \<and> sorted_wrt bytes_less (map rec_key recs)"

lemma keys_ok_recs_ok: "keys_ok recs \<longleftrightarrow> recs_ok 0 recs"
  by (auto simp: keys_ok_def recs_ok_def)

lemma max_key_length_ge: "r \<in> set recs \<Longrightarrow> length (rec_key r) \<le> max_key_length recs"
  by (induction recs) (auto simp: max_key_length_def)

section \<open>The state before the arrangement\<close>

text \<open>The state in which \<^verbatim>\<open>build\<close> calls \<^verbatim>\<open>arrange\<close>.\<close>

definition start_state :: "'e da_traits \<Rightarrow> (unigram_freq list \<Rightarrow> unigram_freq list) \<Rightarrow>
  'v das_record list \<Rightarrow> 'e builder \<Rightarrow> 'e builder" where
  "start_state T srt recs s =
     (let s1 = builder_clear T s;
          s2 = s1\<lparr>m_i := 0, m_n := length recs, m_table := build_table srt (m_table s1) recs\<rparr>;
          s3 = b_vlist_expand (INITIAL_INDEX + 1) (da_expand T (INITIAL_INDEX + 1) s2)
      in b_vlist_use INITIAL_INDEX (b_set_base T INITIAL_INDEX 1 s3))"

lemma build_start: "build T put srt recs s =
  bindR (arrange (max_key_length recs + 2) T put 0 recs (start_state T srt recs s)) (\<lambda>(s5, v).
    Some (Inr (compute_stat T (b_set_base T INITIAL_INDEX v s5))))"
  by (simp add: build_def start_state_def Let_def)

lemma compute_stat_frames [simp]:
  "m_da (compute_stat T s) = m_da s" "m_tail (compute_stat T s) = m_tail s"
  "m_table (compute_stat T s) = m_table s" "m_n (compute_stat T s) = m_n s"
  by (simp_all add: compute_stat_def Let_def)

context da_traits_laws
begin

lemma start_state_ok:
  assumes "std_sort_ok comp_freq srt"
  shows "builder_ok T (start_state T srt recs s)"
    and "in_use_set T (start_state T srt recs s) = {INITIAL_INDEX}"
    and "m_tail (start_state T srt recs s) = [0]"
proof -
  define s1 where "s1 = builder_clear T s"
  define s2 where "s2 = s1\<lparr>m_i := 0, m_n := length recs, m_table := build_table srt (m_table s1) recs\<rparr>"
  define s3 where "s3 = b_vlist_expand (INITIAL_INDEX + 1) (da_expand T (INITIAL_INDEX + 1) s2)"
  define s4 where "s4 = b_set_base T INITIAL_INDEX 1 s3"
  have st: "start_state T srt recs s = b_vlist_use INITIAL_INDEX s4"
    by (simp add: start_state_def Let_def s1_def s2_def s3_def s4_def)
  have da1: "m_da s1 = [default_value T]"
    by (simp add: s1_def builder_clear_def da_expand_def resize_def Let_def)
  have len3: "length (m_da s3) = 2"
    by (simp add: s3_def s2_def da1 b_vlist_expand_def INITIAL_INDEX_def)
  have "m_da s3 ! j = default_value T" if "j < 2" for j
  proof -
    have "m_da s3 = [default_value T, default_value T]"
      by (simp add: s3_def b_vlist_expand_def INITIAL_INDEX_def s2_def da_expand_def da1 resize_def)
    then show ?thesis using that by (auto simp: less_2_cases_iff)
  qed
  then have use3: "in_use_set T s3 = {}"
    using len3 by (auto simp: in_use_set_def da_in_use_def b_get_base_def)
  have v3: "vlist_ok (m_elink s3) {}" "2 \<le> length (m_elink s3)"
    using vlist_expand_ok [OF vlist_init_ok [of "m_elink (da_expand T 1
      (s\<lparr>m_table := map word_of_nat [0..<NUMCHARS], m_da := []\<rparr>))"]]
    by (simp_all add: s3_def s2_def s1_def b_vlist_expand_def builder_clear_def Let_def INITIAL_INDEX_def)
  have use4: "in_use_set T s4 = {INITIAL_INDEX}"
    unfolding s4_def using len3 use3 max_base_pos by (simp add: in_use_set_base INITIAL_INDEX_def)
  then show "in_use_set T (start_state T srt recs s) = {INITIAL_INDEX}"
    by (simp add: st in_use_set_cong [of "b_vlist_use _ _" s4])
  moreover have "vlist_ok (vlist_use INITIAL_INDEX (m_elink s4)) {INITIAL_INDEX}"
    using vlist_use_ok(1) [OF v3(1), of INITIAL_INDEX] v3(2) by (simp add: s4_def INITIAL_INDEX_def)
  moreover have tail: "m_tail s4 = [0]"
    by (simp add: s4_def s3_def s2_def s1_def b_vlist_expand_def builder_clear_def Let_def otail_clear_def)
  moreover have "table_ok (m_table s4)"
    using build_table_ok [OF assms, of "m_table s1" recs]
    by (simp add: s4_def s3_def s2_def b_vlist_expand_def) (simp add: s1_def builder_clear_def Let_def)
  ultimately show "builder_ok T (start_state T srt recs s)"
    by (simp add: st builder_ok_def) (simp add: b_vlist_use_def)
  show "m_tail (start_state T srt recs s) = [0]" by (simp add: st tail)
qed

end

lemma m_n_start_state [simp]: "m_n (start_state T srt recs s) = length recs"
  by (simp add: start_state_def Let_def b_vlist_use_def b_set_base_def b_vlist_expand_def da_expand_def)

section \<open>The finished double array\<close>

context das_builder_laws
begin

lemma build_represents:
  assumes "std_sort_ok comp_freq srt" and "keys_ok recs" and "recs \<noteq> []"
  shows "outcome_ok (build T put srt recs s)
    (\<lambda>s'. represents T put recs (m_da s') (m_tail s') (m_table s'))"
proof -
  let ?s4 = "start_state T srt recs s"
  note st = start_state_ok [OF assms(1), of recs s]
  have "outcome_ok (arrange (max_key_length recs + 2) T put 0 recs ?s4)
      (\<lambda>r. \<exists>M'. arranged T put (\<lambda>_. {}) M' ?s4 0 recs r)"
    using assms(2,3) st(1) max_key_length_ge
    by (intro arrange_ok) (auto simp: keys_ok_recs_ok)
  then show ?thesis
    unfolding build_start
  proof (rule outcome_ok_bind)
    fix r assume "\<exists>M'. arranged T put (\<lambda>_. {}) M' ?s4 0 recs r"
    then obtain s5 v M where r: "r = (s5, v)"
      and ar: "arranged T put (\<lambda>_. {}) M ?s4 0 recs (s5, v)" by (cases r) auto
    let ?I = "new_use T ?s4 s5" and ?B = "new_bases ?s4 s5"
    let ?s6 = "b_set_base T INITIAL_INDEX v s5"
    have a: "grows T {} ?s4 s5" "builder_ok T s5" "owned T M ?s4 s5" "- max_base T \<le> v" "v \<le> max_base T"
      "node_ok T (m_da s5) (m_tail s5) (m_table ?s4) put M ?I ?B v 0 recs"
      using ar by (simp_all add: arranged_def)
    have tbl: "m_table ?s4 = m_table s5" using a(1) by (simp add: grows_def)
    have root: "INITIAL_INDEX \<in> in_use_set T s5" using in_use_growsD [OF a(1)] st(2) by simp
    have other: "m_da ?s6 ! j = m_da s5 ! j" if "j \<noteq> INITIAL_INDEX" for j
      using that by (simp add: b_set_nth_other)
    have I: "INITIAL_INDEX \<notin> ?I" using st(2) by (simp add: new_use_def)
    have "node_ok T (m_da ?s6) (m_tail s5 @ []) (m_table s5) put M ?I ?B v 0 recs"
    proof (rule node_ok_mono [OF a(6) [unfolded tbl]])
      fix j assume "j \<in> ?I" "j < length (m_da s5)"
      then show "j < length (m_da ?s6) \<and> m_da ?s6 ! j = m_da s5 ! j"
        using I other [of j] by (cases "j = INITIAL_INDEX") simp_all
    qed simp_all
    moreover have "tr_get_base T (m_da ?s6 ! INITIAL_INDEX) = v"
      using in_use_less [OF root] a(4,5) by (simp add: b_set_base_def get_base_set_base)
    moreover have "elems_owned T (m_table s5) M ?B (m_da ?s6)"
      unfolding elems_owned_def
    proof (intro allI impI)
      fix j assume j: "j < length (m_da ?s6)" "tr_get_base T (m_da ?s6 ! j) \<noteq> 0"
      show "j = INITIAL_INDEX \<or> (\<exists>b\<in>?B. \<exists>c\<in>M b. j = child_pos (m_table s5) b c \<and>
          tr_get_check T (m_da ?s6 ! j) = m_table s5 ! unat c)"
      proof (cases "j = INITIAL_INDEX")
        case False
        then have "j \<in> ?I"
          using j other [OF False] st(2)
          by (auto simp: new_use_def in_use_set_def da_in_use_def b_get_base_def)
        with a(3) other [OF False] show ?thesis by (auto simp: owned_def tbl)
      qed simp
    qed
    moreover have "m_tail s5 \<noteq> []" "m_tail s5 ! 0 = 0"
      using a(1) st(3) by (auto simp: grows_def)
    moreover have "INITIAL_INDEX < length (m_da ?s6)" using in_use_less [OF root] by simp
    moreover have "table_ok (m_table s5)" using a(2) by (simp add: builder_ok_def)
    ultimately have "represents T put recs (m_da ?s6) (m_tail s5) (m_table s5)"
      unfolding represents_def by auto
    then show "outcome_ok (case r of (s5, v) \<Rightarrow> Some (Inr (compute_stat T (b_set_base T INITIAL_INDEX v s5))))
      (\<lambda>s'. represents T put recs (m_da s') (m_tail s') (m_table s'))"
      by (simp add: r)
  qed
qed

end

end
