(* ===== verification/Das_Find.thy ===== *)
theory Das_Find
  imports Das_Trie Das_Build
begin

text \<open>
  Exact search on a trie that represents records: it reads only inside its arrays, and
  \<^verbatim>\<open>find\<close> is the lookup in the association list of the records.
\<close>

section \<open>A trie that holds records\<close>

definition trie_holds :: "'e da_traits \<Rightarrow> (otail \<Rightarrow> 'v \<Rightarrow> otail) \<Rightarrow> 'v das_record list \<Rightarrow> 'e trie \<Rightarrow> bool" where
  "trie_holds T put recs t \<longleftrightarrow>
     represents T put recs (arr_list (t_da t)) (arr_list (it_cont (t_tail t))) (t_table t)"

text \<open>The abstract value of a trie: a finite map from keys to values.\<close>

definition records_map :: "'v das_record list \<Rightarrow> bytes \<Rightarrow> 'v option" where
  "records_map recs = map_of (map (\<lambda>r. (rec_key r, rec_value r)) recs)"

lemma keys_ok_distinct: "keys_ok recs \<Longrightarrow> distinct (map rec_key recs)"
proof -
  have "sorted_wrt bytes_less ks \<Longrightarrow> distinct ks" for ks
    by (induction ks) auto
  then show "keys_ok recs \<Longrightarrow> distinct (map rec_key recs)" by (simp add: keys_ok_def)
qed

lemma records_map_in:
  assumes "keys_ok recs" and "r \<in> set recs"
  shows "records_map recs (rec_key r) = Some (rec_value r)"
  using keys_ok_distinct [OF assms(1)] assms(2)
  by (auto simp: records_map_def comp_def intro!: map_of_is_SomeI)

lemma records_map_notin: "\<forall>r\<in>set recs. rec_key r \<noteq> k \<Longrightarrow> records_map recs k = None"
  by (auto simp: records_map_def map_of_eq_None_iff)

lemma keys_ok_inj: "keys_ok recs \<Longrightarrow> r \<in> set recs \<Longrightarrow> r' \<in> set recs \<Longrightarrow> rec_key r = rec_key r' \<Longrightarrow> r = r'"
  using keys_ok_distinct [of recs] by (auto simp: distinct_map dest: inj_onD)

section \<open>Descending\<close>

lemma t_get_base_eq:
  "cur < length (arr_list (t_da t)) \<Longrightarrow> t_get_base T t cur = Some (tr_get_base T (arr_list (t_da t) ! cur))"
  by (simp add: t_get_base_def arr_get_list)

lemma descend_nonpos:
  "cur < length (arr_list (t_da t)) \<Longrightarrow> tr_get_base T (arr_list (t_da t) ! cur) \<le> 0 \<Longrightarrow>
   descend T t cur c = Some INVALID_INDEX"
  by (simp add: descend_def t_get_base_eq)

lemma descend_node:
  assumes "cur < length (arr_list (t_da t))" and "tr_get_base T (arr_list (t_da t) ! cur) = int b" and "0 < b"
  shows "descend T t cur c =
    (let j = child_pos (t_table t) b c
     in Some (if j < length (arr_list (t_da t)) \<and> tr_get_check T (arr_list (t_da t) ! j) = t_table t ! unat c
              then j else INVALID_INDEX))"
  using assms
  by (simp add: descend_def t_get_base_eq t_get_check_def arr_get_list arr_size_list child_pos_def Let_def)

lemma descend_child:
  assumes "cur < length (arr_list (t_da t))" and "tr_get_base T (arr_list (t_da t) ! cur) = int b" and "0 < b"
    and "child_pos (t_table t) b c < length (arr_list (t_da t))"
    and "tr_get_check T (arr_list (t_da t) ! child_pos (t_table t) b c) = t_table t ! unat c"
  shows "descend T t cur c = Some (child_pos (t_table t) b c)"
  using descend_node [OF assms(1-3), of c] assms(4,5) by simp

text \<open>Without a child the walk ends, or reaches a vacant element whose CHECK happens to match.\<close>

lemma descend_no_child:
  assumes "cur < length (arr_list (t_da t))" and "tr_get_base T (arr_list (t_da t) ! cur) = int b" and "0 < b"
    and own: "elems_owned T (t_table t) M B (arr_list (t_da t))" and tbl: "table_ok (t_table t)"
    and "c \<notin> M b"
  obtains "descend T t cur c = Some INVALID_INDEX"
  | j where "descend T t cur c = Some j" "j < length (arr_list (t_da t))" "0 < j"
    "tr_get_base T (arr_list (t_da t) ! j) = 0"
proof -
  let ?da = "arr_list (t_da t)" and ?j = "child_pos (t_table t) b c"
  note d = descend_node [OF assms(1-3), of c]
  show ?thesis
  proof (cases "?j < length ?da \<and> tr_get_check T (?da ! ?j) = t_table t ! unat c")
    case True
    have j: "INITIAL_INDEX < ?j" using assms(3) by (simp add: child_pos_def INITIAL_INDEX_def)
    have "tr_get_base T (?da ! ?j) = 0"
    proof (rule ccontr)
      assume "tr_get_base T (?da ! ?j) \<noteq> 0"
      with own True j obtain b' c' where o: "c' \<in> M b'" "?j = child_pos (t_table t) b' c'"
        "t_table t ! unat c = t_table t ! unat c'"
        by (fastforce simp: elems_owned_def)
      then have "c' = c" using tbl by (simp add: table_ok_inject)
      with o(2) have "b' = b" by (simp add: child_pos_def)
      with o(1) \<open>c' = c\<close> assms(6) show False by simp
    qed
    with True d j that(2) [of ?j] show ?thesis by simp
  next
    case False
    with d that(1) show ?thesis by (auto simp: Let_def)
  qed
qed

section \<open>The walk of locate\<close>

lemma drop_eq_iff: "take n s = take n t \<Longrightarrow> drop n s = drop n t \<longleftrightarrow> s = t"
  by (metis append_take_drop_id)

lemma cstr_at_key_at: "cstr_at = key_at"
  by (simp add: fun_eq_iff cstr_at_def key_at_def)

lemma key_char_eq: "rec_key r = k \<Longrightarrow> key_char p r = cstr_at k p"
  by (simp add: cstr_at_key_at)

lemma take_Suc_child:
  assumes "take p (rec_key r) = take p k" "key_char p r = cstr_at k p" "cstr_at k p \<noteq> 0"
  shows "take (p + 1) (rec_key r) = take (p + 1) k" "p < length k"
  using assms by (auto simp: cstr_at_def key_at_def take_Suc_conv_app_nth split: if_splits)

text \<open>A leaf reached for the key \<open>k\<close>: where its tail is and which record it holds.\<close>

definition leaf_for :: "(otail \<Rightarrow> 'v \<Rightarrow> otail) \<Rightarrow> bytes \<Rightarrow> bytes \<Rightarrow> nat \<Rightarrow> nat \<Rightarrow> 'v das_record \<Rightarrow> bool" where
  "leaf_for put tail k off p r \<longleftrightarrow> 0 < off \<and> p \<le> length k \<and> p \<le> length (rec_key r) \<and>
     take p (rec_key r) = take p k \<and>
     tail_holds tail off (drop p (rec_key r) @ [0] @ put [] (rec_value r))"

lemma locate_loop_vacant:
  assumes "j < length (arr_list (t_da t))" and "tr_get_base T (arr_list (t_da t) ! j) = 0"
  shows "locate_loop T t key q j = Some None"
  using assms by (subst locate_loop.simps) (simp add: t_get_base_eq descend_nonpos)

text \<open>The step to the child for the next character of the key.\<close>

lemma walk_child:
  assumes k: "nul_free k" and p: "p \<le> length k" and recs: "recs_ok p recs" "\<forall>r\<in>set recs. take p (rec_key r) = take p k"
    and c: "cstr_at k p \<in> chars p recs"
  defines "c \<equiv> cstr_at k p" and "p' \<equiv> if cstr_at k p = 0 then p else p + 1"
  shows "recs_ok p' (child_recs p c recs)" "p' \<le> length k"
    "p + 1 = p' \<or> p + 1 = p' + 1 \<and> p' = length k \<and> length (child_recs p c recs) = 1"
    "\<forall>r\<in>set (child_recs p c recs). take p' (rec_key r) = take p' k"
    "\<forall>r\<in>set recs. rec_key r = k \<longrightarrow> r \<in> set (child_recs p c recs)"
proof -
  show "recs_ok p' (child_recs p c recs)"
    using child_recs_ok [OF recs(1)] child_recs_ok_0 [OF recs(1)] by (simp add: c_def p'_def)
  show "p' \<le> length k" using p by (auto simp: p'_def cstr_at_def split: if_splits)
  show "p + 1 = p' \<or> p + 1 = p' + 1 \<and> p' = length k \<and> length (child_recs p c recs) = 1"
  proof (cases "cstr_at k p = 0")
    case True
    then have "p = length k" using k p by (auto simp: cstr_at_def split: if_splits dest: nul_free_nth)
    moreover have "child_recs p c recs \<noteq> []" using assms(5) by (auto simp: c_def chars_def child_recs_def filter_empty_conv)
    then have "length (child_recs p c recs) = 1"
      using length_child_recs_0 [OF recs(1)] True by (cases "child_recs p c recs") (auto simp: c_def)
    ultimately show ?thesis using True by (simp add: p'_def)
  qed (simp add: p'_def)
  show "\<forall>r\<in>set (child_recs p c recs). take p' (rec_key r) = take p' k"
  proof
    fix r assume "r \<in> set (child_recs p c recs)"
    then have "take p (rec_key r) = take p k" "key_char p r = cstr_at k p" using recs(2) by (auto simp: c_def child_recs_def)
    then show "take p' (rec_key r) = take p' k" using take_Suc_child(1) [of p r k] by (simp add: p'_def)
  qed
  show "\<forall>r\<in>set recs. rec_key r = k \<longrightarrow> r \<in> set (child_recs p c recs)"
    using key_char_eq [of _ k p] by (auto simp: c_def child_recs_def)
qed

lemma locate_loop_ok:
  fixes t :: "'e trie"
  defines "da \<equiv> arr_list (t_da t)" and "tail \<equiv> arr_list (it_cont (t_tail t))" and "tbl \<equiv> t_table t"
  assumes own: "elems_owned T tbl M B da" and tbl: "table_ok tbl" and k: "nul_free k"
  shows "node_ok T da tail tbl put M I B v p recs \<Longrightarrow> recs_ok p recs \<Longrightarrow> cur < length da \<Longrightarrow>
    tr_get_base T (da ! cur) = v \<Longrightarrow> q = p \<or> q = p + 1 \<and> p = length k \<and> length recs = 1 \<Longrightarrow>
    p \<le> length k \<Longrightarrow> \<forall>r\<in>set recs. take p (rec_key r) = take p k \<Longrightarrow>
    (locate_loop T t k q cur = Some None \<and> (\<forall>r\<in>set recs. rec_key r \<noteq> k)) \<or>
    (\<exists>off q' r. locate_loop T t k q cur = Some (Some (off, q')) \<and> r \<in> set recs \<and>
       (\<forall>r'\<in>set recs. rec_key r' = k \<longrightarrow> r' = r) \<and>
       leaf_for put tail k off (if length k < q' then length k else q') r)"
proof (induction arbitrary: cur q rule: node_ok.induct)
  case (leaf off p r)
  then have "locate_loop T t k q cur = Some (Some (off, q))"
    by (subst locate_loop.simps) (simp add: t_get_base_eq da_def)
  moreover have "(if length k < q then length k else q) = p"
    using leaf.prems(4,5) by auto
  ultimately show ?case using leaf by (auto simp: leaf_for_def)
next
  case (node recs b p)
  let ?c = "cstr_at k p"
  let ?j = "child_pos tbl b ?c"
  have q: "q = p" using node.prems(4) node.hyps(1) by auto
  have step: "locate_loop T t k q cur = (case descend T t cur ?c of None \<Rightarrow> None
      | Some cur' \<Rightarrow> if cur' = INVALID_INDEX then Some None else locate_loop T t k (p + 1) cur')"
    using node.prems(2,3,5) node.hyps(2) unfolding q
    by (subst locate_loop.simps) (simp add: t_get_base_eq da_def)
  show ?case
  proof (cases "?c \<in> chars p recs")
    case True
    let ?recs = "child_recs p ?c recs"
    have ch: "?j < length da" "tr_get_check T (da ! ?j) = tbl ! unat ?c"
      using node.IH True by auto
    have "descend T t cur ?c = Some ?j"
      using descend_child [of cur t T b ?c] node.prems(2,3) node.hyps(2) ch
      by (simp add: da_def tbl_def)
    then have down: "locate_loop T t k q cur = locate_loop T t k (p + 1) ?j"
      by (simp add: step child_pos_def INVALID_INDEX_def)
    have sub: "set ?recs \<subseteq> set recs" by (auto simp: child_recs_def)
    note walk = walk_child [OF k node.prems(5,1,6) True]
    from node.IH True walk(1-4) ch(1)
    have "locate_loop T t k (p + 1) ?j = Some None \<and> (\<forall>r\<in>set ?recs. rec_key r \<noteq> k) \<or>
      (\<exists>off q' r. locate_loop T t k (p + 1) ?j = Some (Some (off, q')) \<and> r \<in> set ?recs \<and>
         (\<forall>r'\<in>set ?recs. rec_key r' = k \<longrightarrow> r' = r) \<and>
         leaf_for put tail k off (if length k < q' then length k else q') r)"
      by blast
    then show ?thesis unfolding down using sub walk(5) by blast
  next
    case False
    have none: "\<forall>r\<in>set recs. rec_key r \<noteq> k"
      using False by (auto simp: chars_def cstr_at_key_at)
    have "?c \<notin> M b" using False node.hyps(4) by simp
    then consider "descend T t cur ?c = Some INVALID_INDEX"
      | j where "descend T t cur ?c = Some j" "j < length da" "0 < j" "tr_get_base T (da ! j) = 0"
      using descend_no_child [of cur t T b M B ?c] node.prems(2,3) node.hyps(2) own tbl
      by (auto simp: da_def tbl_def)
    then show ?thesis
    proof cases
      case 1
      then show ?thesis using none by (simp add: step)
    next
      case 2
      then show ?thesis
        using none locate_loop_vacant [of j t T] by (simp add: step INVALID_INDEX_def da_def)
    qed
  qed
qed

section \<open>find is the lookup of the records\<close>

text \<open>Only the read position of the tail changes.\<close>

definition same_trie :: "'e trie \<Rightarrow> 'e trie \<Rightarrow> bool" where
  "same_trie t t' \<longleftrightarrow> t_block t' = t_block t \<and> t_table t' = t_table t \<and> t_da t' = t_da t \<and>
     it_cont (t_tail t') = it_cont (t_tail t) \<and> t_n t' = t_n t"

lemma same_trie_refl [simp]: "same_trie t t"
  by (simp add: same_trie_def)

lemma same_trie_tail [simp]: "same_trie t (t\<lparr>t_tail := tl'\<rparr>) \<longleftrightarrow> it_cont tl' = it_cont (t_tail t)"
  by (simp add: same_trie_def)

lemma trie_holds_same: "same_trie t t' \<Longrightarrow> trie_holds T put recs t' = trie_holds T put recs t"
  by (simp add: trie_holds_def same_trie_def)

lemma locate_ok:
  assumes holds: "trie_holds T put recs t" and ok: "keys_ok recs" and k: "nul_free k"
  shows "\<exists>off t'. locate T t k = Some (off, t') \<and> same_trie t t' \<and>
    (if \<exists>r\<in>set recs. rec_key r = k
     then 0 < off \<and> (\<forall>r\<in>set recs. rec_key r = k \<longrightarrow>
       tail_holds (arr_list (it_cont (t_tail t))) off (put [] (rec_value r)))
     else off = 0)"
proof -
  let ?da = "arr_list (t_da t)" and ?tail = "arr_list (it_cont (t_tail t))" and ?tbl = "t_table t"
  obtain M I B where rep: "elems_owned T ?tbl M B ?da" "table_ok ?tbl" "INITIAL_INDEX < length ?da"
    "node_ok T ?da ?tail ?tbl put M I B (tr_get_base T (?da ! INITIAL_INDEX)) 0 recs"
    using holds by (auto simp: trie_holds_def represents_def)
  from locate_loop_ok [OF rep(1,2) k rep(4) _ rep(3), of 0] ok
  consider "locate_loop T t k 0 INITIAL_INDEX = Some None" "\<forall>r\<in>set recs. rec_key r \<noteq> k"
    | off q r where "locate_loop T t k 0 INITIAL_INDEX = Some (Some (off, q))" "r \<in> set recs"
      "\<forall>r'\<in>set recs. rec_key r' = k \<longrightarrow> r' = r"
      "leaf_for put ?tail k off (if length k < q then length k else q) r"
    by (auto simp: keys_ok_recs_ok)
  then show ?thesis
  proof cases
    case 1
    then show ?thesis by (auto simp: locate_def)
  next
    case 2
    define p where "p = (if length k < q then length k else q)"
    let ?s = "drop p (rec_key r)"
    have leaf: "0 < off" "p \<le> length k" "take p (rec_key r) = take p k"
      and th: "tail_holds ?tail off ((?s @ [0]) @ put [] (rec_value r))"
      using 2(4) unfolding p_def [symmetric] by (auto simp: leaf_for_def)
    note sp = tail_holds_split [OF th]
    have nf: "nul_free ?s" using ok 2(2) by (auto simp: keys_ok_def)
    have seek: "itail_seekg (t_tail t) off = (t_tail t)\<lparr>it_off := off\<rparr>"
      using itail_seekg_holds [OF sp [THEN conjunct1]] by simp
    let ?t = "t\<lparr>t_tail := (t_tail t)\<lparr>it_off := off\<rparr>\<rparr>"
    have m: "itail_match_string (t_tail ?t) (drop p k) \<longleftrightarrow> drop p k = ?s"
      using itail_match_string_holds [of "t_tail ?t" ?s "drop p k"] sp nf k by (auto simp: nul_free_drop)
    also have "\<dots> \<longleftrightarrow> rec_key r = k"
      using drop_eq_iff [OF leaf(3)] by auto
    finally have m': "itail_match_string (t_tail ?t) (drop p k) \<longleftrightarrow> rec_key r = k" .
    have sl: "itail_strlen (t_tail ?t) = Some (length ?s)"
      using itail_strlen_holds [of "t_tail ?t" ?s] sp nf by simp
    show ?thesis
    proof (cases "rec_key r = k")
      case True
      then have "locate T t k = Some (off + length ?s + 1, ?t)"
        using m' sl unfolding locate_def 2(1) by (simp add: seek p_def)
      moreover have "tail_holds ?tail (off + length ?s + 1) (put [] (rec_value r))"
        using sp by (simp add: add.assoc)
      moreover have "\<forall>r'\<in>set recs. rec_key r' = k \<longrightarrow> r' = r" "\<exists>r\<in>set recs. rec_key r = k"
        using 2(2,3) True by blast+
      ultimately show ?thesis
        by (intro exI [of _ "off + length ?s + 1"] exI [of _ ?t]) (simp, metis)
    next
      case False
      then have "locate T t k = Some (0, ?t)"
        using m' unfolding locate_def 2(1) by (simp add: seek p_def)
      moreover have "\<not> (\<exists>r'\<in>set recs. rec_key r' = k)" using 2(3) False by auto
      ultimately show ?thesis by (intro exI [of _ 0] exI [of _ ?t]) simp
    qed
  qed
qed

context das_builder_laws
begin

text \<open>A value stored without any byte would be sought at the very end of the tail.\<close>

lemma find_ok:
  assumes holds: "trie_holds T put recs t" and ok: "keys_ok recs" and k: "nul_free k"
    and vals: "\<forall>r\<in>set recs. ok (rec_value r) \<and> put [] (rec_value r) \<noteq> []"
  shows "\<exists>t'. find T get t k = Some (records_map recs k, t') \<and> same_trie t t'"
proof -
  obtain off t1 where loc: "locate T t k = Some (off, t1)" "same_trie t t1"
    and off: "if \<exists>r\<in>set recs. rec_key r = k
     then 0 < off \<and> (\<forall>r\<in>set recs. rec_key r = k \<longrightarrow>
       tail_holds (arr_list (it_cont (t_tail t))) off (put [] (rec_value r)))
     else off = 0"
    using locate_ok [OF holds ok k] by blast
  show ?thesis
  proof (cases "\<exists>r\<in>set recs. rec_key r = k")
    case True
    then obtain r where r: "r \<in> set recs" "rec_key r = k" by blast
    have "it_cont (t_tail t1) = it_cont (t_tail t)" using loc(2) by (simp add: same_trie_def)
    with off True r have h: "0 < off" "tail_holds (arr_list (it_cont (t_tail t1))) off (put [] (rec_value r))"
      by simp_all
    have seek: "itail_seekg (t_tail t1) off = (t_tail t1)\<lparr>it_off := off\<rparr>"
      using itail_seekg_holds [OF h(2)] vals r by simp
    have "get (itail_seekg (t_tail t1) off) = Some (rec_value r,
        (t_tail t1)\<lparr>it_off := off + length (put [] (rec_value r))\<rparr>)"
      unfolding seek using get_put [of "rec_value r" "(t_tail t1)\<lparr>it_off := off\<rparr>"] vals r h(2) by simp
    then show ?thesis
      using loc h(1) records_map_in [OF ok r(1)] r(2) by (auto simp: find_def same_trie_def)
  next
    case False
    with off loc show ?thesis by (auto simp: find_def records_map_notin)
  qed
qed

end

end
