(* ===== verification/Das_Children.thy ===== *)
theory Das_Children
  imports Das_Find
begin

text \<open>
  The prefix search of the trie on a trie that represents records: what \<^verbatim>\<open>locate_ex\<close>
  finds, which records \<^verbatim>\<open>getChildren\<close> lists below a node, in which order and with
  which key strings, and what it does when the query ends inside the tail of a leaf.
\<close>

section \<open>Records below a prefix\<close>

definition has_prefix :: "bytes \<Rightarrow> bytes \<Rightarrow> bool" where
  "has_prefix k s \<longleftrightarrow> take (length k) s = k"

lemma has_prefix_length: "has_prefix k s \<Longrightarrow> length k \<le> length s"
  by (metis has_prefix_def length_take min.cobounded1 min.commute)

lemma has_prefix_refl [simp]: "has_prefix s s"
  by (simp add: has_prefix_def)

definition below :: "bytes \<Rightarrow> 'v das_record list \<Rightarrow> 'v das_record list" where
  "below k recs = filter (\<lambda>r. has_prefix k (rec_key r)) recs"

lemma has_prefix_take_Suc:
  assumes "n < length k" and "nul_free k"
  shows "has_prefix (take (Suc n) k) s \<longleftrightarrow> has_prefix (take n k) s \<and> key_at s n = k ! n"
  using assms nul_free_nth [OF assms(2,1)]
  by (auto simp: has_prefix_def key_at_def take_Suc_conv_app_nth min_def split: if_splits)

lemma child_recs_below:
  assumes "n < length k" and "nul_free k"
  shows "child_recs n (cstr_at k n) (below (take n k) recs) = below (take (Suc n) k) recs"
  using has_prefix_take_Suc [OF assms] assms(1)
  by (auto simp: child_recs_def below_def cstr_at_def intro!: filter_cong)

lemma below_shrinks:
  assumes "below (take n k) recs = below (take n k) recs'" "n \<le> m"
  shows "below (take m k) recs = below (take m k) recs'"
proof -
  have sub: "has_prefix (take n k) s" if "has_prefix (take m k) s" for s
  proof -
    have "take (min n (length k)) s = take (min n (length k)) (take (min m (length k)) s)"
      using assms(2) by (simp add: min_def)
    also have "\<dots> = take (min n (length k)) (take m k)"
      using that by (simp add: has_prefix_def min.commute)
    also have "\<dots> = take n k" using assms(2) by (simp add: min_def)
    finally show ?thesis by (simp add: has_prefix_def min.commute)
  qed
  have "below (take m k) xs = below (take m k) (below (take n k) xs)" for xs :: "'v das_record list"
    using sub by (auto simp: below_def intro!: filter_cong)
  then show ?thesis using assms(1) by metis
qed

section \<open>What locate\_ex finds\<close>

text \<open>
  The four ways the walk can end for the key \<open>k\<close>: no record starts with it; the
  element of the records that start with it; the leaf of the key itself; and a leaf whose
  tail differs from the rest of the key, for which the code answers with the root.
\<close>

definition vacant_at :: "'e da_traits \<Rightarrow> 'e list \<Rightarrow> nat \<Rightarrow> bool" where
  "vacant_at T da j \<longleftrightarrow> j < length da \<and> tr_get_base T (da ! j) = 0"

definition never_single :: "nat \<Rightarrow> bytes \<Rightarrow> 'v das_record list \<Rightarrow> bool" where
  "never_single p k recs \<longleftrightarrow> (\<forall>q. p \<le> q \<and> q < length k \<longrightarrow> length (below (take q k) recs) \<noteq> 1)"

lemma never_single_end [simp]: "never_single (length k) k recs"
  by (simp add: never_single_def)

lemma never_single_step:
  "length (below (take p k) recs) \<noteq> 1 \<Longrightarrow> never_single (Suc p) k recs \<Longrightarrow> never_single p k recs"
  unfolding never_single_def by (metis Suc_leI nat_less_le)

definition located :: "'e da_traits \<Rightarrow> (otail \<Rightarrow> 'v \<Rightarrow> otail) \<Rightarrow> 'e trie \<Rightarrow> (nat \<Rightarrow> byte set) \<Rightarrow> nat set \<Rightarrow>
  nat set \<Rightarrow> bytes \<Rightarrow> 'v das_record list \<Rightarrow> nat \<Rightarrow> (nat \<times> nat \<times> nat) option option \<Rightarrow> bool" where
  "located T put t M I B k recs p res \<longleftrightarrow>
    (below k recs = [] \<and> never_single p k recs \<and> (res = Some None \<or>
       (\<exists>j. 0 < j \<and> vacant_at T (arr_list (t_da t)) j \<and> res = Some (Some (0, length k, j))))) \<or>
    (\<exists>j. 0 < j \<and> j < length (arr_list (t_da t)) \<and> res = Some (Some (0, length k, j)) \<and>
       never_single p k recs \<and>
       node_ok T (arr_list (t_da t)) (arr_list (it_cont (t_tail t))) (t_table t) put M I B
         (tr_get_base T (arr_list (t_da t) ! j)) (length k) (below k recs)) \<or>
    (\<exists>off q j r. 0 < j \<and> j < length (arr_list (t_da t)) \<and> q < length k \<and> res = Some (Some (off, q, j)) \<and>
       tr_get_base T (arr_list (t_da t) ! j) = - int off \<and> below (take q k) recs = [r] \<and>
       leaf_for put (arr_list (it_cont (t_tail t))) k off q r)"

lemma located_step:
  assumes "length (below (take p k) recs) \<noteq> 1" and l: "located T put t M I B k recs (Suc p) res"
  shows "located T put t M I B k recs p res"
proof -
  have ns: "never_single (Suc p) k recs \<Longrightarrow> never_single p k recs"
    by (rule never_single_step [OF assms(1)])
  from l show ?thesis
    unfolding located_def by (elim disj_forward conj_forward ex_forward ns) assumption+
qed

lemma locate_ex_loop_vacant:
  assumes "vacant_at T (arr_list (t_da t)) j"
  shows "locate_ex_loop T t k q j = Some (if length k \<le> q then Some (0, q, j) else None)"
  using assms
  by (subst locate_ex_loop.simps) (auto simp: vacant_at_def t_get_base_eq descend_nonpos)

text \<open>The end of the key, and a character that no record has.\<close>

lemma located_end:
  assumes "node_ok T (arr_list (t_da t)) (arr_list (it_cont (t_tail t))) (t_table t) put M I B
      (tr_get_base T (arr_list (t_da t) ! cur)) (length k) (below k recs)" "0 < cur" "cur < length (arr_list (t_da t))"
  shows "located T put t M I B k recs (length k) (locate_ex_loop T t k (length k) cur)"
proof -
  have "locate_ex_loop T t k (length k) cur = Some (Some (0, length k, cur))" by (subst locate_ex_loop.simps) simp
  then show ?thesis using assms unfolding located_def by auto
qed

lemma located_no_child:
  assumes p: "p < length k" and many: "length (below (take p k) recs) \<noteq> 1" and none: "below (take (p + 1) k) recs = []"
    and step: "locate_ex_loop T t k p cur = (case descend T t cur c of None \<Rightarrow> None
      | Some cur' \<Rightarrow> if cur' = INVALID_INDEX then Some None else locate_ex_loop T t k (p + 1) cur')"
    and d: "descend T t cur c = Some INVALID_INDEX \<or> (\<exists>j. descend T t cur c = Some j \<and> 0 < j \<and> vacant_at T (arr_list (t_da t)) j)"
  shows "located T put t M I B k recs p (locate_ex_loop T t k p cur)"
proof -
  have empty: "below k recs = []" using below_shrinks [of "p + 1" k recs "[]" "length k"] p none by (simp add: below_def)
  have "never_single (Suc p) k recs" using below_shrinks [of "p + 1" k recs "[]"] none by (auto simp: never_single_def below_def)
  then have single: "never_single p k recs" by (rule never_single_step [OF many])
  from d show ?thesis
  proof (elim disjE exE conjE)
    fix j assume j: "descend T t cur c = Some j" "0 < j" "vacant_at T (arr_list (t_da t)) j"
    then have "locate_ex_loop T t k p cur = Some (if length k \<le> p + 1 then Some (0, p + 1, j) else None)"
      using locate_ex_loop_vacant [of T t j k "p + 1"] by (simp add: step INVALID_INDEX_def)
    then show ?thesis using empty single j p by (auto simp: le_Suc_eq located_def)
  qed (use empty single in \<open>simp add: step located_def\<close>)
qed

lemma locate_ex_loop_ok:
  fixes t :: "'e trie"
  defines "da \<equiv> arr_list (t_da t)" and "tail \<equiv> arr_list (it_cont (t_tail t))" and "tbl \<equiv> t_table t"
  assumes own: "elems_owned T tbl M B da" and tbl: "table_ok tbl" and k: "nul_free k"
  shows "node_ok T da tail tbl put M I B v p (below (take p k) recs) \<Longrightarrow>
    recs_ok p (below (take p k) recs) \<Longrightarrow> 0 < cur \<Longrightarrow> cur < length da \<Longrightarrow>
    tr_get_base T (da ! cur) = v \<Longrightarrow> p \<le> length k \<Longrightarrow>
    located T put t M I B k recs p (locate_ex_loop T t k p cur)"
proof (induction v p "below (take p k) recs" arbitrary: cur rule: node_ok.induct)
  case (leaf off p r)
  have tk: "take p (rec_key r) = take p k"
  proof -
    have "r \<in> set (below (take p k) recs)" by (simp flip: leaf.hyps(4))
    then show ?thesis using leaf.prems(5) by (auto simp: below_def has_prefix_def min_def split: if_splits)
  qed
  show ?case
  proof (cases "p = length k")
    case True
    then have "node_ok T da tail tbl put M I B (tr_get_base T (da ! cur)) (length k) (below k recs)"
      using leaf node_ok.leaf [where put = put, OF leaf.hyps(1-3), of T da tbl M I B] by simp
    then show ?thesis using located_end [where put = put] leaf.prems True unfolding da_def tail_def tbl_def by blast
  next
    case False
    then have "locate_ex_loop T t k p cur = Some (Some (off, p, cur))"
      using leaf by (subst locate_ex_loop.simps) (simp add: t_get_base_eq da_def)
    moreover have "leaf_for put tail k off p r"
      using leaf tk by (simp add: leaf_for_def)
    moreover have "p < length k" using False leaf.prems(5) by simp
    ultimately show ?thesis
      using leaf.prems leaf.hyps(4) unfolding located_def da_def tail_def by metis
  qed
next
  case (node b p)
  let ?recs = "below (take p k) recs"
  show ?case
  proof (cases "p = length k")
    case True
    have "node_ok T da tail tbl put M I B (int b) p ?recs" using node.hyps by (intro node_ok.node) auto
    then have "node_ok T da tail tbl put M I B (tr_get_base T (da ! cur)) (length k) (below k recs)" using node.prems(4) True by simp
    then show ?thesis using located_end [where put = put] node.prems True unfolding da_def tail_def tbl_def by blast
  next
    case False
    with node.prems have p: "p < length k" by simp
    let ?c = "cstr_at k p"
    let ?j = "child_pos tbl b ?c"
    have c: "?c \<noteq> 0" using p k by (auto simp: cstr_at_def dest: nul_free_nth)
    have sub: "child_recs p ?c ?recs = below (take (p + 1) k) recs"
      using child_recs_below [OF p k] by simp
    have step: "locate_ex_loop T t k p cur = (case descend T t cur ?c of None \<Rightarrow> None
        | Some cur' \<Rightarrow> if cur' = INVALID_INDEX then Some None else locate_ex_loop T t k (p + 1) cur')"
      using node.prems(3,4) node.hyps(2) p
      by (subst locate_ex_loop.simps) (simp add: t_get_base_eq da_def)
    show ?thesis
    proof (cases "?c \<in> chars p ?recs")
      case True
      have ch: "?j < length da" "tr_get_check T (da ! ?j) = tbl ! unat ?c"
        using node.hyps(5) True by auto
      have "descend T t cur ?c = Some ?j"
        using descend_child [of cur t T b ?c] node.prems(3,4) node.hyps(2) ch
        by (simp add: da_def tbl_def)
      then have down: "locate_ex_loop T t k p cur = locate_ex_loop T t k (p + 1) ?j"
        by (simp add: step child_pos_def INVALID_INDEX_def)
      have ok: "recs_ok (p + 1) (below (take (p + 1) k) recs)"
        using child_recs_ok [OF node.prems(1) c] unfolding sub .
      have j0: "0 < ?j" by (simp add: child_pos_def)
      show ?thesis
        unfolding down
        by (rule located_step)
          (use node.hyps(1) node.hyps(5) [rule_format, OF True, THEN conjunct2, THEN conjunct2,
            THEN conjunct2, THEN conjunct2, rule_format, of ?j] c sub ok j0 ch(1) p in simp_all)
    next
      case no: False
      have none: "below (take (p + 1) k) recs = []"
        unfolding sub [symmetric] child_recs_def filter_empty_conv using no by (metis chars_def imageI)
      have many: "length ?recs \<noteq> 1" using node.hyps(1) by simp
      have "?c \<notin> M b" using no node.hyps(4) by simp
      then have "descend T t cur ?c = Some INVALID_INDEX \<or>
          (\<exists>j. descend T t cur ?c = Some j \<and> 0 < j \<and> vacant_at T (arr_list (t_da t)) j)"
        using descend_no_child [of cur t T b M B ?c] node.prems(3,4) node.hyps(2) own tbl
        by (auto simp: da_def tbl_def vacant_at_def)
      then show ?thesis by (rule located_no_child [OF p many none step])
    qed
  qed
qed

text \<open>The elements of a trie that holds records.\<close>

lemma trie_holdsE:
  assumes "trie_holds T put recs t"
  obtains M I B where "elems_owned T (t_table t) M B (arr_list (t_da t))" "table_ok (t_table t)"
    "INITIAL_INDEX < length (arr_list (t_da t))"
    "arr_list (it_cont (t_tail t)) \<noteq> []" "arr_list (it_cont (t_tail t)) ! 0 = 0"
    "node_ok T (arr_list (t_da t)) (arr_list (it_cont (t_tail t))) (t_table t) put M I B
      (tr_get_base T (arr_list (t_da t) ! INITIAL_INDEX)) 0 recs"
  using assms by (auto simp: trie_holds_def represents_def)

lemma seek_0_match:
  assumes "arr_list (it_cont tl') \<noteq> []" "arr_list (it_cont tl') ! 0 = 0"
  shows "itail_match_string (itail_seekg tl' 0) []"
  using assms
  by (cases "arr_list (it_cont tl')")
    (simp_all add: itail_match_string_def itail_seekg_def arr_size_list)

lemma leaf_match:
  assumes leaf: "leaf_for put (arr_list (it_cont tl')) k off q r" and nf: "nul_free (rec_key r)" "nul_free k"
  shows "itail_match_string (itail_seekg tl' off) (drop q k) \<longleftrightarrow> rec_key r = k"
proof -
  have th: "tail_holds (arr_list (it_cont tl')) off ((drop q (rec_key r) @ [0]) @ put [] (rec_value r))"
    using leaf by (simp add: leaf_for_def)
  note sp = tail_holds_split [OF th]
  have seek: "itail_seekg tl' off = tl'\<lparr>it_off := off\<rparr>"
    using itail_seekg_holds [OF sp [THEN conjunct1]] by simp
  have "itail_match_string (itail_seekg tl' off) (drop q k) \<longleftrightarrow> drop q k = drop q (rec_key r)"
    unfolding seek using sp nf by (intro itail_match_string_holds) auto
  then show ?thesis
    using drop_eq_iff [of q "rec_key r" k] leaf by (auto simp: leaf_for_def)
qed

lemma below_0 [simp]: "below [] recs = recs"
  by (simp add: below_def has_prefix_def)

lemma below_single_sub:
  assumes "below (take q k) recs = [r]" "x \<in> set (below k recs)"
  shows "x = r"
proof -
  have "take (min (length k) q) (rec_key x) = take q k"
    using assms(2) by (auto simp: below_def has_prefix_def) (metis take_take min.commute)
  then have "x \<in> set (below (take q k) recs)"
    using assms(2) by (simp add: below_def has_prefix_def)
  with assms(1) show ?thesis by simp
qed

lemma below_singles:
  assumes "below (take q k) recs = [r]" "below (take q' k) recs = [r']"
  shows "r = r'"
proof (cases "q \<le> q'")
  case True
  then have "take q (take q' k) = take q k" by (simp add: min_def)
  then show ?thesis using below_single_sub [of q "take q' k" recs r r'] assms by simp
next
  case False
  then have "take q' (take q k) = take q' k" by (simp add: min_def)
  then show ?thesis using below_single_sub [of q' "take q k" recs r' r] assms by simp
qed

text \<open>\<open>locate_ex\<close> by the records.\<close>

lemma locate_ex_cases:
  fixes t :: "'e trie"
  assumes holds: "trie_holds T put recs t" and ok: "keys_ok recs" and k: "nul_free k"
  obtains (none) j where "locate_ex T t k = Some j" "below k recs = []" "never_single 0 k recs"
      "j = INVALID_INDEX \<or> 0 < j \<and> vacant_at T (arr_list (t_da t)) j"
  | (node) j M I B where "locate_ex T t k = Some j" "0 < j" "j < length (arr_list (t_da t))"
      "never_single 0 k recs"
      "elems_owned T (t_table t) M B (arr_list (t_da t))" "table_ok (t_table t)"
      "node_ok T (arr_list (t_da t)) (arr_list (it_cont (t_tail t))) (t_table t) put M I B
         (tr_get_base T (arr_list (t_da t) ! j)) (length k) (below k recs)"
  | (hit) j off q r where "locate_ex T t k = Some j" "0 < j" "j < length (arr_list (t_da t))"
      "tr_get_base T (arr_list (t_da t) ! j) = - int off" "q < length k" "below (take q k) recs = [r]"
      "leaf_for put (arr_list (it_cont (t_tail t))) k off q r" "rec_key r = k"
  | (miss) q r where "locate_ex T t k = Some INITIAL_INDEX" "q < length k"
      "below (take q k) recs = [r]" "rec_key r \<noteq> k"
proof -
  let ?da = "arr_list (t_da t)" and ?tail = "arr_list (it_cont (t_tail t))"
  obtain M I B where rep: "elems_owned T (t_table t) M B ?da" "table_ok (t_table t)"
    "INITIAL_INDEX < length ?da" "?tail \<noteq> []" "?tail ! 0 = 0"
    "node_ok T ?da ?tail (t_table t) put M I B (tr_get_base T (?da ! INITIAL_INDEX)) 0 recs"
    using holds by (rule trie_holdsE)
  have le: "locate_ex T t k = Option.bind (locate_ex_loop T t k 0 INITIAL_INDEX) (\<lambda>r. case r of
       None \<Rightarrow> Some INVALID_INDEX
     | Some (offset, p, cur) \<Rightarrow>
         Some (if itail_match_string (itail_seekg (t_tail t) offset) (drop p k) then cur else INITIAL_INDEX))"
    unfolding locate_ex_def Let_def itail_copy_eq ..
  have "located T put t M I B k recs 0 (locate_ex_loop T t k 0 INITIAL_INDEX)"
    using rep ok
    by (intro locate_ex_loop_ok [OF rep(1,2) k]) (simp_all add: keys_ok_recs_ok INITIAL_INDEX_def)
  then consider
      "below k recs = []" "never_single 0 k recs" "locate_ex_loop T t k 0 INITIAL_INDEX = Some None"
    | j where "below k recs = []" "never_single 0 k recs" "0 < j" "vacant_at T ?da j"
        "locate_ex_loop T t k 0 INITIAL_INDEX = Some (Some (0, length k, j))"
    | j where "0 < j" "j < length ?da" "never_single 0 k recs"
        "locate_ex_loop T t k 0 INITIAL_INDEX = Some (Some (0, length k, j))"
        "node_ok T ?da ?tail (t_table t) put M I B (tr_get_base T (?da ! j)) (length k) (below k recs)"
    | off q j r where "0 < j" "j < length ?da" "q < length k"
        "locate_ex_loop T t k 0 INITIAL_INDEX = Some (Some (off, q, j))"
        "tr_get_base T (?da ! j) = - int off" "below (take q k) recs = [r]" "leaf_for put ?tail k off q r"
    unfolding located_def by blast
  then show ?thesis
  proof cases
    case 1
    then show ?thesis by (intro none [of INVALID_INDEX]) (simp_all add: le)
  next
    case 2
    then show ?thesis using seek_0_match [OF rep(4,5)] by (intro none [of j]) (simp_all add: le)
  next
    case 3
    then show ?thesis using seek_0_match [OF rep(4,5)] rep(1,2) by (intro node [of j]) (simp_all add: le)
  next
    case 4
    have "r \<in> set (below (take q k) recs)" by (simp add: 4(6))
    then have "nul_free (rec_key r)" using ok by (simp add: below_def keys_ok_def)
    note m = leaf_match [OF 4(7) this k]
    show ?thesis
    proof (cases "rec_key r = k")
      case True
      with 4 m show ?thesis by (intro hit [of j off q r]) (simp_all add: le)
    next
      case False
      with 4 m show ?thesis by (intro miss [of q r]) (simp_all add: le)
    qed
  qed
qed

end
