(* ===== verification/Das_Listing.thy ===== *)
theory Das_Listing
  imports Das_Children
begin

text \<open>
  What \<^verbatim>\<open>getChildren\<close> lists. Below a node it lists the records of the node in the
  order of their keys, up to the requested number; the key string of a record that is a
  proper prefix of another one gets a spurious NUL at its end. When the query ends inside
  the tail of a leaf it lists the records of the whole trie instead.
\<close>

section \<open>The listing of a node\<close>

definition extended :: "'v das_record list \<Rightarrow> 'v das_record \<Rightarrow> bool" where
  "extended recs r \<longleftrightarrow> (\<exists>r'\<in>set recs. rec_key r' \<noteq> rec_key r \<and> has_prefix (rec_key r) (rec_key r'))"

definition gc_item :: "'v das_record list \<Rightarrow> nat \<Rightarrow> bytes \<Rightarrow> 'v das_record \<Rightarrow> 'v key_value_pair" where
  "gc_item recs p ck r = \<lparr>kv_key = ck @ drop p (rec_key r) @ (if extended recs r then [0] else []),
     kv_value = rec_value r\<rparr>"

text \<open>The items of the children for the characters from \<open>c\<close> on.\<close>

definition items_from :: "'v das_record list \<Rightarrow> nat \<Rightarrow> bytes \<Rightarrow> nat \<Rightarrow> 'v key_value_pair list" where
  "items_from recs p ck c =
     concat (map (\<lambda>c. map (gc_item recs p ck) (child_recs p (word_of_nat c) recs)) [c..<255])"

lemma items_from_Suc:
  "c < 255 \<Longrightarrow> items_from recs p ck c =
    map (gc_item recs p ck) (child_recs p (word_of_nat c) recs) @ items_from recs p ck (Suc c)"
  by (simp add: items_from_def upt_conv_Cons)

lemma items_from_end [simp]: "\<not> c < 255 \<Longrightarrow> items_from recs p ck c = []"
  by (simp add: items_from_def)

text \<open>A sorted range is the concatenation of its groups.\<close>

lemma sorted_groups:
  assumes "sorted_wrt (\<lambda>x y. f x \<le> f y) xs" and "\<forall>x\<in>set xs. lo \<le> f x \<and> f x < (hi :: nat)"
  shows "concat (map (\<lambda>c. filter (\<lambda>x. f x = c) xs) [lo..<hi]) = xs"
  using assms
proof (induction xs)
  case (Cons x xs)
  have IH: "concat (map (\<lambda>c. filter (\<lambda>x. f x = c) xs) [lo..<hi]) = xs"
    using Cons by simp
  have lo: "lo \<le> f x" "f x < hi" using Cons.prems(2) by auto
  have small: "filter (\<lambda>y. f y = c) (x # xs) = []" if "c < f x" for c
    using that Cons.prems(1) by (auto simp: filter_empty_conv)
  have split: "[lo..<hi] = [lo..<f x] @ f x # [Suc (f x)..<hi]"
    using lo upt_add_eq_append [of lo "f x" "hi - f x"] upt_conv_Cons [of "f x" hi] by simp
  have small': "filter (\<lambda>y. f y = c) xs = []" if "c < f x" for c
    using small [OF that] by (auto split: if_splits)
  have rest: "map (\<lambda>c. filter (\<lambda>y. f y = c) (x # xs)) [Suc (f x)..<hi] =
      map (\<lambda>c. filter (\<lambda>y. f y = c) xs) [Suc (f x)..<hi]"
    by (intro map_cong) auto
  have e: "concat (map (\<lambda>c. filter (\<lambda>y. f y = c) (x # xs)) [lo..<f x]) = []"
    "concat (map (\<lambda>c. filter (\<lambda>y. f y = c) xs) [lo..<f x]) = []"
    using small small' by (simp_all only: concat_eq_Nil_conv) auto
  have "concat (map (\<lambda>c. filter (\<lambda>y. f y = c) (x # xs)) [lo..<hi]) =
      x # filter (\<lambda>y. f y = f x) xs @ concat (map (\<lambda>c. filter (\<lambda>y. f y = c) xs) [Suc (f x)..<hi])"
    unfolding split map_append concat_append e list.map rest by simp
  also have "\<dots> = x # xs"
    using IH unfolding split map_append concat_append e by simp
  finally show ?case .
qed simp

lemma items_from_0:
  assumes "recs_ok p recs" and "\<forall>r\<in>set recs. 255 \<notin> set (rec_key r)"
  shows "items_from recs p ck 0 = map (gc_item recs p ck) recs"
proof -
  have "unat (key_char p r) < 255" if "r \<in> set recs" for r
  proof -
    have "key_char p r \<noteq> 255"
      using assms(2) that by (auto simp: key_at_def) (metis nth_mem)
    then have "unat (key_char p r) \<noteq> 255"
      using unsigned_word_eqI [of "key_char p r" "255 :: byte"] by auto
    then show ?thesis using unat_byte_less [of "key_char p r"] by linarith
  qed
  moreover have "sorted_wrt (\<lambda>r r'. unat (key_char p r) \<le> unat (key_char p r')) recs"
    using recs_ok_sorted_chars [OF assms(1)] by (simp add: word_le_nat_alt)
  ultimately have "concat (map (\<lambda>c. filter (\<lambda>r. unat (key_char p r) = c) recs) [0..<255]) = recs"
    by (intro sorted_groups) auto
  moreover have "map (\<lambda>c. filter (\<lambda>r. unat (key_char p r) = c) recs) [0..<255] =
      map (\<lambda>c. child_recs p (word_of_nat c) recs) [0..<255]"
  proof (intro map_cong refl)
    fix c assume "c \<in> set [0..<255]"
    then have c: "unat (word_of_nat c :: byte) = c"
      by (simp add: unat_of_nat take_bit_nat_eq_self)
    then show "filter (\<lambda>r. unat (key_char p r) = c) recs = child_recs p (word_of_nat c) recs"
      unfolding child_recs_def by (intro filter_cong refl) (metis unsigned_word_eqI)
  qed
  ultimately have "concat (map (\<lambda>c. child_recs p (word_of_nat c) recs) [0..<255]) = recs" by simp
  moreover have "items_from recs p ck 0 =
      map (gc_item recs p ck) (concat (map (\<lambda>c. child_recs p (word_of_nat c) recs) [0..<255]))"
    by (simp add: items_from_def map_concat comp_def)
  ultimately show ?thesis by simp
qed

text \<open>The items of a child are those of its own listing.\<close>

lemma extended_child:
  assumes "recs_ok p recs" "c \<noteq> 0" "r \<in> set (child_recs p c recs)"
  shows "extended (child_recs p c recs) r \<longleftrightarrow> extended recs r"
proof -
  have r: "p < length (rec_key r)" "rec_key r ! p = c" "r \<in> set recs"
    using assms(2,3) by (auto simp: child_recs_def key_at_def split: if_splits)
  have "key_char p r' = c" if "has_prefix (rec_key r) (rec_key r')" for r' :: "'a das_record"
  proof -
    have "rec_key r' ! p = rec_key r ! p"
      using that r(1) by (metis has_prefix_def nth_take)
    then show ?thesis using has_prefix_length [OF that] r by (simp add: key_at_def)
  qed
  then show ?thesis by (auto simp: extended_def child_recs_def)
qed

lemma gc_item_child:
  assumes "recs_ok p recs" "c \<noteq> 0" "r \<in> set (child_recs p c recs)"
  shows "gc_item (child_recs p c recs) (p + 1) (ck @ [c]) r = gc_item recs p ck r"
proof -
  have "drop p (rec_key r) = c # drop (p + 1) (rec_key r)"
    using assms(2,3) by (auto simp: child_recs_def key_at_def Cons_nth_drop_Suc split: if_splits)
  then show ?thesis using extended_child [OF assms] by (simp add: gc_item_def)
qed

text \<open>The record whose key ends at the node.\<close>

lemma gc_item_0:
  assumes ok: "recs_ok p recs" and len: "2 \<le> length recs" and r: "child_recs p 0 recs = [r]"
  shows "gc_item recs p ck r = \<lparr>kv_key = ck @ [0], kv_value = rec_value r\<rparr>" and "length (rec_key r) = p"
proof -
  have "r \<in> set (child_recs p 0 recs)" by (simp add: r)
  then have rr: "r \<in> set recs" "key_at (rec_key r) p = 0" by (auto simp: child_recs_def)
  with ok show key: "length (rec_key r) = p"
    using key_at_0 [of "rec_key r" p] by (auto simp: recs_ok_def)
  have "\<exists>r'\<in>set recs. r' \<noteq> r"
  proof (rule ccontr)
    assume "\<not> (\<exists>r'\<in>set recs. r' \<noteq> r)"
    then have "key_char p x = 0" if "x \<in> set recs" for x
    proof -
      from that have "x = r" using \<open>\<not> (\<exists>r'\<in>set recs. r' \<noteq> r)\<close> by blast
      then show ?thesis using rr(2) by simp
    qed
    then have "child_recs p 0 recs = recs" by (simp add: child_recs_def)
    with r len show False by simp
  qed
  then obtain r' where r': "r' \<in> set recs" "r' \<noteq> r" by blast
  have "key_char p r' \<noteq> 0"
  proof
    assume "key_char p r' = 0"
    then have "r' \<in> set (child_recs p 0 recs)" using r' by (simp add: child_recs_def)
    with r r' show False by simp
  qed
  then have "rec_key r' \<noteq> rec_key r" using rr(2) by metis
  moreover have "take p (rec_key r') = take p (rec_key r)" using ok r'(1) rr(1) unfolding recs_ok_def by blast
  then have "has_prefix (rec_key r) (rec_key r')" using key by (simp add: has_prefix_def)
  ultimately have "extended recs r" using r'(1) by (auto simp: extended_def)
  then show "gc_item recs p ck r = \<lparr>kv_key = ck @ [0], kv_value = rec_value r\<rparr>"
    using key by (simp add: gc_item_def)
qed

lemma gc_item_single:
  "gc_item [r] p ck r = \<lparr>kv_key = ck @ drop p (rec_key r), kv_value = rec_value r\<rparr>"
  by (simp add: gc_item_def extended_def)

text \<open>The pair listed for a record, with the key string the code makes for it.\<close>

definition kv_of :: "bytes \<Rightarrow> 'v das_record list \<Rightarrow> 'v das_record \<Rightarrow> 'v key_value_pair" where
  "kv_of before recs r = \<lparr>kv_key = before @ rec_key r @ (if extended recs r then [0] else []),
     kv_value = rec_value r\<rparr>"

section \<open>The loop\<close>

lemma gc_loop_done: "\<not> (c < 255 \<and> 0 < fst (snd st)) \<Longrightarrow> gc_loop T get t cur c tmp st = Some st"
  by (subst gc_loop.simps) simp

lemma gc_loop_skip:
  "c < 255 \<Longrightarrow> 0 < fst (snd st) \<Longrightarrow> descend T t cur (word_of_nat c) = Some INVALID_INDEX \<Longrightarrow>
   gc_loop T get t cur c tmp st = gc_loop T get t cur (c + 1) tmp st"
  by (subst gc_loop.simps) simp

text \<open>An element without children, a leaf or a vacant one, adds nothing.\<close>

lemma gc_loop_nonpos:
  assumes "cur < length (arr_list (t_da t))" "tr_get_base T (arr_list (t_da t) ! cur) \<le> 0"
  shows "gc_loop T get t cur c tmp st = Some st"
proof (induction "255 - c" arbitrary: c rule: less_induct)
  case less
  show ?case
  proof (cases "c < 255 \<and> 0 < fst (snd st)")
    case True
    then have "gc_loop T get t cur (c + 1) tmp st = Some st" by (intro less) linarith
    then show ?thesis
      using True gc_loop_skip [of c st T t cur get tmp] descend_nonpos [OF assms] by simp
  qed (rule gc_loop_done)
qed

text \<open>What the loop leaves: the first \<open>n\<close> items, and the key as it was if it goes on.\<close>

definition gc_post :: "'v gc_state \<Rightarrow> 'v key_value_pair list \<Rightarrow> 'v gc_state option \<Rightarrow> bool" where
  "gc_post st items res \<longleftrightarrow> (\<exists>ck'. res = Some (fst st @ take (nat (fst (snd st))) items,
      fst (snd st) - int (length (take (nat (fst (snd st))) items)), ck') \<and>
    (int (length items) < fst (snd st) \<longrightarrow> ck' = snd (snd st)) \<and> length (snd (snd st)) \<le> length ck')"

lemma gc_post_zero: "n \<le> 0 \<Longrightarrow> length ck \<le> length ck' \<Longrightarrow> gc_post (vec, n, ck) items (Some (vec, n, ck'))"
  by (auto simp: gc_post_def)

lemma gc_post_nil: "gc_post st [] (Some st)"
  by (cases st) (auto simp: gc_post_def)

lemma gc_post_append:
  assumes "int (length its) < n" and "gc_post (vec @ its, n - int (length its), ck) rest res"
  shows "gc_post (vec, n, ck) (its @ rest) res"
proof -
  have "nat (n - int (length its)) = nat n - length its" by simp
  moreover have "take (nat n) its = its" using assms(1) by simp
  ultimately show ?thesis using assms by (auto simp: gc_post_def algebra_simps)
qed

lemma gc_post_stop:
  assumes "0 < n" "n \<le> int (length its)" "length ck \<le> length ck'"
  shows "gc_post (vec, n, ck) (its @ rest) (Some (vec @ take (nat n) its, 0, ck'))"
  using assms by (auto simp: gc_post_def)

text \<open>A child is a leaf, or has children of its own.\<close>

lemma gc_loop_leaf:
  assumes c: "c < 255" "0 < n" and d: "descend T t cur (word_of_nat c) = Some j" "0 < j"
    "j < length (arr_list (t_da t))" "tr_get_base T (arr_list (t_da t) ! j) < 0"
    and leaf: "gc_leaf get tmp (tr_get_base T (arr_list (t_da t) ! j)) (vec, n, ck @ [word_of_nat c]) =
      Some (tmp2, vec @ [it], n - 1, ck @ [word_of_nat c])"
  shows "gc_loop T get t cur c tmp (vec, n, ck) =
    (if n \<le> 1 then Some (vec @ [it], n - 1, ck @ [word_of_nat c])
     else gc_loop T get t cur (c + 1) tmp2 (vec @ [it], n - 1, ck))"
  using c d leaf gc_loop_nonpos [OF d(3), where get = get]
  by (subst gc_loop.simps) (simp add: t_get_base_eq INVALID_INDEX_def erase_last_def)

lemma gc_loop_node:
  assumes c: "c < 255" "0 < n" and d: "descend T t cur (word_of_nat c) = Some j" "0 < j"
    "j < length (arr_list (t_da t))" "0 \<le> tr_get_base T (arr_list (t_da t) ! j)"
  shows "gc_loop T get t cur c tmp (vec, n, ck) =
    Option.bind (gc_loop T get t j 0 (t_tail t) (vec, n, ck @ [word_of_nat c])) (\<lambda>st3.
      Option.bind (erase_last (snd (snd st3))) (\<lambda>key.
        gc_loop T get t cur (c + 1) tmp (fst st3, fst (snd st3), key)))"
  using c d by (subst gc_loop.simps) (simp add: t_get_base_eq INVALID_INDEX_def)

lemma gc_node_post:
  assumes "c < 255" "0 < n" "descend T t cur (word_of_nat c) = Some j" "0 < j"
    "j < length (arr_list (t_da t))" "0 \<le> tr_get_base T (arr_list (t_da t) ! j)"
    and sub: "gc_post (vec, n, ck @ [word_of_nat c]) its
      (gc_loop T get t j 0 (t_tail t) (vec, n, ck @ [word_of_nat c]))"
    and rest: "int (length its) < n \<Longrightarrow>
      gc_post (vec @ its, n - int (length its), ck) items
        (gc_loop T get t cur (c + 1) tmp (vec @ its, n - int (length its), ck))"
  shows "gc_post (vec, n, ck) (its @ items) (gc_loop T get t cur c tmp (vec, n, ck))"
proof -
  note step = gc_loop_node [OF assms(1-6), of get tmp vec ck]
  obtain ck' where r: "gc_loop T get t j 0 (t_tail t) (vec, n, ck @ [word_of_nat c]) =
      Some (vec @ take (nat n) its, n - int (length (take (nat n) its)), ck')"
    "int (length its) < n \<longrightarrow> ck' = ck @ [word_of_nat c]" "length ck + 1 \<le> length ck'"
    using sub by (auto simp: gc_post_def)
  show ?thesis
  proof (cases "int (length its) < n")
    case True
    then have "gc_loop T get t cur c tmp (vec, n, ck) =
        gc_loop T get t cur (c + 1) tmp (vec @ its, n - int (length its), ck)"
      using r by (simp add: step erase_last_def)
    then show ?thesis using gc_post_append [OF True rest [OF True]] by simp
  next
    case False
    then have "int (length (take (nat n) its)) = n" using assms(2) by simp
    then have "gc_loop T get t cur c tmp (vec, n, ck) =
        gc_loop T get t cur (c + 1) tmp (vec @ take (nat n) its, 0, butlast ck')"
      using r(1,3) by (auto simp: step erase_last_def)
    then show ?thesis
      using gc_post_stop [of n its ck "butlast ck'" vec items] False assms(2) r(3) by (simp add: gc_loop_done)
  qed
qed

context das_builder_laws
begin

lemma gc_leaf_ok:
  assumes cont: "it_cont tmp = it_cont (t_tail t)" and nf: "nul_free (rec_key r)" and v: "ok (rec_value r)"
    and off: "tail_holds (arr_list (it_cont (t_tail t))) off (drop p (rec_key r) @ [0] @ put [] (rec_value r))"
  shows "\<exists>tmp2. gc_leaf get tmp (- int off) (vec, n, ck) =
      Some (tmp2, vec @ [\<lparr>kv_key = ck @ drop p (rec_key r), kv_value = rec_value r\<rparr>], n - 1, ck) \<and>
    it_cont tmp2 = it_cont (t_tail t)"
proof -
  let ?s = "drop p (rec_key r)"
  have th: "tail_holds (arr_list (it_cont tmp)) off ((?s @ [0]) @ put [] (rec_value r))"
    using off cont by simp
  note sp = tail_holds_split [OF th]
  have seek: "itail_seekg tmp off = tmp\<lparr>it_off := off\<rparr>"
    using itail_seekg_holds [OF sp [THEN conjunct1]] by simp
  let ?t1 = "tmp\<lparr>it_off := off + length ?s + 1\<rparr>"
  have "itail_get_str (tmp\<lparr>it_off := off\<rparr>) = Some (?s, ?t1)"
    using itail_get_str_holds [of "tmp\<lparr>it_off := off\<rparr>" ?s] sp nf by (simp add: nul_free_drop)
  moreover have "get ?t1 = Some (rec_value r, ?t1\<lparr>it_off := it_off ?t1 + length (put [] (rec_value r))\<rparr>)"
    using get_put [OF v, of ?t1] sp by (simp add: add_ac)
  ultimately show ?thesis using cont by (simp add: gc_leaf_def seek)
qed

text \<open>One character: its child is a leaf, has children of its own, or is missing. \<open>rest\<close> is what the loop does next.\<close>

lemma gc_char_leaf:
  assumes c: "c < 255" "0 < n" and recs: "recs_ok p recs" "2 \<le> length recs" "child_recs p (word_of_nat c) recs = [r]" "ok (rec_value r)"
    and d: "descend T t cur (word_of_nat c) = Some j" "0 < j" "j < length (arr_list (t_da t))"
      "tr_get_base T (arr_list (t_da t) ! j) = - int off" "0 < off"
    and th: "tail_holds (arr_list (it_cont (t_tail t))) off
      (drop (if (word_of_nat c :: byte) = 0 then p else p + 1) (rec_key r) @ [0] @ put [] (rec_value r))"
    and cont: "it_cont tmp = it_cont (t_tail t)"
    and rest: "\<And>tmp' vec' n'. it_cont tmp' = it_cont (t_tail t) \<Longrightarrow>
      gc_post (vec', n', ck) (items_from recs p ck (c + 1)) (gc_loop T get t cur (c + 1) tmp' (vec', n', ck))"
  shows "gc_post (vec, n, ck) (items_from recs p ck c) (gc_loop T get t cur c tmp (vec, n, ck))"
proof -
  let ?cc = "word_of_nat c :: byte" and ?p = "if (word_of_nat c :: byte) = 0 then p else p + 1"
  have "r \<in> set (child_recs p ?cc recs)" by (simp add: recs(3))
  then have r: "nul_free (rec_key r)" using recs(1) by (auto simp: recs_ok_def child_recs_def)
  define it where "it = \<lparr>kv_key = (ck @ [?cc]) @ drop ?p (rec_key r), kv_value = rec_value r\<rparr>"
  have item: "gc_item recs p ck r = it"
  proof (cases "?cc = 0")
    case True
    then show ?thesis using gc_item_0 [OF recs(1,2), of r] recs(3) by (simp add: it_def)
  next
    case False
    then show ?thesis
      using gc_item_child [OF recs(1) False, of r ck] gc_item_single [of r ?p "ck @ [?cc]"] recs(3) by (simp add: it_def)
  qed
  have its: "items_from recs p ck c = [it] @ items_from recs p ck (c + 1)"
    using items_from_Suc [OF c(1), of recs p ck] recs(3) item by simp
  obtain tmp2 where gl: "gc_leaf get tmp (- int off) (vec, n, ck @ [?cc]) =
      Some (tmp2, vec @ [it], n - 1, ck @ [?cc])" "it_cont tmp2 = it_cont (t_tail t)"
    using gc_leaf_ok [OF cont r recs(4) th, of vec n "ck @ [?cc]"] by (auto simp: it_def)
  have neg: "tr_get_base T (arr_list (t_da t) ! j) < 0" using d(4,5) by simp
  have loop: "gc_loop T get t cur c tmp (vec, n, ck) =
      (if n \<le> 1 then Some (vec @ [it], n - 1, ck @ [?cc])
       else gc_loop T get t cur (c + 1) tmp2 (vec @ [it], n - 1, ck))"
    using gc_loop_leaf [OF c d(1-3) neg, of get tmp vec ck tmp2 it] gl(1) d(4) by simp
  show ?thesis
  proof (cases "n \<le> 1")
    case True
    with c(2) have "n = 1" by simp
    then show ?thesis
      using gc_post_stop [of 1 "[it]" ck "ck @ [?cc]" vec "items_from recs p ck (c + 1)"] unfolding its loop by simp
  next
    case False
    then show ?thesis
      using gc_post_append [of "[it]" n vec ck "items_from recs p ck (c + 1)"] rest [OF gl(2)] unfolding its loop by simp
  qed
qed

lemma gc_char_node:
  assumes c: "c < 255" "0 < n" and recs: "recs_ok p recs" "2 \<le> length (child_recs p (word_of_nat c) recs)" "\<forall>r\<in>set recs. 255 \<notin> set (rec_key r)"
    and d: "descend T t cur (word_of_nat c) = Some j" "0 < j" "j < length (arr_list (t_da t))" "0 \<le> tr_get_base T (arr_list (t_da t) ! j)"
    and sub: "gc_post (vec, n, ck @ [word_of_nat c]) (items_from (child_recs p (word_of_nat c) recs) (p + 1) (ck @ [word_of_nat c]) 0)
      (gc_loop T get t j 0 (t_tail t) (vec, n, ck @ [word_of_nat c]))"
    and rest: "\<And>vec' n'. gc_post (vec', n', ck) (items_from recs p ck (c + 1)) (gc_loop T get t cur (c + 1) tmp (vec', n', ck))"
  shows "gc_post (vec, n, ck) (items_from recs p ck c) (gc_loop T get t cur c tmp (vec, n, ck))"
proof -
  let ?cc = "word_of_nat c :: byte"
  have c0: "?cc \<noteq> 0" using recs(2) length_child_recs_0 [OF recs(1)] by auto
  have "\<forall>r\<in>set (child_recs p ?cc recs). 255 \<notin> set (rec_key r)" using recs(3) by (simp add: child_recs_def)
  moreover have "recs_ok (p + 1) (child_recs p ?cc recs)" using child_recs_ok [OF recs(1) c0] .
  ultimately have "items_from (child_recs p ?cc recs) (p + 1) (ck @ [?cc]) 0 = map (gc_item recs p ck) (child_recs p ?cc recs)"
    using items_from_0 [of "p + 1" "child_recs p ?cc recs" "ck @ [?cc]"] gc_item_child [OF recs(1) c0] by simp
  then show ?thesis
    using gc_node_post [OF c d sub] rest unfolding items_from_Suc [OF c(1)] by simp
qed

lemma gc_char_none:
  assumes c: "c < 255" "0 < n" and none: "word_of_nat c \<notin> chars p recs"
    and d: "descend T t cur (word_of_nat c) = Some INVALID_INDEX \<or>
      (\<exists>j. descend T t cur (word_of_nat c) = Some j \<and> 0 < j \<and> j < length (arr_list (t_da t)) \<and> tr_get_base T (arr_list (t_da t) ! j) = 0)"
    and rest: "gc_post (vec, n, ck) (items_from recs p ck (c + 1)) (gc_loop T get t cur (c + 1) tmp (vec, n, ck))"
  shows "gc_post (vec, n, ck) (items_from recs p ck c) (gc_loop T get t cur c tmp (vec, n, ck))"
proof -
  have "child_recs p (word_of_nat c) recs = []"
    using none unfolding child_recs_def filter_empty_conv by (metis chars_def imageI)
  then have "items_from recs p ck c = items_from recs p ck (c + 1)" using items_from_Suc [OF c(1), of recs p ck] by simp
  moreover have "gc_loop T get t cur c tmp (vec, n, ck) = gc_loop T get t cur (c + 1) tmp (vec, n, ck)"
    using d
  proof (elim disjE exE conjE)
    fix j assume j: "descend T t cur (word_of_nat c) = Some j" "0 < j" "j < length (arr_list (t_da t))" "tr_get_base T (arr_list (t_da t) ! j) = 0"
    then show ?thesis
      using gc_loop_node [OF c j(1-3), of get tmp vec ck] gc_loop_nonpos [OF j(3), where get = get] by (simp add: erase_last_def)
  qed (use c in \<open>simp add: gc_loop_skip\<close>)
  ultimately show ?thesis using rest by simp
qed

lemma gc_loop_ok:
  fixes t :: "'e trie"
  defines "da \<equiv> arr_list (t_da t)" and "tail \<equiv> arr_list (it_cont (t_tail t))" and "tbl \<equiv> t_table t"
  assumes own: "elems_owned T tbl M B da" and tbl: "table_ok tbl"
  shows "node_ok T da tail tbl put M I B v p recs \<Longrightarrow> recs_ok p recs \<Longrightarrow> cur < length da \<Longrightarrow>
    tr_get_base T (da ! cur) = v \<Longrightarrow> 0 < v \<Longrightarrow>
    \<forall>r\<in>set recs. ok (rec_value r) \<and> 255 \<notin> set (rec_key r) \<Longrightarrow> it_cont tmp = it_cont (t_tail t) \<Longrightarrow>
    gc_post (vec, n, ck) (items_from recs p ck c) (gc_loop T get t cur c tmp (vec, n, ck))"
proof (induction arbitrary: cur tmp vec n ck c rule: node_ok.induct)
  case (leaf off p r)
  then show ?case by simp
next
  case (node recs b p)
  note cur = node.prems(2,3) [unfolded da_def] node.hyps(2)
  show ?case
    using node.prems(6)
  proof (induction "255 - c" arbitrary: c tmp vec n rule: less_induct)
    case less
    let ?cc = "word_of_nat c :: byte" and ?j = "child_pos tbl b (word_of_nat c)"
    let ?recs = "child_recs p ?cc recs" and ?p = "if ?cc = 0 then p else p + 1"
    show ?case
    proof (cases "c < 255 \<and> 0 < n")
      case False
      then have "gc_loop T get t cur c tmp (vec, n, ck) = Some (vec, n, ck)" by (intro gc_loop_done) simp
      then show ?thesis
        using False gc_post_zero [of n ck ck vec "items_from recs p ck c"] gc_post_nil [of "(vec, n, ck)"]
        by (cases "c < 255") simp_all
    next
      case True
      then have c: "c < 255" "0 < n" by auto
      have rest: "gc_post (vec', n', ck) (items_from recs p ck (c + 1)) (gc_loop T get t cur (c + 1) tmp' (vec', n', ck))"
        if "it_cont tmp' = it_cont (t_tail t)" for vec' n' tmp'
        using less.hyps [of "c + 1" tmp' vec' n'] that c(1) by simp
      show ?thesis
      proof (cases "?cc \<in> chars p recs")
        case in_node: True
        have ch: "?j < length da" "tr_get_check T (da ! ?j) = tbl ! unat ?cc"
          "node_ok T da tail tbl put M I B (tr_get_base T (da ! ?j)) ?p ?recs"
          using node.IH in_node by auto
        have d: "descend T t cur ?cc = Some ?j" "0 < ?j" "?j < length (arr_list (t_da t))"
          using descend_child [OF cur, of ?cc] ch(1,2) by (simp_all add: da_def tbl_def child_pos_def)
        have sub: "\<forall>r\<in>set ?recs. ok (rec_value r) \<and> 255 \<notin> set (rec_key r)" using node.prems(5) by (simp add: child_recs_def)
        have okc: "recs_ok ?p ?recs" using child_recs_ok [OF node.prems(1)] child_recs_ok_0 [OF node.prems(1)] by simp
        from ch(3) show ?thesis
        proof cases
          case (leaf off r)
          show ?thesis
            by (rule gc_char_leaf [OF c node.prems(1) node.hyps(1) leaf(2) _ d _ leaf(3) _ less.prems rest])
              (use leaf(1,2,5) sub in \<open>simp_all add: da_def tail_def\<close>)
        next
          case (node b')
          have "length (child_recs p 0 recs) \<le> 1" using length_child_recs_0 [OF \<open>recs_ok p recs\<close>] .
          then have c0: "?cc \<noteq> 0" using node(2) by auto
          have "gc_post (vec, n, ck @ [?cc]) (items_from ?recs ?p (ck @ [?cc]) 0)
              (gc_loop T get t ?j 0 (t_tail t) (vec, n, ck @ [?cc]))"
            using \<open>\<forall>c\<in>chars p recs. _\<close> in_node okc ch(1) sub node by fastforce
          then show ?thesis
            using c0 node \<open>\<forall>r\<in>set recs. _\<close>
            by (intro gc_char_node [OF c \<open>recs_ok p recs\<close> node(2) _ d _ _ rest [OF less.prems]]) (simp_all add: da_def)
        qed
      next
        case False
        then have "?cc \<notin> M b" using node.hyps(4) by simp
        then show ?thesis
          using descend_no_child [OF cur, of M B ?cc] own tbl
          by (intro gc_char_none [OF c False _ rest [OF less.prems]]) (auto simp: da_def tbl_def)
      qed
    qed
  qed
qed

section \<open>getChildren\<close>

lemma gc_recursive_nonpos:
  assumes "cur < length (arr_list (t_da t))" "tr_get_base T (arr_list (t_da t) ! cur) \<le> 0"
  shows "getChildrenRecursive T get t cur st = Some st"
  using gc_loop_nonpos [OF assms, where get = get] by (simp add: getChildrenRecursive_def)

lemma getChildren_leaf:
  assumes le: "locate_ex T t k = Some j" "0 < j" "j < length (arr_list (t_da t))"
    "tr_get_base T (arr_list (t_da t) ! j) = - int off" "0 < off"
    and r: "nul_free (rec_key r)" "ok (rec_value r)"
    and th: "tail_holds (arr_list (it_cont (t_tail t))) off (drop p (rec_key r) @ [0] @ put [] (rec_value r))"
  shows "getChildren T get t k vec n =
    Some (True, vec @ (if 0 < n then [\<lparr>kv_key = k, kv_value = rec_value r\<rparr>] else []))"
proof (cases "0 < n")
  case True
  let ?tmp = "itail_seekg (t_tail t) off"
  obtain tmp2 where "gc_leaf get (t_tail t) (- int off) (vec, n, []) =
      Some (tmp2, vec @ [\<lparr>kv_key = drop p (rec_key r), kv_value = rec_value r\<rparr>], n - 1, [])"
    using gc_leaf_ok [OF refl r th, of vec n "[]"] by auto
  then obtain tmp1 s where "itail_get_str ?tmp = Some (s, tmp1)" "get tmp1 = Some (rec_value r, tmp2)"
    by (auto simp: gc_leaf_def split: bind_splits)
  then show ?thesis
    using True le gc_recursive_nonpos [OF le(3)] by (simp add: getChildren_def t_get_base_eq)
qed (simp add: getChildren_def)

lemma getChildren_node:
  assumes le: "locate_ex T t k = Some j" "0 < j" "j < length (arr_list (t_da t))"
    and base: "0 < tr_get_base T (arr_list (t_da t) ! j)"
    and own: "elems_owned T (t_table t) M B (arr_list (t_da t))" "table_ok (t_table t)"
    and node: "node_ok T (arr_list (t_da t)) (arr_list (it_cont (t_tail t))) (t_table t) put M I B
       (tr_get_base T (arr_list (t_da t) ! j)) p recs" and ok: "recs_ok p recs"
    and vals: "\<forall>r\<in>set recs. ok (rec_value r) \<and> 255 \<notin> set (rec_key r)"
  shows "getChildren T get t k vec n = Some (True, vec @ take (nat n) (map (gc_item recs p k) recs))"
proof (cases "0 < n")
  case True
  have "gc_post (vec, n, k) (map (gc_item recs p k) recs) (gc_loop T get t j 0 (t_tail t) (vec, n, k))"
    using gc_loop_ok [OF own node ok le(3) refl base vals refl, of vec n k 0] items_from_0 [OF ok] vals
    by simp
  then show ?thesis
    using True le base
    by (auto simp: getChildren_def getChildrenRecursive_def t_get_base_eq gc_post_def)
qed (simp add: getChildren_def)

lemma recs_ok_below:
  assumes "keys_ok recs"
  shows "recs_ok (length k) (below k recs)"
proof -
  have "\<forall>r\<in>set (below k recs). length k \<le> length (rec_key r) \<and> take (length k) (rec_key r) = k"
    by (auto simp: below_def has_prefix_def dest: has_prefix_length)
      (metis length_take min.cobounded1)
  moreover have "sorted_wrt bytes_less (map rec_key (below k recs))"
    using assms by (simp add: keys_ok_def below_def sorted_wrt_map sorted_wrt_filter)
  ultimately show ?thesis
    using assms by (auto simp: recs_ok_def keys_ok_def below_def)
qed

lemma gc_item_below:
  "r \<in> set (below k recs) \<Longrightarrow> gc_item (below k recs) (length k) k r = kv_of [] (below k recs) r"
  by (simp add: gc_item_def kv_of_def below_def has_prefix_def) (metis append.assoc append_take_drop_id)

lemma getChildren_many:
  assumes holds: "trie_holds T put recs t" and ok: "keys_ok recs" and k: "nul_free k"
    and vals: "\<forall>r\<in>set recs. ok (rec_value r) \<and> 255 \<notin> set (rec_key r)"
    and many: "2 \<le> length (below k recs)"
  shows "getChildren T get t k vec n =
    Some (True, vec @ take (nat n) (map (kv_of [] (below k recs)) (below k recs)))"
proof -
  have two: "\<exists>x\<in>set (below k recs). x \<noteq> r" for r
  proof (rule ccontr)
    assume "\<not> (\<exists>x\<in>set (below k recs). x \<noteq> r)"
    then have "set (below k recs) \<subseteq> {r}" by blast
    moreover have "distinct (map rec_key (below k recs))"
      using keys_ok_distinct [OF ok] by (simp add: below_def distinct_map_filter)
    then have "distinct (below k recs)" by (simp add: distinct_map)
    ultimately have "length (below k recs) \<le> 1"
      by (metis card_mono card_1_singleton_iff distinct_card finite.emptyI finite_insert One_nat_def is_singletonI is_singleton_altdef)
    with many show False by simp
  qed
  show ?thesis
  proof (cases rule: locate_ex_cases [OF holds ok k, case_names none node hit miss])
    case (none j)
    then show ?thesis using many by simp
  next
    case (node j M I B)
    have "0 < tr_get_base T (arr_list (t_da t) ! j)"
      using node(7) many by (cases rule: node_ok.cases) auto
    moreover have "map (gc_item (below k recs) (length k) k) (below k recs) =
        map (kv_of [] (below k recs)) (below k recs)"
      by (intro map_cong refl gc_item_below)
    moreover have "\<forall>r\<in>set (below k recs). ok (rec_value r) \<and> 255 \<notin> set (rec_key r)"
      using vals by (simp add: below_def)
    ultimately show ?thesis
      using getChildren_node [OF node(1-3) _ node(5-7) recs_ok_below [OF ok], of vec n] by metis
  next
    case (hit j off q r)
    then show ?thesis using below_single_sub [OF hit(6)] two by blast
  next
    case (miss q r)
    then show ?thesis using below_single_sub [OF miss(3)] two by blast
  qed
qed

lemma getChildren_none:
  assumes holds: "trie_holds T put recs t" and ok: "keys_ok recs" and k: "nul_free k"
    and "below k recs = []" and never: "never_single 0 k recs"
  shows "\<exists>b. getChildren T get t k vec n = Some (b, vec)"
proof (cases rule: locate_ex_cases [OF holds ok k, case_names none node hit miss])
  case (none j)
  then show ?thesis
    using gc_recursive_nonpos [of j t]
    by (auto simp: getChildren_def vacant_at_def t_get_base_eq INVALID_INDEX_def)
next
  case (node j M I B)
  then show ?thesis using assms(4) by (auto elim: node_ok.cases)
next
  case (hit j off q r)
  then show ?thesis using never by (auto simp: never_single_def)
next
  case (miss q r)
  then show ?thesis using never by (auto simp: never_single_def)
qed

lemma getChildren_single:
  assumes holds: "trie_holds T put recs t" and ok: "keys_ok recs" and k: "nul_free k"
    and vals: "\<forall>r\<in>set recs. ok (rec_value r)"
    and single: "below k recs = [r]" and hit: "rec_key r = k \<or> never_single 0 k recs"
  shows "getChildren T get t k vec n =
    Some (True, vec @ (if 0 < n then [\<lparr>kv_key = k, kv_value = rec_value r\<rparr>] else []))"
proof -
  have "r \<in> set (below k recs)" by (simp add: single)
  then have r: "nul_free (rec_key r)" "ok (rec_value r)"
    using ok vals by (auto simp: below_def keys_ok_def)
  show ?thesis
  proof (cases rule: locate_ex_cases [OF holds ok k, case_names none node hit miss])
    case (none j)
    then show ?thesis using single by simp
  next
    case (node j M I B)
    from node(7) [unfolded single] show ?thesis
    proof cases
      case (leaf off)
      then show ?thesis using getChildren_leaf [OF node(1-3) leaf(1) _ r] by simp
    qed simp
  next
    case (hit j off q r')
    then have "r' = r" using below_single_sub [OF hit(6), of r] single by simp
    then show ?thesis
      using getChildren_leaf [OF hit(1-4) _ r, of q] hit(7) by (simp add: leaf_for_def)
  next
    case (miss q r')
    have "r = r'" using below_single_sub [OF miss(3), of r] single by simp
    moreover have "\<not> never_single 0 k recs"
      using miss(2,3) by (auto simp: never_single_def)
    ultimately show ?thesis using miss(4) hit by simp
  qed
qed

text \<open>The defect: the query ends inside the tail of a leaf that does not match it.\<close>

lemma getChildren_whole:
  assumes holds: "trie_holds T put recs t" and ok: "keys_ok recs" and k: "nul_free k"
    and vals: "\<forall>r\<in>set recs. ok (rec_value r) \<and> 255 \<notin> set (rec_key r)"
    and q: "q < length k" "below (take q k) recs = [r]" and diff: "rec_key r \<noteq> k"
    and many: "2 \<le> length recs"
  shows "getChildren T get t k vec n = Some (True, vec @ take (nat n) (map (kv_of k recs) recs))"
proof (cases rule: locate_ex_cases [OF holds ok k, case_names none node hit miss])
  case (none j)
  then show ?thesis using q by (auto simp: never_single_def)
next
  case (node j M I B)
  then show ?thesis using q by (auto simp: never_single_def)
next
  case (hit j off q' r')
  then show ?thesis using below_singles [OF q(2) hit(6)] diff by simp
next
  case (miss q' r')
  let ?da = "arr_list (t_da t)"
  obtain M I B where rep: "elems_owned T (t_table t) M B ?da" "table_ok (t_table t)"
    "INITIAL_INDEX < length ?da"
    "node_ok T ?da (arr_list (it_cont (t_tail t))) (t_table t) put M I B (tr_get_base T (?da ! INITIAL_INDEX)) 0 recs"
    using holds by (rule trie_holdsE)
  have "0 < tr_get_base T (?da ! INITIAL_INDEX)"
    using rep(4) many by (cases rule: node_ok.cases) auto
  then show ?thesis
    using getChildren_node [OF miss(1) _ rep(3) _ rep(1,2,4), of vec n] ok vals
    by (simp add: keys_ok_recs_ok INITIAL_INDEX_def gc_item_def kv_of_def cong: map_cong)
qed

end

end
