(* ===== verification/Das_Image.thy ===== *)
theory Das_Image
  imports Das_Listing
begin

text \<open>
  The image of a trie on disk: what \<^verbatim>\<open>builder::write\<close> writes, \<^verbatim>\<open>trie::assign\<close>
  and \<^verbatim>\<open>trie::read\<close> load again, for both element layouts and as long as the sizes
  fit their 32-bit fields.
\<close>

definition image_size :: "'e da_traits \<Rightarrow> 'e builder \<Rightarrow> nat" where
  "image_size T s = SDAT_CHUNKSIZE + (CHUNKSIZE + NUMCHARS) +
     (CHUNKSIZE + elem_size T * length (m_da s)) + (CHUNKSIZE + length (m_tail s))"

text \<open>The child chunks of an image, each with its header.\<close>

definition chunk_bytes :: "bytes \<Rightarrow> bytes \<Rightarrow> bytes" where
  "chunk_bytes name dat = name @ le32 (word_of_nat (CHUNKSIZE + length dat)) @ dat"

definition da_bytes :: "'e da_traits \<Rightarrow> 'e list \<Rightarrow> bytes" where
  "da_bytes T da = concat (map (elem_image T) da)"

lemma lits [simp]:
  "length (lit ''SDAT'') = 4" "length (lit ''TBLU'') = 4" "length (lit ''TAIL'') = 4"
  "take 4 (lit ''SDAT'') = lit ''SDAT''" "take 4 (lit ''TBLU'') = lit ''TBLU''"
  "take 4 (lit ''TAIL'') = lit ''TAIL''" "lit ''TAIL'' \<noteq> lit ''TBLU''"
  by (simp_all add: lit_def)

lemma length_chunk_bytes [simp]: "length name = 4 \<Longrightarrow> length (chunk_bytes name dat) = CHUNKSIZE + length dat"
  by (simp add: chunk_bytes_def CHUNKSIZE_def)

section \<open>Reading what was written\<close>

lemma read_uint32_at: "off = length pre \<Longrightarrow> read_uint32 (pre @ le32 w @ post) off = Some (4, w)"
  using mem_slice_append [of off pre 4 "le32 w" post] read_le32_le32 [of w "[]"]
  by (simp add: read_uint32_def)

lemma read_chunk_at:
  assumes "off = length pre" "length name = 4"
  shows "read_chunk (pre @ name @ le32 w @ post) off = Some (8, name, w)"
  using assms mem_slice_append [of off pre 4 name "le32 w @ post"]
    read_uint32_at [of "off + 4" "pre @ name" w post]
  by (simp add: read_chunk_def)

lemma unat_u32: "n < 2 ^ 32 \<Longrightarrow> unat (word_of_nat n :: u32) = n"
  by (simp add: unat_of_nat take_bit_nat_eq_self)

lemma chunk_loop_end: "\<not> p < last_p \<Longrightarrow> chunk_loop T block p last_p t = Some t"
  by (subst chunk_loop.simps) simp

lemma chunk_loop_step:
  assumes block: "block = pre @ chunk_bytes name dat @ post" and p: "p = length pre" "p < last_p"
    and name: "length name = 4" and len: "CHUNKSIZE + length dat < 2 ^ 32"
    and app: "apply_chunk T block name (p + CHUNKSIZE) (word_of_nat (length dat)) t = Some t'"
  shows "chunk_loop T block p last_p t = chunk_loop T block (p + (CHUNKSIZE + length dat)) last_p t'"
proof -
  have "read_chunk block p = Some (8, name, word_of_nat (CHUNKSIZE + length dat))"
    using read_chunk_at [OF p(1) name, of _ "dat @ post"] by (simp add: block chunk_bytes_def)
  moreover have "(word_of_nat (CHUNKSIZE + length dat) :: u32) - word_of_nat CHUNKSIZE = word_of_nat (length dat)"
    by simp
  moreover have "unat (word_of_nat (CHUNKSIZE + length dat) :: u32) = CHUNKSIZE + length dat"
    using len by (rule unat_u32)
  moreover have "p + 8 = p + CHUNKSIZE" by (simp add: CHUNKSIZE_def)
  ultimately show ?thesis
    using p(2) app by (subst chunk_loop.simps) simp
qed

lemma dat_slice:
  assumes "block = pre @ chunk_bytes name dat @ post" "p = length pre" "length name = 4"
  shows "mem_slice block (p + CHUNKSIZE) (length dat) = Some dat"
  using mem_slice_append [of "p + CHUNKSIZE" "pre @ name @ le32 (word_of_nat (CHUNKSIZE + length dat))"
      "length dat" dat post] assms
  by (simp add: chunk_bytes_def CHUNKSIZE_def)

context da_traits_laws
begin

lemma length_da_bytes: "length (da_bytes T da) = length da * elem_size T"
  by (induction da) (simp_all add: da_bytes_def length_elem_image)

lemma elements_at_da_bytes: "elements_at T (length da) (da_bytes T da) = da"
proof -
  have "elem_read T (drop (i * elem_size T) (da_bytes T da)) = da ! i" if "i < length da" for i
  proof -
    have "da_bytes T da = da_bytes T (take i da) @ elem_image T (da ! i) @ da_bytes T (drop (Suc i) da)"
      using id_take_nth_drop [OF that] by (metis append.assoc concat.simps(2) concat_append da_bytes_def
          list.simps(9) map_append)
    then show ?thesis
      using length_da_bytes [of "take i da"] that by (simp add: elem_read_image min_def)
  qed
  then show ?thesis by (auto simp: elements_at_def intro!: nth_equalityI)
qed

lemma builder_write_eq:
  "builder_write T s os = os @ lit ''SDAT'' @ le32 (word_of_nat (image_size T s)) @
     le32 (word_of_nat SDAT_CHUNKSIZE) @ le32 (word_of_nat (m_n s)) @
     lit ''TBLU'' @ le32 (word_of_nat (CHUNKSIZE + NUMCHARS)) @ m_table s @
     chunk_bytes (chunk_id T) (da_bytes T (m_da s)) @ chunk_bytes (lit ''TAIL'') (m_tail s)"
  using length_chunk_id
  by (simp add: builder_write_def write_chunk_def write_uint32_def image_size_def chunk_bytes_def
      da_bytes_def length_da_bytes [unfolded da_bytes_def] otail_bytes_def Let_def mult.commute add_ac)

lemma length_builder_write:
  "length (m_table s) = NUMCHARS \<Longrightarrow> length (builder_write T s os) = length os + image_size T s"
  using length_chunk_id
  by (simp add: builder_write_eq image_size_def length_da_bytes SDAT_CHUNKSIZE_def CHUNKSIZE_def NUMCHARS_def)

text \<open>The three chunks of an image.\<close>

lemma chunk_table:
  assumes "block = pre @ chunk_bytes (lit ''TBLU'') tbl @ post" "length tbl = NUMCHARS" "p = length pre" "p < L"
  shows "chunk_loop T block p L t = chunk_loop T block (p + length (chunk_bytes (lit ''TBLU'') tbl)) L (t\<lparr>t_table := tbl\<rparr>)"
proof -
  have "mem_slice block (p + CHUNKSIZE) NUMCHARS = Some tbl" using dat_slice [OF assms(1,3)] assms(2) by simp
  then have "apply_chunk T block (lit ''TBLU'') (p + CHUNKSIZE) (word_of_nat (length tbl)) t = Some (t\<lparr>t_table := tbl\<rparr>)"
    using assms(2) unat_u32 [of NUMCHARS] by (simp add: apply_chunk_def NUMCHARS_def)
  from chunk_loop_step [OF assms(1,3,4) _ _ this] show ?thesis using assms(2) by (simp add: CHUNKSIZE_def NUMCHARS_def)
qed

lemma chunk_array:
  assumes "block = pre @ chunk_bytes (chunk_id T) (da_bytes T da) @ post" "p = length pre" "p < L"
    "CHUNKSIZE + length (da_bytes T da) < 2 ^ 32"
  shows "chunk_loop T block p L t = chunk_loop T block (p + length (chunk_bytes (chunk_id T) (da_bytes T da))) L
    (t\<lparr>t_da := arr_assign (t_da t) (Some da) False\<rparr>)"
proof -
  have "mem_slice block (p + CHUNKSIZE) (length (da_bytes T da)) = Some (da_bytes T da)"
    using dat_slice [OF assms(1,2)] length_chunk_id by simp
  moreover have small: "length (da_bytes T da) < 2 ^ 32" using assms(4) by linarith
  moreover have "unat (word_of_nat (length (da_bytes T da)) :: u32) div elem_size T = length da"
    unfolding unat_u32 [OF small] using elem_size_pos by (simp add: length_da_bytes)
  ultimately have "apply_chunk T block (chunk_id T) (p + CHUNKSIZE) (word_of_nat (length (da_bytes T da))) t =
      Some (t\<lparr>t_da := arr_assign (t_da t) (Some da) False\<rparr>)"
    using chunk_id_fresh length_da_bytes [of da] by (simp add: apply_chunk_def elements_at_da_bytes del: of_nat_mult)
  from chunk_loop_step [OF assms(1-3) length_chunk_id assms(4) this] show ?thesis using length_chunk_id by simp
qed

lemma chunk_tail:
  assumes "block = pre @ chunk_bytes (lit ''TAIL'') tail @ post" "p = length pre" "p < L" "CHUNKSIZE + length tail < 2 ^ 32"
  shows "chunk_loop T block p L t = chunk_loop T block (p + length (chunk_bytes (lit ''TAIL'') tail)) L
    (t\<lparr>t_tail := itail_assign (t_tail t) (Some tail) False\<rparr>)"
proof -
  have "mem_slice block (p + CHUNKSIZE) (length tail) = Some tail" using dat_slice [OF assms(1,2)] by simp
  moreover have "length tail < 2 ^ 32" using assms(4) by linarith
  moreover have "chunk_id T \<noteq> lit ''TAIL''" using chunk_id_fresh by blast
  ultimately have "apply_chunk T block (lit ''TAIL'') (p + CHUNKSIZE) (word_of_nat (length tail)) t =
      Some (t\<lparr>t_tail := itail_assign (t_tail t) (Some tail) False\<rparr>)"
    using unat_u32 by (simp add: apply_chunk_def)
  from chunk_loop_step [OF assms(1-3) _ assms(4) this] show ?thesis by simp
qed

lemma assign_image_write:
  assumes tbl: "length (m_table s) = NUMCHARS" and fits: "image_size T s < 2 ^ 32"
    and sz: "SDAT_CHUNKSIZE \<le> sz"
  shows "\<exists>t'. assign_image T (builder_write T s [] @ rest) sz t = Some (image_size T s, t') \<and>
    t_table t' = m_table s \<and> arr_list (t_da t') = m_da s \<and> arr_list (it_cont (t_tail t')) = m_tail s \<and>
    it_off (t_tail t') = it_off (t_tail t) \<and> t_n t' = Some (m_n s mod 2 ^ 32) \<and> t_block t' = t_block t"
proof -
  define block where "block = builder_write T s [] @ rest"
  define h where "h = lit ''SDAT'' @ le32 (word_of_nat (image_size T s)) @
     le32 (word_of_nat SDAT_CHUNKSIZE) @ le32 (word_of_nat (m_n s))"
  define ct where "ct = chunk_bytes (lit ''TBLU'') (m_table s)"
  define cd where "cd = chunk_bytes (chunk_id T) (da_bytes T (m_da s))"
  define cl where "cl = chunk_bytes (lit ''TAIL'') (m_tail s)"
  let ?L = "image_size T s"
  have b: "block = h @ ct @ cd @ cl @ rest"
    using tbl by (simp add: block_def builder_write_eq h_def ct_def cd_def cl_def chunk_bytes_def)
  have len: "length h = 16" "length ct = CHUNKSIZE + NUMCHARS"
    "length cd = CHUNKSIZE + length (da_bytes T (m_da s))" "length cl = CHUNKSIZE + length (m_tail s)"
    using tbl length_chunk_id by (simp_all add: h_def ct_def cd_def cl_def)
  have total: "?L = length h + length ct + length cd + length cl"
    by (simp add: len image_size_def SDAT_CHUNKSIZE_def length_da_bytes mult.commute)
  define t0 where "t0 = t\<lparr>t_n := Some (m_n s mod 2 ^ 32)\<rparr>"
  define t1 where "t1 = t0\<lparr>t_table := m_table s\<rparr>"
  define t2 where "t2 = t1\<lparr>t_da := arr_assign (t_da t1) (Some (m_da s)) False\<rparr>"
  define t3 where "t3 = t2\<lparr>t_tail := itail_assign (t_tail t2) (Some (m_tail s)) False\<rparr>"
  have bounds: "CHUNKSIZE + length (da_bytes T (m_da s)) < 2 ^ 32" "CHUNKSIZE + length (m_tail s) < 2 ^ 32"
    "length h < ?L" "length (h @ ct) < ?L" "length (h @ ct @ cd) < ?L"
    using fits total len by (simp_all add: CHUNKSIZE_def)
  have "chunk_loop T block (length h) ?L t0 = chunk_loop T block (length (h @ ct)) ?L t1"
    using chunk_table [of block h "m_table s" "cd @ cl @ rest" "length h" ?L t0] b tbl bounds(3) by (simp add: ct_def t1_def)
  also have "\<dots> = chunk_loop T block (length (h @ ct @ cd)) ?L t2"
    using chunk_array [of block "h @ ct" "m_da s" "cl @ rest" "length (h @ ct)" ?L t1] b bounds(1,4) by (simp add: cd_def t2_def add_ac)
  also have "\<dots> = chunk_loop T block ?L ?L t3"
    using chunk_tail [of block "h @ ct @ cd" "m_tail s" rest "length (h @ ct @ cd)" ?L t2] b bounds(2,5) total by (simp add: cl_def t3_def add_ac)
  also have "\<dots> = Some t3" by (rule chunk_loop_end) simp
  finally have loop: "chunk_loop T block 16 ?L t0 = Some t3" by (simp only: len(1))
  have r1: "read_chunk block 0 = Some (8, lit ''SDAT'', word_of_nat ?L)"
    using read_chunk_at [of 0 "[]" "lit ''SDAT''"] b by (simp add: h_def)
  have r2: "read_uint32 block 8 = Some (4, word_of_nat SDAT_CHUNKSIZE)"
    using read_uint32_at [of 8 "lit ''SDAT'' @ le32 (word_of_nat ?L)"] b by (simp add: h_def)
  have r3: "read_uint32 block 12 = Some (4, word_of_nat (m_n s))"
    using read_uint32_at [of 12 "lit ''SDAT'' @ le32 (word_of_nat ?L) @ le32 (word_of_nat SDAT_CHUNKSIZE)"] b
    by (simp add: h_def)
  have "assign_image T block sz t = Some (?L, t3)"
    using sz r1 r2 r3 loop unat_u32 [OF fits] unat_u32 [of SDAT_CHUNKSIZE]
    by (simp add: assign_image_def t0_def SDAT_CHUNKSIZE_def unat_of_nat take_bit_eq_mod)
      (simp add: t3_def t2_def itail_assign_def)
  then show ?thesis
    unfolding block_def by (intro exI [of _ t3]) (simp add: t3_def t2_def t1_def t0_def itail_assign_def)
qed

end

end
