(* ===== verification/Das_Props.thy ===== *)
theory Das_Props
  imports Das_Image
begin

text \<open>
  The properties of the trie library on the instance the program uses: five-byte elements
  and \<^verbatim>\<open>string_array\<close> values. An index is built (\<^verbatim>\<open>builder::build\<close>), written
  (\<^verbatim>\<open>builder::write\<close>), loaded (\<^verbatim>\<open>trie::assign\<close>) and searched. The bound on the image
  is the width of its 32-bit size field.
\<close>

interpretation das5: das_builder_laws doublearray5_traits string_array_put string_array_get string_array_ok
  ..

interpretation das4: das_builder_laws doublearray4_traits empty_type_put empty_type_get "\<lambda>_. True"
  ..

lemma string_array_put_nonempty: "string_array_put [] v \<noteq> []"
  by (simp add: string_array_put_eq le32_def)

lemma comp_freq_sort: "std_sort_ok comp_freq (isort_by comp_freq)"
  by (rule isort_by_ok) (auto simp: comp_freq_def)

section \<open>Built, written and loaded\<close>

definition loads :: "element5 builder \<Rightarrow> element5 trie \<Rightarrow> bool" where
  "loads s t \<longleftrightarrow> assign_image doublearray5_traits (builder_write doublearray5_traits s [])
     (image_size doublearray5_traits s) trie_new = Some (image_size doublearray5_traits s, t)"

lemma loads_holds:
  fixes s :: "element5 builder"
  assumes rep: "represents doublearray5_traits put recs (m_da s) (m_tail s) (m_table s)"
    and fits: "image_size doublearray5_traits s < 2 ^ 32"
  shows "\<exists>t. loads s t \<and> trie_holds doublearray5_traits put recs t"
proof -
  have tbl: "length (m_table s) = NUMCHARS" using rep by (simp add: represents_def table_ok_def)
  have "SDAT_CHUNKSIZE \<le> image_size doublearray5_traits s" by (simp add: image_size_def)
  from da5.assign_image_write [OF tbl fits this, of "[]" trie_new] rep show ?thesis
    by (auto simp: loads_def trie_holds_def)
qed

lemma build_loads:
  fixes s0 :: "element5 builder"
  assumes "std_sort_ok comp_freq srt" "keys_ok recs" "recs \<noteq> []"
    and "\<And>s t. trie_holds doublearray5_traits string_array_put recs t \<Longrightarrow> P s t"
  shows "outcome_ok (build doublearray5_traits string_array_put srt recs s0)
    (\<lambda>s. 2 ^ 32 \<le> image_size doublearray5_traits s \<or> (\<exists>t. loads s t \<and> P s t))"
proof (rule outcome_ok_mono [OF das5.build_represents [OF assms(1-3)]])
  fix s :: "element5 builder"
  assume rep: "represents doublearray5_traits string_array_put recs (m_da s) (m_tail s) (m_table s)"
  show "2 ^ 32 \<le> image_size doublearray5_traits s \<or> (\<exists>t. loads s t \<and> P s t)"
  proof (cases "image_size doublearray5_traits s < 2 ^ 32")
    case True
    with loads_holds [OF rep True] assms(4) show ?thesis by blast
  qed simp
qed

text \<open>C2: Building an index from sorted records, writing its image and loading it gives a trie in which
  \<^verbatim>\<open>find\<close> is exactly the lookup of the key among the records, whatever order
  \<^verbatim>\<open>std::sort\<close> gives equal frequencies. The builder always returns, its only exceptions
  are the two for lack of space, and no read leaves an array.\<close>

theorem built_index_find:
  assumes "std_sort_ok comp_freq srt" "keys_ok recs" "recs \<noteq> []" "nul_free k"
    and "\<forall>r\<in>set recs. string_array_ok (rec_value r)"
  shows "outcome_ok (build doublearray5_traits string_array_put srt recs builder_new)
    (\<lambda>s. 2 ^ 32 \<le> image_size doublearray5_traits s \<or>
       (\<exists>t. loads s t \<and>
          (\<exists>t'. find doublearray5_traits string_array_get t k = Some (records_map recs k, t'))))"
proof (rule build_loads [OF assms(1-3)])
  fix t assume "trie_holds doublearray5_traits string_array_put recs t"
  then show "\<exists>t'. find doublearray5_traits string_array_get t k = Some (records_map recs k, t')"
    using das5.find_ok [of recs t k] assms(2,4,5) string_array_put_nonempty by blast
qed

definition two_records :: "string_array das_record list" where
  "two_records = [\<lparr>rec_key = lit ''ab'', rec_value = []\<rparr>, \<lparr>rec_key = lit ''abc'', rec_value = []\<rparr>]"

lemma two_records_ok:
  "keys_ok two_records" "two_records \<noteq> []" "\<forall>r\<in>set two_records. string_array_ok (rec_value r)"
  "\<forall>r\<in>set two_records. 255 \<notin> set (rec_key r)"
  by (simp_all add: two_records_def keys_ok_def string_array_ok_def lit_def)

theorem built_index_find_witness:
  "outcome_ok (build doublearray5_traits string_array_put (isort_by comp_freq) two_records builder_new)
    (\<lambda>s. 2 ^ 32 \<le> image_size doublearray5_traits s \<or>
       (\<exists>t. loads s t \<and> (\<exists>t'. find doublearray5_traits string_array_get t (lit ''ab'') =
          Some (records_map two_records (lit ''ab''), t'))))"
  by (rule built_index_find [OF comp_freq_sort two_records_ok(1,2) _ two_records_ok(3)])
    (simp add: lit_def)



text \<open>C20: A defect of \<^verbatim>\<open>locate_ex\<close>. When the characters of the query single out one record
  before the query ends, and the query is not that record's whole key (the query may even be a
  prefix of it), \<^verbatim>\<open>getChildren\<close> does not answer with that record or with nothing: it lists
  the records of the whole trie, each key string with the query in front of it.\<close>

theorem built_index_prefix_whole_trie:
  assumes "std_sort_ok comp_freq srt" "keys_ok recs" "nul_free k"
    and "\<forall>r\<in>set recs. string_array_ok (rec_value r)" "\<forall>r\<in>set recs. 255 \<notin> set (rec_key r)"
    and "2 \<le> length recs" "q < length k" "below (take q k) recs = [r]" "rec_key r \<noteq> k"
  shows "outcome_ok (build doublearray5_traits string_array_put srt recs builder_new)
    (\<lambda>s. 2 ^ 32 \<le> image_size doublearray5_traits s \<or>
       (\<exists>t. loads s t \<and> getChildren doublearray5_traits string_array_get t k vec n =
          Some (True, vec @ take (nat n) (map (kv_of k recs) recs))))"
proof (rule build_loads [OF assms(1,2)])
  show "recs \<noteq> []" using assms(6) by auto
  fix t assume "trie_holds doublearray5_traits string_array_put recs t"
  from das5.getChildren_whole [OF this assms(2,3) _ assms(7,8,9,6)] assms(4,5)
  show "getChildren doublearray5_traits string_array_get t k vec n =
    Some (True, vec @ take (nat n) (map (kv_of k recs) recs))" by blast
qed

definition apple_and_bee :: "string_array das_record list" where
  "apple_and_bee = [\<lparr>rec_key = lit ''apple'', rec_value = []\<rparr>, \<lparr>rec_key = lit ''bee'', rec_value = []\<rparr>]"

theorem built_index_prefix_whole_trie_witness:
  "outcome_ok (build doublearray5_traits string_array_put (isort_by comp_freq) apple_and_bee builder_new)
    (\<lambda>s. 2 ^ 32 \<le> image_size doublearray5_traits s \<or>
       (\<exists>t. loads s t \<and> getChildren doublearray5_traits string_array_get t (lit ''ap'') [] 10 =
          Some (True, [] @ take (nat 10) (map (kv_of (lit ''ap'') apple_and_bee) apple_and_bee))))"
  by (rule built_index_prefix_whole_trie [OF comp_freq_sort, where q = 1 and r = "hd apple_and_bee"])
    (simp_all add: lit_def apple_and_bee_def below_def has_prefix_def keys_ok_def string_array_ok_def)





text \<open>C11: The image of any builder state with a full character table is read back: \<^verbatim>\<open>assign\<close>
  uses all of it and restores the table, the double array, the tail and the number of records,
  whatever follows the image in memory.\<close>

theorem image_round_trip:
  assumes "length (m_table s) = NUMCHARS" "image_size doublearray5_traits s < 2 ^ 32"
  shows "\<exists>t. assign_image doublearray5_traits (builder_write doublearray5_traits s [] @ rest)
      (image_size doublearray5_traits s) trie_new = Some (image_size doublearray5_traits s, t) \<and>
    t_table t = m_table s \<and> arr_list (t_da t) = m_da s \<and> arr_list (it_cont (t_tail t)) = m_tail s \<and>
    t_n t = Some (m_n s mod 2 ^ 32)"
proof -
  have "SDAT_CHUNKSIZE \<le> image_size doublearray5_traits s" by (simp add: image_size_def)
  from da5.assign_image_write [OF assms this, of rest trie_new] show ?thesis by blast
qed

theorem image_round_trip_witness:
  "\<exists>t. assign_image doublearray5_traits (builder_write doublearray5_traits builder_new [] @ [1, 2])
      (image_size doublearray5_traits builder_new) trie_new =
        Some (image_size doublearray5_traits builder_new, t) \<and>
    t_table t = m_table (builder_new :: element5 builder) \<and> arr_list (t_da t) = m_da builder_new \<and>
    arr_list (it_cont (t_tail t)) = m_tail (builder_new :: element5 builder) \<and>
    t_n t = Some (m_n (builder_new :: element5 builder) mod 2 ^ 32)"
  by (rule image_round_trip)
    (simp_all add: builder_new_def image_size_def otail_new_def das_consts)

end
