(* ===== verification/Pm_Util.thy ===== *)
theory Pm_Util
  imports Pm_Prelude
begin

text \<open>
  util.cpp, shared by the indexer and the server: trimming and splitting of strings, the
  length of a UTF-8 character, the checked conversions of numbers, the tokenizer, the
  in-place splitting and filtering of a C buffer and the creation of directories. A
  \<^verbatim>\<open>std::string\<close> or a C string argument is the list of its bytes; a buffer that is
  modified in place is the list of its bytes, terminator included.
\<close>

section \<open>Trimming\<close>

text \<open>The number of leading bytes in \<open>s\<close>, and the length without the trailing ones.\<close>

fun skip_left :: "bytes \<Rightarrow> bytes \<Rightarrow> nat" where
  "skip_left s [] = 0"
| "skip_left s (c # cs) = (if c \<in> set s then Suc (skip_left s cs) else 0)"

fun skip_right :: "bytes \<Rightarrow> bytes \<Rightarrow> nat \<Rightarrow> nat" where
  "skip_right s str 0 = 0"
| "skip_right s str (Suc n) = (if str ! n \<in> set s then skip_right s str n else Suc n)"

definition trimleft :: "bytes \<Rightarrow> bytes \<Rightarrow> bool \<Rightarrow> bytes" where
  "trimleft str s bChar =
     (if str = [] then str
      else if \<not> bChar then
        (if length str < length s then str
         else if take (length s) str = s then drop (length s) str else str)
      else let pos = skip_left s str in if pos = 0 then str else drop pos str)"

definition trimright :: "bytes \<Rightarrow> bytes \<Rightarrow> bool \<Rightarrow> bytes" where
  "trimright str s bChar =
     (if str = [] then str
      else if \<not> bChar then
        (if length str < length s then str
         else if drop (length str - length s) str = s then take (length str - length s) str else str)
      else let pos = skip_right s str (length str)
           in if pos = length str then str else take pos str)"

definition trim :: "bytes \<Rightarrow> bytes \<Rightarrow> bool \<Rightarrow> bytes" where
  "trim str s bChar =
     (if str = [] then str
      else if \<not> bChar then trimright (trimleft str s False) s False
      else trimright (trimleft str s True) s True)"

lemma skip_left_drop: "drop (skip_left s str) str = dropWhile (\<lambda>c. c \<in> set s) str"
  by (induction str) auto

lemma skip_right_take:
  "n \<le> length str \<Longrightarrow> take (skip_right s str n) str = rev (dropWhile (\<lambda>c. c \<in> set s) (rev (take n str)))"
  by (induction n) (auto simp: take_Suc_conv_app_nth)

lemma trimleft_chars: "trimleft str s True = dropWhile (\<lambda>c. c \<in> set s) str"
  using skip_left_drop [of s str] by (auto simp: trimleft_def Let_def)

lemma trimright_chars: "trimright str s True = rev (dropWhile (\<lambda>c. c \<in> set s) (rev str))"
  using skip_right_take [of "length str" str s] by (auto simp: trimright_def Let_def)

lemma trim_chars:
  "trim str s True = rev (dropWhile (\<lambda>c. c \<in> set s) (rev (dropWhile (\<lambda>c. c \<in> set s) str)))"
  by (simp add: trim_def trimleft_chars trimright_chars)

section \<open>Splitting a string\<close>

definition strto :: "bytes \<Rightarrow> bytes" where "strto s = s"

definition find_first_of :: "bytes \<Rightarrow> bytes \<Rightarrow> nat \<Rightarrow> nat option" where
  "find_first_of str set_of pos =
     (let n = length (takeWhile (\<lambda>c. c \<notin> set set_of) (drop pos str))
      in if pos + n < length str then Some (pos + n) else None)"

lemma find_first_of_bound: "find_first_of str sep pos = Some i \<Longrightarrow> pos \<le> i \<and> i < length str"
  by (auto simp: find_first_of_def Let_def split: if_splits)

definition sep_emit :: "bool \<Rightarrow> bytes \<Rightarrow> bytes list" where
  "sep_emit withEmpty s = (if withEmpty then [strto s] else if s \<noteq> [] then [strto s] else [])"

function sepstr_loop :: "bytes \<Rightarrow> bytes \<Rightarrow> bool \<Rightarrow> nat \<Rightarrow> bytes list \<Rightarrow> bytes list" where
  "sepstr_loop str sep withEmpty pos vt =
     (case find_first_of str sep pos of
        None \<Rightarrow> vt @ sep_emit withEmpty (if pos + 1 \<le> length str then drop pos str else [])
      | Some pos1 \<Rightarrow>
          if pos1 = pos then sepstr_loop str sep withEmpty (pos + 1) (vt @ sep_emit withEmpty [])
          else sepstr_loop str sep withEmpty (pos1 + 1)
                 (vt @ sep_emit withEmpty (take (pos1 - pos) (drop pos str))))"
  by pat_completeness auto

termination
  by (relation "measure (\<lambda>(str, sep, we, pos, vt). length str + 1 - pos)")
    (auto dest!: find_first_of_bound)

declare sepstr_loop.simps [simp del]

definition sepstr :: "bytes \<Rightarrow> bytes \<Rightarrow> bool \<Rightarrow> bytes list" where
  "sepstr str sep withEmpty = sepstr_loop str sep withEmpty 0 []"

text \<open>The reference: the fields between the separators.\<close>

fun fields_of :: "byte set \<Rightarrow> bytes \<Rightarrow> bytes list" where
  "fields_of sep [] = [[]]"
| "fields_of sep (c # cs) = (if c \<in> sep then [] # fields_of sep cs
     else (c # hd (fields_of sep cs)) # tl (fields_of sep cs))"

lemma fields_nonempty [simp]: "fields_of sep s \<noteq> []"
  by (induction s) auto

lemma fields_no_sep: "\<forall>c\<in>set s. c \<notin> sep \<Longrightarrow> fields_of sep s = [s]"
  by (induction s) auto

lemma fields_split: "\<forall>c\<in>set w. c \<notin> sep \<Longrightarrow> c \<in> sep \<Longrightarrow> fields_of sep (w @ c # rest) = w # fields_of sep rest"
  by (induction w) auto

lemma find_first_of_None:
  "find_first_of str sep pos = None \<Longrightarrow> \<forall>c\<in>set (drop pos str). c \<notin> set sep"
proof (rule ccontr)
  assume none: "find_first_of str sep pos = None" and "\<not> (\<forall>c\<in>set (drop pos str). c \<notin> set sep)"
  then have "length (takeWhile (\<lambda>c. c \<notin> set sep) (drop pos str)) < length (drop pos str)"
    using length_takeWhile_le [of "\<lambda>c. c \<notin> set sep" "drop pos str"]
      takeWhile_eq_all_conv [of "\<lambda>c. c \<notin> set sep" "drop pos str"]
    by (metis linorder_neqE_nat not_le takeWhile_eq_take take_all_iff order_refl)
  with none show False by (simp add: find_first_of_def Let_def split: if_splits)
qed

lemma find_first_of_Some:
  assumes "find_first_of str sep pos = Some i"
  shows "\<exists>w c. drop pos str = w @ c # drop (i + 1) str \<and> length w = i - pos \<and>
    (\<forall>c\<in>set w. c \<notin> set sep) \<and> c \<in> set sep"
proof -
  let ?w = "takeWhile (\<lambda>c. c \<notin> set sep) (drop pos str)"
  have i: "i = pos + length ?w" "i < length str"
    using assms by (auto simp: find_first_of_def Let_def split: if_splits)
  have d: "drop pos str = ?w @ drop i str"
    using takeWhile_dropWhile_id [of "\<lambda>c. c \<notin> set sep" "drop pos str"] i(1)
    by (simp add: dropWhile_eq_drop add.commute)
  moreover have "drop i str = str ! i # drop (i + 1) str"
    using i(2) by (simp add: Cons_nth_drop_Suc)
  moreover have "str ! i \<in> set sep"
  proof -
    have "length ?w < length (drop pos str)" using i by simp
    from nth_length_takeWhile [OF this] i show ?thesis by simp
  qed
  ultimately show ?thesis using i(1) by (auto dest: set_takeWhileD)
qed

lemma sepstr_loop_fields:
  "pos \<le> length str \<Longrightarrow> sepstr_loop str sep we pos vt =
    vt @ concat (map (sep_emit we) (fields_of (set sep) (drop pos str)))"
proof (induction str sep we pos vt rule: sepstr_loop.induct)
  case (1 str sep we pos vt)
  show ?case
  proof (cases "find_first_of str sep pos")
    case None
    then have "fields_of (set sep) (drop pos str) = [drop pos str]"
      by (intro fields_no_sep find_first_of_None)
    then show ?thesis
      using None 1(3) by (subst sepstr_loop.simps) (auto simp: not_le)
  next
    case (Some i)
    then obtain w c where w: "drop pos str = w @ c # drop (i + 1) str" "length w = i - pos"
      "\<forall>c\<in>set w. c \<notin> set sep" "c \<in> set sep"
      using find_first_of_Some by blast
    have i: "pos \<le> i" "i < length str" using find_first_of_bound [OF Some] by auto
    have f: "fields_of (set sep) (drop pos str) = w # fields_of (set sep) (drop (i + 1) str)"
      unfolding w(1) by (rule fields_split [OF w(3,4)])
    have tk: "take (i - pos) (drop pos str) = w" using w(1,2) by simp
    show ?thesis
    proof (cases "i = pos")
      case True
      then have "w = []" using w(2) by simp
      then show ?thesis
        using 1(1) [OF Some True] Some True i f by (subst sepstr_loop.simps) simp
    next
      case False
      then show ?thesis
        using 1(2) [OF Some False] Some i f tk by (subst sepstr_loop.simps) simp
    qed
  qed
qed

lemma sepstr_fields: "sepstr str sep we = concat (map (sep_emit we) (fields_of (set sep) str))"
  by (simp add: sepstr_def sepstr_loop_fields)

lemma concat_sep_emit [simp]:
  "concat (map (sep_emit True) ws) = ws"
  "concat (map (sep_emit False) ws) = filter (\<lambda>w. w \<noteq> []) ws"
  by (induction ws) (auto simp: sep_emit_def strto_def)

section \<open>The length of a UTF-8 character\<close>

text \<open>From the first byte of a C string, which is 0 at its end.\<close>

definition getUTF8Len :: "byte \<Rightarrow> nat" where
  "getUTF8Len b =
     (if b = 0 then 0
      else if b < 0x80 then 1
      else if drop_bit 5 b = 0x6 then 2
      else if drop_bit 4 b = 0xe then 3
      else if drop_bit 3 b = 0x1e then 4
      else 0)"

section \<open>Checked conversions of numbers\<close>

text \<open>
  The scan of \<^verbatim>\<open>strtol\<close> and its relatives in base 10 and the C locale: white space, a
  sign, digits; the sign, the value and what follows, or \<^term>\<open>None\<close> without a digit.
\<close>

definition isspace :: "byte \<Rightarrow> bool" where
  "isspace c \<longleftrightarrow> c = 32 \<or> (9 \<le> c \<and> c \<le> 13)"

definition isdigit :: "byte \<Rightarrow> bool" where
  "isdigit c \<longleftrightarrow> 48 \<le> c \<and> c \<le> 57"

definition dec_value :: "bytes \<Rightarrow> nat" where
  "dec_value ds = foldl (\<lambda>n d. 10 * n + (unat d - 48)) 0 ds"

definition strto_scan :: "bytes \<Rightarrow> (bool \<times> nat \<times> bytes) option" where
  "strto_scan str =
     (let s1 = dropWhile isspace str;
          neg = (s1 \<noteq> [] \<and> hd s1 = 45);
          s2 = (if s1 \<noteq> [] \<and> (hd s1 = 45 \<or> hd s1 = 43) then tl s1 else s1);
          ds = takeWhile isdigit s2
      in if ds = [] then None else Some (neg, dec_value ds, drop (length ds) s2))"

definition strtoull :: "bytes \<Rightarrow> (64 word \<times> bytes) option" where
  "strtoull str = (case strto_scan str of None \<Rightarrow> None
     | Some (neg, v, rest) \<Rightarrow> if 2 ^ 64 \<le> v then None
         else Some (if neg then - word_of_nat v else word_of_nat v, rest))"

definition strtoll :: "bytes \<Rightarrow> (int \<times> bytes) option" where
  "strtoll str = (case strto_scan str of None \<Rightarrow> None
     | Some (neg, v, rest) \<Rightarrow>
         (let i = (if neg then - int v else int v)
          in if i < - (2 ^ 63) \<or> 2 ^ 63 \<le> i then None else Some (i, rest)))"

text \<open>
  \<^term>\<open>None\<close> of the two functions stands for no conversion (\<^verbatim>\<open>str == endptr\<close>) or
  \<^verbatim>\<open>ERANGE\<close>, which every caller treats alike. \<^verbatim>\<open>long\<close> has 64 bits. The result is
  the flag returned and the value left in \<^verbatim>\<open>*out\<close>.
\<close>

definition end_ok :: "bytes \<Rightarrow> bool" where
  "end_ok rest \<longleftrightarrow> rest = [] \<or> isspace (hd rest)"

definition safe_strtoull :: "bytes \<Rightarrow> bool \<times> 64 word" where
  "safe_strtoull str = (case strtoull str of None \<Rightarrow> (False, 0)
     | Some (ull, rest) \<Rightarrow>
         if end_ok rest then (if sint ull < 0 \<and> 45 \<in> set str then (False, 0) else (True, ull))
         else (False, 0))"

definition safe_strtoll :: "bytes \<Rightarrow> bool \<times> int" where
  "safe_strtoll str = (case strtoll str of None \<Rightarrow> (False, 0)
     | Some (ll, rest) \<Rightarrow> if end_ok rest then (True, ll) else (False, 0))"

definition safe_strtoul :: "bytes \<Rightarrow> bool \<times> u32" where
  "safe_strtoul str = (case strtoull str of None \<Rightarrow> (False, 0)
     | Some (l, rest) \<Rightarrow>
         if end_ok rest then (if sint l < 0 \<and> 45 \<in> set str then (False, 0) else (True, ucast l))
         else (False, 0))"

definition safe_strtol :: "bytes \<Rightarrow> bool \<times> u32" where
  "safe_strtol str = (case strtoll str of None \<Rightarrow> (False, 0)
     | Some (l, rest) \<Rightarrow> if end_ok rest then (True, word_of_int l) else (False, 0))"

lemma isdigit_not_space: "isdigit c \<Longrightarrow> \<not> isspace c \<and> c \<noteq> 45 \<and> c \<noteq> 43"
  by (auto simp: isdigit_def isspace_def word_le_nat_alt)

lemma strto_scan_digits:
  assumes "ds \<noteq> []" "\<forall>d\<in>set ds. isdigit d"
  shows "strto_scan ds = Some (False, dec_value ds, [])"
proof -
  obtain d ds' where ds: "ds = d # ds'" using assms(1) by (cases ds) auto
  then have d: "\<not> isspace d" "d \<noteq> 45" "d \<noteq> 43" using assms(2) isdigit_not_space by auto
  have "takeWhile isdigit ds = ds" using assms(2) by (simp add: takeWhile_eq_all_conv)
  then show ?thesis using d by (simp add: strto_scan_def Let_def ds)
qed

section \<open>Byte order\<close>

text \<open>\<open>endian_little\<close> is whether the macro \<^verbatim>\<open>ENDIAN_LITTLE\<close> is defined; no file defines it.\<close>

fun swap_loop :: "nat \<Rightarrow> 64 word \<Rightarrow> 64 word \<Rightarrow> 64 word" where
  "swap_loop 0 rv inp = rv"
| "swap_loop (Suc n) rv inp = swap_loop n (push_bit 8 rv OR (inp AND 0xff)) (drop_bit 8 inp)"

definition mc_swap64 :: "bool \<Rightarrow> 64 word \<Rightarrow> 64 word" where
  "mc_swap64 endian_little inp = (if endian_little then swap_loop 8 0 inp else inp)"

definition ntohll :: "bool \<Rightarrow> 64 word \<Rightarrow> 64 word" where "ntohll el val = mc_swap64 el val"

definition htonll :: "bool \<Rightarrow> 64 word \<Rightarrow> 64 word" where "htonll el val = mc_swap64 el val"

section \<open>The tokenizer\<close>

text \<open>A token's value is an offset into the command, or the null pointer.\<close>

record token_t =
  tk_value :: "nat option"
  tk_length :: nat

text \<open>
  The loop over the \<^verbatim>\<open>len\<close> characters; \<^verbatim>\<open>e\<close> is \<^verbatim>\<open>command + i\<close>. The result is the
  buffer, \<^verbatim>\<open>s\<close>, \<^verbatim>\<open>e\<close> and the tokens. The command is shorter than \<^verbatim>\<open>2^32\<close>.
\<close>

function tok_loop :: "nat \<Rightarrow> nat \<Rightarrow> nat \<Rightarrow> nat \<Rightarrow> bytes \<Rightarrow> token_t list \<Rightarrow> bytes \<times> nat \<times> nat \<times> token_t list" where
  "tok_loop max_tokens len i s buf toks =
     (if i < len then
        (if buf ! i = 32 then
           (if s \<noteq> i then
              (let toks' = toks @ [\<lparr>tk_value = Some s, tk_length = i - s\<rparr>];
                   buf' = buf[i := 0]
               in if length toks' = max_tokens - 1 then (buf', i + 1, i + 1, toks')
                  else tok_loop max_tokens len (i + 1) (i + 1) buf' toks')
            else tok_loop max_tokens len (i + 1) (i + 1) buf toks)
         else tok_loop max_tokens len (i + 1) s buf toks)
      else (buf, s, i, toks))"
  by pat_completeness auto

termination
  by (relation "measure (\<lambda>(mx, len, i, s, buf, toks). len - i)") auto

declare tok_loop.simps [simp del]

definition tokenize_command :: "bytes \<Rightarrow> nat \<Rightarrow> (bytes \<times> token_t list) option" where
  "tokenize_command command max_tokens =
     (case strlen_at command 0 of None \<Rightarrow> None
      | Some len \<Rightarrow>
          if max_tokens \<le> 1 then None \<comment> \<open>the assertion fails\<close>
          else case tok_loop max_tokens len 0 0 command [] of (buf, s, e, toks) \<Rightarrow>
            (let toks1 = (if s \<noteq> e then toks @ [\<lparr>tk_value = Some s, tk_length = e - s\<rparr>] else toks)
             in Some (buf, toks1 @ [\<lparr>tk_value = (if buf ! e = 0 then None else Some e), tk_length = 0\<rparr>])))"

section \<open>Splitting and filtering a buffer in place\<close>

definition MAX_KEYWORD_LENGTH :: nat where "MAX_KEYWORD_LENGTH = 1024"

text \<open>
  \<^verbatim>\<open>strchr(&buf[off], c)\<close>: \<^term>\<open>None\<close> when it runs off the array, otherwise the index found.
\<close>

definition strchr_at :: "bytes \<Rightarrow> nat \<Rightarrow> byte \<Rightarrow> nat option option" where
  "strchr_at buf off c =
     (let n = off + length (takeWhile (\<lambda>b. b \<noteq> 0 \<and> b \<noteq> c) (drop off buf))
      in if n < length buf then Some (if buf ! n = c then Some n else None) else None)"

lemma strchr_at_bound: "strchr_at buf off c = Some (Some i) \<Longrightarrow> off \<le> i \<and> i < length buf"
  by (auto simp: strchr_at_def Let_def split: if_splits)

text \<open>The result: the offsets stored in \<^verbatim>\<open>dest\<close> (\<^verbatim>\<open>*size\<close> is their number) and the buffer.\<close>

function psf_loop :: "byte \<Rightarrow> nat \<Rightarrow> bytes \<Rightarrow> nat list \<Rightarrow> (nat list \<times> bytes) option" where
  "psf_loop split head buf dest =
     (if MAX_KEYWORD_LENGTH \<le> length dest then Some (dest, buf)
      else case strchr_at buf head split of
        None \<Rightarrow> None
      | Some None \<Rightarrow> Some (dest @ [head], buf)
      | Some (Some i) \<Rightarrow> psf_loop split (i + 1) (buf[i := 0]) (dest @ [head]))"
  by pat_completeness auto

termination
  by (relation "measure (\<lambda>(split, head, buf, dest). length buf - head)")
    (auto dest!: strchr_at_bound)

declare psf_loop.simps [simp del]

definition parse_string_fast :: "bytes \<Rightarrow> byte \<Rightarrow> (nat list \<times> bytes) option" where
  "parse_string_fast str split = psf_loop split 0 str []"

text \<open>\<^verbatim>\<open>strchr(delchs, c) != NULL\<close> also holds for the terminator of \<^verbatim>\<open>delchs\<close>.\<close>

fun delstr_loop :: "bytes \<Rightarrow> nat \<Rightarrow> nat \<Rightarrow> nat \<Rightarrow> bytes \<Rightarrow> nat \<times> bytes" where
  "delstr_loop delchs 0 i span buf = (span, buf)"
| "delstr_loop delchs (Suc n) i span buf =
     (if buf ! i \<in> set delchs \<or> buf ! i = 0 then delstr_loop delchs n (i + 1) (span + 1) buf
      else if 0 < span then delstr_loop delchs n (i + 1) span (buf[i - span := buf ! i])
      else delstr_loop delchs n (i + 1) span buf)"

fun clear_from :: "nat \<Rightarrow> nat \<Rightarrow> bytes \<Rightarrow> bytes" where
  "clear_from i 0 buf = buf"
| "clear_from i (Suc n) buf = clear_from (i + 1) n (buf[i := 0])"

definition delstr :: "bytes \<Rightarrow> bytes \<Rightarrow> (nat \<times> bytes) option" where
  "delstr str delchs =
     (case strlen_at str 0 of None \<Rightarrow> None
      | Some sz \<Rightarrow> (case delstr_loop delchs sz 0 0 str of (span, buf) \<Rightarrow>
          Some (sz - span, clear_from (sz - span) span buf)))"

section \<open>Files\<close>

text \<open>
  The calls on the file system are parameters: whether a path is a directory, may be
  written, exists, and \<^verbatim>\<open>mkdir\<close>, which reports success and changes the file system.
\<close>

record 'fs fs_ops =
  fs_is_dir :: "bytes \<Rightarrow> 'fs \<Rightarrow> bool"
  fs_writable :: "bytes \<Rightarrow> 'fs \<Rightarrow> bool"
  fs_exists :: "bytes \<Rightarrow> 'fs \<Rightarrow> bool"
  fs_mkdir :: "bytes \<Rightarrow> 'fs \<Rightarrow> bool \<times> 'fs"

definition file_exist :: "'fs fs_ops \<Rightarrow> bytes \<Rightarrow> 'fs \<Rightarrow> bool" where
  "file_exist ops file fs = fs_exists ops file fs"

definition slash_from :: "bytes \<Rightarrow> nat \<Rightarrow> nat option" where
  "slash_from path n = find_first_of path [47] n"

function mkdir_loop :: "'fs fs_ops \<Rightarrow> bytes \<Rightarrow> nat \<Rightarrow> 'fs \<Rightarrow> bool \<times> 'fs" where
  "mkdir_loop ops path tmp_len fs =
     (if length path < tmp_len then (True, fs)
      else case slash_from path tmp_len of
        None \<Rightarrow> fs_mkdir ops path fs
      | Some pos \<Rightarrow> mkdir_loop ops path (pos + 1) (snd (fs_mkdir ops (take pos path) fs)))"
  by pat_completeness auto

termination
  by (relation "measure (\<lambda>(ops, path, n, fs). length path + 1 - n)")
    (auto simp: slash_from_def dest!: find_first_of_bound)

declare mkdir_loop.simps [simp del]

definition mkdir_recursive :: "'fs fs_ops \<Rightarrow> bytes \<Rightarrow> 'fs \<Rightarrow> bool \<times> 'fs" where
  "mkdir_recursive ops path fs =
     (if fs_is_dir ops path fs then (fs_writable ops path fs, fs)
      else mkdir_loop ops path 0 fs)"

end
