(* ===== verification/Pm_Util_Props.thy ===== *)
theory Pm_Util_Props
  imports Pm_Util
begin

text \<open>
  What the functions of util.cpp compute: the splitters are the fields of the string, the
  tokenizer its words, \<^verbatim>\<open>delstr\<close> a filter, and the checked conversions the decimal value
  reduced to the width of the result.
\<close>

section \<open>Strings\<close>

text \<open>C25: \<^verbatim>\<open>sepstr\<close> returns the fields between the separators, and without \<^verbatim>\<open>withEmpty\<close>
  the fields that are not empty.\<close>

theorem sepstr_spec:
  "sepstr str sep True = fields_of (set sep) str \<and>
   sepstr str sep False = filter (\<lambda>s. s \<noteq> []) (fields_of (set sep) str)"
  by (simp add: sepstr_fields)

text \<open>\<^verbatim>\<open>trim\<close> with a set of characters removes characters of the set from both ends, and
  nothing else, until neither end is one of them.\<close>

theorem trim_spec:
  "\<exists>pre post. str = pre @ trim str s True @ post \<and> set pre \<subseteq> set s \<and> set post \<subseteq> set s \<and>
     (trim str s True = [] \<or> hd (trim str s True) \<notin> set s \<and> last (trim str s True) \<notin> set s)"
proof -
  let ?P = "\<lambda>c. c \<in> set s"
  let ?a = "dropWhile ?P str"
  let ?t = "rev (dropWhile ?P (rev ?a))"
  have "str = takeWhile ?P str @ ?t @ rev (takeWhile ?P (rev ?a))"
    using takeWhile_dropWhile_id [of ?P "rev ?a"] takeWhile_dropWhile_id [of ?P str]
    by (metis rev_append rev_rev_ident)
  moreover have "set (takeWhile ?P xs) \<subseteq> set s" "set (rev (takeWhile ?P xs)) \<subseteq> set s" for xs
    using set_takeWhileD [of _ ?P xs] by auto
  moreover have "?t = [] \<or> hd ?t \<notin> set s \<and> last ?t \<notin> set s"
  proof (cases "dropWhile ?P (rev ?a) = []")
    case False
    then have l: "last ?t \<notin> set s" using hd_dropWhile [OF False] by (simp add: last_rev)
    have "?a \<noteq> []" using False by (metis dropWhile.simps(1) rev.simps(1))
    then have "hd ?a \<notin> set s" by (rule hd_dropWhile)
    moreover have "hd ?t = hd ?a"
    proof -
      have "?a = ?t @ rev (takeWhile ?P (rev ?a))"
        using takeWhile_dropWhile_id [of ?P "rev ?a"] by (metis rev_append rev_rev_ident)
      then show ?thesis using False by (metis hd_append2 rev_is_Nil_conv)
    qed
    ultimately show ?thesis using l by metis
  next
    case True
    then have "?t = []" by (simp only: rev.simps)
    then show ?thesis by blast
  qed
  ultimately show ?thesis unfolding trim_chars by blast
qed

section \<open>Numbers\<close>

text \<open>\<^verbatim>\<open>safe_strtoul\<close> accepts every string of digits that fits 64 bits, and stores its value
  modulo \<^verbatim>\<open>2^32\<close>: a number too large for the result is truncated, not rejected.\<close>

theorem safe_strtoul_digits:
  assumes "ds \<noteq> []" "\<forall>d\<in>set ds. isdigit d" "dec_value ds < 2 ^ 64"
  shows "safe_strtoul ds = (True, word_of_nat (dec_value ds))"
proof -
  have "45 \<notin> set ds" using assms(2) isdigit_not_space by auto
  moreover have "(ucast (word_of_nat n :: 64 word) :: u32) = word_of_nat n" for n
    by (rule bit_word_eqI) (auto simp: bit_simps)
  ultimately show ?thesis
    using assms by (simp add: safe_strtoul_def strtoull_def strto_scan_digits end_ok_def)
qed

theorem safe_strtoul_digits_witness:
  "safe_strtoul (lit ''4294967297'') = (True, word_of_nat (dec_value (lit ''4294967297''))) \<and>
   (word_of_nat (dec_value (lit ''4294967297'')) :: u32) = 1"
proof -
  have "dec_value (lit ''4294967297'') = 4294967297" by (simp add: dec_value_def lit_def)
  then show ?thesis
    using safe_strtoul_digits [of "lit ''4294967297''"] by (simp add: lit_def isdigit_def)
qed

section \<open>The tokenizer\<close>

definition words :: "bytes \<Rightarrow> bytes list" where
  "words s = filter (\<lambda>w. w \<noteq> []) (fields_of {32} s)"

definition tok_str :: "bytes \<Rightarrow> token_t \<Rightarrow> bytes" where
  "tok_str c t = take (tk_length t) (drop (the (tk_value t)) c)"

lemma words_space: "words (32 # s) = words s"
  by (simp add: words_def)

lemma words_cons: "w \<noteq> [] \<Longrightarrow> \<forall>c\<in>set w. c \<noteq> 32 \<Longrightarrow> words (w @ 32 # s) = w # words s"
  by (simp add: words_def fields_split)

lemma words_last: "\<forall>c\<in>set w. c \<noteq> 32 \<Longrightarrow> words w = (if w = [] then [] else [w])"
  by (simp add: words_def fields_no_sep)

definition tok_result :: "bytes \<Rightarrow> nat \<Rightarrow> nat \<Rightarrow> token_t list \<Rightarrow> bytes \<times> nat \<times> nat \<times> token_t list \<Rightarrow> bool" where
  "tok_result c n s toks = (\<lambda>(buf, s', e, toks').
     (let full = (if s' \<noteq> e then toks' @ [\<lparr>tk_value = Some s', tk_length = e - s'\<rparr>] else toks')
      in (\<exists>new. full = toks @ new \<and> map (tok_str c) new = take n (words (drop s c)) \<and>
           (\<forall>t\<in>set new. tk_value t \<noteq> None)) \<and>
         e \<le> length c \<and> words (drop e c) = drop n (words (drop s c)) \<and>
         (buf ! e = 0 \<longleftrightarrow> e = length c)))"

lemma tok_result_push:
  assumes "tok_result c n s' (toks @ [t]) r" "words (drop s c) = tok_str c t # words (drop s' c)"
    "tk_value t \<noteq> None"
  shows "tok_result c (Suc n) s toks r"
proof -
  obtain buf s1 e toks1 where r: "r = (buf, s1, e, toks1)" by (cases r)
  let ?full = "if s1 \<noteq> e then toks1 @ [\<lparr>tk_value = Some s1, tk_length = e - s1\<rparr>] else toks1"
  obtain new where new: "?full = (toks @ [t]) @ new" "map (tok_str c) new = take n (words (drop s' c))"
      "\<forall>t\<in>set new. tk_value t \<noteq> None"
    and e: "e \<le> length c" "words (drop e c) = drop n (words (drop s' c))" "buf ! e = 0 \<longleftrightarrow> e = length c"
    using assms(1) unfolding r tok_result_def by (auto simp: Let_def)
  have "\<exists>new. ?full = toks @ new \<and> map (tok_str c) new = take (Suc n) (words (drop s c)) \<and>
      (\<forall>t\<in>set new. tk_value t \<noteq> None)"
    using new assms(2,3) by (intro exI [of _ "t # new"]) simp
  then show ?thesis
    using e assms(2) unfolding r tok_result_def Let_def by simp
qed

lemma nth_of_drop:
  "drop i xs = drop i ys \<Longrightarrow> i \<le> k \<Longrightarrow> k < length xs \<Longrightarrow> length xs = length ys \<Longrightarrow> xs ! k = ys ! k"
  by (metis le_add_diff_inverse nth_drop order.strict_implies_order order_le_less_trans)

lemma tok_loop_ok:
  assumes "nul_free c" "len = length c"
  shows "i \<le> len \<Longrightarrow> s \<le> i \<Longrightarrow> \<forall>x\<in>set (take (i - s) (drop s c)). x \<noteq> 32 \<Longrightarrow>
    length buf = length (c @ 0 # rest) \<Longrightarrow> drop i buf = drop i (c @ 0 # rest) \<Longrightarrow>
    length toks < mx - 1 \<Longrightarrow> tok_result c (mx - 1 - length toks) s toks (tok_loop mx len i s buf toks)"
  using assms(2)
proof (induction mx len i s buf toks rule: tok_loop.induct)
  case (1 mx len i s buf toks)
  show ?case
  proof (cases "i < len")
    case False
    then have i: "i = length c" using 1 by simp
    then have b: "buf ! i = 0"
      using nth_of_drop [OF 1(8), of i] 1(7) by simp
    have "take (i - s) (drop s c) = drop s c" using i by simp
    then have w: "words (drop s c) = (if s = i then [] else [drop s c])"
      using 1(6) i 1(5) words_last [of "drop s c"] by auto
    show ?thesis
      using False w b i 1(5,9)
      by (subst tok_loop.simps) (auto simp: tok_result_def Let_def tok_str_def words_def)
  next
    case True
    then have ic: "i < length c" using 1 by simp
    have bi: "buf ! i = c ! i"
      using nth_of_drop [OF 1(8), of i] 1(7) ic by (simp add: nth_append)
    have d1: "drop (i + 1) buf = drop (i + 1) (c @ 0 # rest)"
      using 1(8) by (metis drop_drop add.commute)
    have ds: "drop s c = take (i - s) (drop s c) @ c ! i # drop (i + 1) c"
      using append_take_drop_id [of "i - s" "drop s c"] 1(5) Cons_nth_drop_Suc [OF ic] by simp
    let ?t = "\<lparr>tk_value = Some s, tk_length = i - s\<rparr>"
    show ?thesis
    proof (cases "buf ! i = 32")
      case sp: True
      show ?thesis
      proof (cases "s = i")
        case True
        then have "words (drop s c) = words (drop (i + 1) c)"
          using ds bi sp words_space by simp
        moreover have "tok_result c (mx - 1 - length toks) (i + 1) toks (tok_loop mx len (i + 1) (i + 1) buf toks)"
          using 1(2) [OF \<open>i < len\<close> sp] True 1(7,9,10) d1 \<open>i < len\<close> by simp
        ultimately show ?thesis
          using sp True \<open>i < len\<close> by (subst tok_loop.simps) (simp add: tok_result_def)
      next
        case False
        have w: "words (drop s c) = tok_str c ?t # words (drop (i + 1) c)"
          using words_cons [of "take (i - s) (drop s c)" "drop (i + 1) c"] ds bi sp False 1(5,6) ic
          by (simp add: tok_str_def)
        have n: "mx - 1 - length toks = Suc (mx - 1 - length (toks @ [?t]))" using 1(9) by simp
        show ?thesis
        proof (cases "length (toks @ [?t]) = mx - 1")
          case True
          have z: "(buf[i := 0]) ! (i + 1) = 0 \<longleftrightarrow> i + 1 = length c"
          proof -
            have "buf ! (i + 1) = (c @ 0 # rest) ! (i + 1)"
              using nth_of_drop [OF d1, of "i + 1"] 1(7) ic by simp
            then show ?thesis using ic nul_free_nth [OF assms(1), of "i + 1"] by (auto simp: nth_append)
          qed
          have "tok_result c 0 (i + 1) (toks @ [?t]) (buf[i := 0], i + 1, i + 1, toks @ [?t])"
            using z ic by (simp add: tok_result_def)
          then have "tok_result c (Suc 0) s toks (buf[i := 0], i + 1, i + 1, toks @ [?t])"
            by (rule tok_result_push [OF _ w]) simp
          then show ?thesis
            using sp False \<open>i < len\<close> True n by (subst tok_loop.simps) (simp add: Let_def)
        next
          case more: False
          have "tok_result c (mx - 1 - length (toks @ [?t])) (i + 1) (toks @ [?t])
              (tok_loop mx len (i + 1) (i + 1) (buf[i := 0]) (toks @ [?t]))"
            using 1(1) [OF \<open>i < len\<close> sp False refl refl more] \<open>i < len\<close> 1(7,9,10) d1 more by simp
          then have "tok_result c (mx - 1 - length toks) s toks
              (tok_loop mx len (i + 1) (i + 1) (buf[i := 0]) (toks @ [?t]))"
            unfolding n by (rule tok_result_push [OF _ w]) simp
          then show ?thesis
            using sp False \<open>i < len\<close> more by (subst tok_loop.simps) (simp add: Let_def)
        qed
      qed
    next
      case False
      have "take (i + 1 - s) (drop s c) = take (i - s) (drop s c) @ [c ! i]"
        using 1(5) ic by (simp add: Suc_diff_le take_Suc_conv_app_nth)
      then have "tok_result c (mx - 1 - length toks) s toks (tok_loop mx len (i + 1) s buf toks)"
        using 1(3) [OF \<open>i < len\<close> False] \<open>i < len\<close> 1(5,6,7,9,10) d1 False bi by auto
      then show ?thesis
        using False \<open>i < len\<close> by (subst tok_loop.simps) simp
    qed
  qed
qed

text \<open>\<^verbatim>\<open>tokenize_command\<close> returns the first \<^verbatim>\<open>max_tokens - 1\<close> words of the command, then a
  terminal token of length 0: null when the whole command has been scanned, otherwise the place
  where the words not returned start.\<close>

theorem tokenize_command_words:
  assumes "nul_free c" "2 \<le> max_tokens"
  shows "\<exists>buf toks fin. tokenize_command (c @ 0 # rest) max_tokens = Some (buf, toks @ [fin]) \<and>
    map (tok_str c) toks = take (max_tokens - 1) (words c) \<and> (\<forall>t\<in>set toks. tk_value t \<noteq> None) \<and>
    tk_length fin = 0 \<and>
    drop (max_tokens - 1) (words c) = (case tk_value fin of None \<Rightarrow> [] | Some e \<Rightarrow> words (drop e c))"
proof -
  have len: "strlen_at (c @ 0 # rest) 0 = Some (length c)"
    using strlen_at_append [OF assms(1), of 0 "[]" rest] by simp
  obtain buf s e toks where lp: "tok_loop max_tokens (length c) 0 0 (c @ 0 # rest) [] = (buf, s, e, toks)"
    by (cases "tok_loop max_tokens (length c) 0 0 (c @ 0 # rest) []")
  let ?full = "if s \<noteq> e then toks @ [\<lparr>tk_value = Some s, tk_length = e - s\<rparr>] else toks"
  let ?fin = "\<lparr>tk_value = (if buf ! e = 0 then None else Some e), tk_length = 0\<rparr>"
  have "tok_result c (max_tokens - 1) 0 [] (buf, s, e, toks)"
    using tok_loop_ok [OF assms(1) refl, of 0 0 "c @ 0 # rest" rest "[]" max_tokens] assms(2) lp by simp
  then have r: "map (tok_str c) ?full = take (max_tokens - 1) (words c)"
    "\<forall>t\<in>set ?full. tk_value t \<noteq> None" "words (drop e c) = drop (max_tokens - 1) (words c)"
    "buf ! e = 0 \<longleftrightarrow> e = length c"
    unfolding tok_result_def Let_def by simp_all
  have "tokenize_command (c @ 0 # rest) max_tokens = Some (buf, ?full @ [?fin])"
    using len lp assms(2) by (simp add: tokenize_command_def Let_def)
  moreover have "drop (max_tokens - 1) (words c) =
      (case tk_value ?fin of None \<Rightarrow> [] | Some e \<Rightarrow> words (drop e c))"
  proof (cases "buf ! e = 0")
    case True
    then have "words (drop e c) = []" using r(4) by (simp add: words_def)
    then show ?thesis using r(3) True by simp
  qed (use r(3) in simp)
  ultimately show ?thesis
    using r(1,2) by (intro exI [of _ buf] exI [of _ ?full] exI [of _ ?fin]) simp
qed

theorem tokenize_command_words_witness:
  "\<exists>buf toks fin. tokenize_command (lit ''get  key'' @ 0 # []) 3 = Some (buf, toks @ [fin]) \<and>
    map (tok_str (lit ''get  key'')) toks = take (3 - 1) (words (lit ''get  key'')) \<and>
    (\<forall>t\<in>set toks. tk_value t \<noteq> None) \<and> tk_length fin = 0 \<and>
    drop (3 - 1) (words (lit ''get  key'')) =
      (case tk_value fin of None \<Rightarrow> [] | Some e \<Rightarrow> words (drop e (lit ''get  key'')))"
  by (rule tokenize_command_words) (simp_all add: lit_def)

section \<open>Buffers\<close>

lemma delstr_loop_ok:
  assumes "nul_free c"
  shows "i + n = length c \<Longrightarrow> span \<le> i \<Longrightarrow> length buf = length (c @ 0 # rest) \<Longrightarrow>
    drop i buf = drop i (c @ 0 # rest) \<Longrightarrow>
    take (i - span) buf = filter (\<lambda>x. x \<notin> set del) (take i c) \<Longrightarrow>
    \<exists>span' buf'. delstr_loop del n i span buf = (span', buf') \<and> span' \<le> length c \<and>
      length buf' = length (c @ 0 # rest) \<and> drop (length c) buf' = 0 # rest \<and>
      take (length c - span') buf' = filter (\<lambda>x. x \<notin> set del) c"
proof (induction n arbitrary: i span buf)
  case 0
  then show ?case by simp
next
  case (Suc n)
  then have i: "i < length c" by simp
  have bi: "buf ! i = c ! i"
    using nth_of_drop [OF Suc.prems(4), of i] Suc.prems(3) i by (simp add: nth_append)
  have nz: "c ! i \<noteq> 0" using nul_free_nth [OF assms i] .
  have d1: "drop (i + 1) buf = drop (i + 1) (c @ 0 # rest)"
    using Suc.prems(4) by (metis drop_drop add.commute)
  have t1: "take (i + 1) c = take i c @ [c ! i]" using i by (simp add: take_Suc_conv_app_nth)
  show ?case
  proof (cases "c ! i \<in> set del")
    case True
    then show ?thesis
      using Suc.IH [of "i + 1" "span + 1" buf] Suc.prems bi d1 t1 by simp
  next
    case False
    have ib: "i < length buf" using Suc.prems(3) i by simp
    let ?buf = "if 0 < span then buf[i - span := c ! i] else buf"
    have "take (i + 1 - span) ?buf = filter (\<lambda>x. x \<notin> set del) (take (i + 1) c)"
    proof (cases "0 < span")
      case True
      then have "take (i + 1 - span) ?buf = take (i - span) buf @ [c ! i]"
        using Suc.prems(2) ib by (simp add: Suc_diff_le take_Suc_conv_app_nth)
      then show ?thesis using Suc.prems(5) False t1 by simp
    next
      case no: False
      then have "take (i + 1 - span) ?buf = take (i - span) buf @ [c ! i]"
        using ib bi by (simp add: take_Suc_conv_app_nth)
      then show ?thesis using Suc.prems(5) False t1 by simp
    qed
    moreover have "drop (i + 1) ?buf = drop (i + 1) (c @ 0 # rest)"
      using d1 Suc.prems(2) by simp
    moreover have "delstr_loop del (Suc n) i span buf = delstr_loop del n (i + 1) span ?buf"
      using False bi nz by simp
    ultimately show ?thesis
      using Suc.IH [of "i + 1" span ?buf] Suc.prems(1-3) by simp
  qed
qed

lemma clear_from_eq:
  "i + n \<le> length buf \<Longrightarrow> clear_from i n buf = take i buf @ replicate n 0 @ drop (i + n) buf"
proof (induction i n buf rule: clear_from.induct)
  case (2 i n buf)
  then have "clear_from i (Suc n) buf = take (i + 1) (buf[i := 0]) @ replicate n 0 @ drop (i + 1 + n) (buf[i := 0])"
    by simp
  also have "take (i + 1) (buf[i := 0]) = take i buf @ [0]"
    using 2 by (simp add: take_Suc_conv_app_nth)
  finally show ?case by simp
qed simp

lemma delstr_eq:
  assumes "nul_free c"
  shows "delstr (c @ 0 # rest) del =
    (let t = filter (\<lambda>x. x \<notin> set del) c
     in Some (length t, t @ replicate (length c - length t) 0 @ 0 # rest))"
proof -
  let ?t = "filter (\<lambda>x. x \<notin> set del) c"
  obtain span buf where r: "delstr_loop del (length c) 0 0 (c @ 0 # rest) = (span, buf)" "span \<le> length c"
    "length buf = length (c @ 0 # rest)" "drop (length c) buf = 0 # rest" "take (length c - span) buf = ?t"
    using delstr_loop_ok [OF assms, of 0 "length c" 0 "c @ 0 # rest" rest del] by auto
  have len: "length ?t = length c - span"
    using arg_cong [OF r(5), of length] r(3) by simp
  moreover have "strlen_at (c @ 0 # rest) 0 = Some (length c)"
    using strlen_at_append [OF assms, of 0 "[]" rest] by simp
  moreover have "clear_from (length c - span) span buf = ?t @ replicate span 0 @ 0 # rest"
    using clear_from_eq [of "length c - span" span buf] r by simp
  ultimately show ?thesis using r(1,2) by (simp add: delstr_def Let_def)
qed

text \<open>\<^verbatim>\<open>delstr\<close> removes the given characters from the string in the buffer, pads it with NULs
  to its old length, leaves what follows alone and returns the new length.\<close>

theorem delstr_filter:
  assumes "nul_free c"
  shows "delstr (c @ 0 # rest) del =
    (let t = filter (\<lambda>x. x \<notin> set del) c
     in Some (length t, t @ replicate (length c - length t) 0 @ 0 # rest))"
  by (rule delstr_eq [OF assms])

theorem delstr_filter_witness:
  "delstr (lit ''a = b'' @ 0 # [7]) (lit '' '') =
    (let t = filter (\<lambda>x. x \<notin> set (lit '' '')) (lit ''a = b'')
     in Some (length t, t @ replicate (length (lit ''a = b'') - length t) 0 @ 0 # [7]))"
  by (rule delstr_filter) (simp add: lit_def)

text \<open>The C string at an offset of a buffer.\<close>

definition cstr_in :: "bytes \<Rightarrow> nat \<Rightarrow> bytes" where
  "cstr_in buf off = takeWhile (\<lambda>b. b \<noteq> 0) (drop off buf)"

lemma cstr_in_append: "nul_free w \<Longrightarrow> off = length pre \<Longrightarrow> cstr_in (pre @ w @ 0 # post) off = w"
  by (simp add: cstr_in_def takeWhile_nul_free)

lemma strchr_at_split:
  assumes "nul_free w" "c \<notin> set w" "off = length pre"
  shows "strchr_at (pre @ w @ 0 # post) off c = Some (if c = 0 then Some (off + length w) else None)"
    and "c \<noteq> 0 \<Longrightarrow> strchr_at (pre @ w @ c # post) off c = Some (Some (off + length w))"
proof -
  have "takeWhile (\<lambda>b. b \<noteq> 0 \<and> b \<noteq> c) (w @ x # post) = w" if "x = 0 \<or> x = c" for x
    using assms(1,2) that by (induction w) auto
  then show "strchr_at (pre @ w @ 0 # post) off c = Some (if c = 0 then Some (off + length w) else None)"
    and "c \<noteq> 0 \<Longrightarrow> strchr_at (pre @ w @ c # post) off c = Some (Some (off + length w))"
    using assms(3) by (simp_all add: strchr_at_def Let_def nth_append)
qed

lemma psf_loop_ok:
  assumes "c \<noteq> 0"
  shows "nul_free s \<Longrightarrow> head = length pre \<Longrightarrow>
    \<exists>new post. psf_loop c head (pre @ s @ 0 # rest) dest = Some (dest @ new, pre @ post) \<and>
      map (cstr_in (pre @ post)) new = take (MAX_KEYWORD_LENGTH - length dest) (fields_of {c} s)"
proof (induction "length s" arbitrary: s pre head dest rule: less_induct)
  case less
  show ?case
  proof (cases "MAX_KEYWORD_LENGTH \<le> length dest")
    case True
    then show ?thesis by (subst psf_loop.simps) auto
  next
    case room: False
    show ?thesis
    proof (cases "c \<in> set s")
      case False
      then have "fields_of {c} s = [s]" by (intro fields_no_sep) auto
      moreover have "strchr_at (pre @ s @ 0 # rest) head c = Some None"
        using strchr_at_split(1) [OF less.prems(1) False less.prems(2)] assms by simp
      ultimately show ?thesis
        using room less.prems cstr_in_append [OF less.prems(1), of head pre rest]
        by (subst psf_loop.simps) (auto simp: take_Cons')
    next
      case True
      then obtain w s' where s: "s = w @ c # s'" "c \<notin> set w" by (metis split_list_first)
      have nf: "nul_free w" "nul_free s'" using less.prems(1) s by auto
      let ?pre = "pre @ w @ [0]"
      have fields: "fields_of {c} s = w # fields_of {c} s'"
        unfolding s(1) using s(2) by (intro fields_split) auto
      have "strchr_at (pre @ s @ 0 # rest) head c = Some (Some (head + length w))"
        using strchr_at_split(2) [OF nf(1) s(2) less.prems(2) assms, of "s' @ 0 # rest"] s(1) by simp
      moreover have "(pre @ s @ 0 # rest)[head + length w := 0] = ?pre @ s' @ 0 # rest"
        using less.prems(2) s(1) by (simp add: list_update_append)
      ultimately have step: "psf_loop c head (pre @ s @ 0 # rest) dest =
          psf_loop c (length ?pre) (?pre @ s' @ 0 # rest) (dest @ [head])"
        using room less.prems(2) by (subst psf_loop.simps) simp
      obtain new post where new: "psf_loop c (length ?pre) (?pre @ s' @ 0 # rest) (dest @ [head]) =
          Some ((dest @ [head]) @ new, ?pre @ post)"
        "map (cstr_in (?pre @ post)) new = take (MAX_KEYWORD_LENGTH - length (dest @ [head])) (fields_of {c} s')"
        using less.hyps [OF _ nf(2) refl, of ?pre "dest @ [head]"] s(1) by auto
      have n: "MAX_KEYWORD_LENGTH - length dest = Suc (MAX_KEYWORD_LENGTH - length (dest @ [head]))"
        using room by simp
      have "cstr_in (?pre @ post) head = w"
        using cstr_in_append [OF nf(1) less.prems(2), of post] by simp
      then have "map (cstr_in (?pre @ post)) (head # new) =
          take (MAX_KEYWORD_LENGTH - length dest) (fields_of {c} s)"
        using new(2) unfolding n fields by simp
      then show ?thesis
        unfolding step using new(1) by (intro exI [of _ "head # new"] exI [of _ "w @ 0 # post"]) simp
    qed
  qed
qed

lemma parse_string_fast_eq:
  assumes "c \<noteq> 0" "nul_free s"
  shows "\<exists>dest buf. parse_string_fast (s @ 0 # rest) c = Some (dest, buf) \<and>
    map (cstr_in buf) dest = take MAX_KEYWORD_LENGTH (fields_of {c} s)"
  using psf_loop_ok [OF assms(1,2), of 0 "[]" rest "[]"] by (auto simp: parse_string_fast_def)

text \<open>\<^verbatim>\<open>parse_string_fast\<close> cuts the string in the buffer at the separator: the C strings at the
  places it returns are the fields of the string, at most \<^verbatim>\<open>MAX_KEYWORD_LENGTH\<close> of them.\<close>

theorem parse_string_fast_fields:
  assumes "c \<noteq> 0" "nul_free s"
  shows "\<exists>dest buf. parse_string_fast (s @ 0 # rest) c = Some (dest, buf) \<and>
    map (cstr_in buf) dest = take MAX_KEYWORD_LENGTH (fields_of {c} s)"
  by (rule parse_string_fast_eq [OF assms])

theorem parse_string_fast_fields_witness:
  "\<exists>dest buf. parse_string_fast (lit ''port=80'' @ 0 # []) 61 = Some (dest, buf) \<and>
    map (cstr_in buf) dest = take MAX_KEYWORD_LENGTH (fields_of {61} (lit ''port=80''))"
  by (rule parse_string_fast_fields) (simp_all add: lit_def)

section \<open>Directories\<close>

lemma find_first_of_last:
  assumes "n < length (p @ [c])" "c \<in> set sep"
  shows "find_first_of (p @ [c]) sep n \<noteq> None"
proof
  assume "find_first_of (p @ [c]) sep n = None"
  from find_first_of_None [OF this] have "\<forall>x\<in>set (drop n (p @ [c])). x \<notin> set sep" .
  moreover have "c \<in> set (drop n (p @ [c]))" using assms(1) by simp
  ultimately show False using assms(2) by blast
qed

lemma mkdir_loop_slash:
  assumes "\<And>fs. \<not> fst (fs_mkdir ops (p @ [47]) (snd (fs_mkdir ops p fs)))"
  shows "n \<le> length p \<Longrightarrow> \<not> fst (mkdir_loop ops (p @ [47]) n fs)"
proof (induction "length p - n" arbitrary: n fs rule: less_induct)
  case less
  obtain pos where pos: "slash_from (p @ [47]) n = Some pos"
    using find_first_of_last [of n p 47 "[47]"] less.prems by (auto simp: slash_from_def)
  then have b: "n \<le> pos" "pos \<le> length p"
    using find_first_of_bound [of "p @ [47]" "[47]" n pos] by (auto simp: slash_from_def)
  let ?fs = "snd (fs_mkdir ops (take pos (p @ [47])) fs)"
  have step: "mkdir_loop ops (p @ [47]) n fs = mkdir_loop ops (p @ [47]) (pos + 1) ?fs"
    using less.prems pos by (subst mkdir_loop.simps) simp
  show ?case
  proof (cases "pos = length p")
    case True
    have "slash_from (p @ [47]) (length p + 1) = None"
      by (simp add: slash_from_def find_first_of_def)
    then have "mkdir_loop ops (p @ [47]) (pos + 1) ?fs = fs_mkdir ops (p @ [47]) ?fs"
      using True by (subst mkdir_loop.simps) simp
    then show ?thesis unfolding step using assms [of fs] True by simp
  next
    case False
    then show ?thesis unfolding step using less.hyps [of "pos + 1" ?fs] b by simp
  qed
qed

text \<open>A defect of \<^verbatim>\<open>mkdir_recursive\<close>: on a path that ends in a slash it answers what the last
  \<^verbatim>\<open>mkdir\<close> says about a directory the call before has just been asked to create, so on a
  file system where creating an existing path fails it reports a failure.\<close>

theorem mkdir_recursive_trailing_slash:
  assumes "\<not> fs_is_dir ops (p @ [47]) fs"
    and "\<And>fs. \<not> fst (fs_mkdir ops (p @ [47]) (snd (fs_mkdir ops p fs)))"
  shows "\<not> fst (mkdir_recursive ops (p @ [47]) fs)"
  using mkdir_loop_slash [OF assms(2), of 0 fs] assms(1) by (simp add: mkdir_recursive_def)

text \<open>A file system that is the set of its directories, named without a final slash.\<close>

definition dir_name :: "bytes \<Rightarrow> bytes" where
  "dir_name p = rev (dropWhile (\<lambda>c. c = 47) (rev p))"

definition dir_ops :: "bytes set fs_ops" where
  "dir_ops = \<lparr>fs_is_dir = (\<lambda>p fs. dir_name p \<in> fs), fs_writable = (\<lambda>p fs. True),
     fs_exists = (\<lambda>p fs. dir_name p \<in> fs),
     fs_mkdir = (\<lambda>p fs. (dir_name p \<notin> fs, insert (dir_name p) fs))\<rparr>"

theorem mkdir_recursive_trailing_slash_witness:
  "\<not> fst (mkdir_recursive dir_ops (lit ''log'' @ [47]) {})"
  by (rule mkdir_recursive_trailing_slash) (simp_all add: dir_ops_def dir_name_def)

end
