(* ===== verification/Pm_Letters.thy ===== *)
theory Pm_Letters
  imports Pm_Util_Props
begin

text \<open>
  The conversion of Chinese text to letters that prefixmatch.cpp and indexer.cpp share:
  the conversion table read from a file, the combination of the readings of the
  characters, and the scan of a UTF-8 string. \<^term>\<open>None\<close> is a scan that reads past the
  string or never ends.
\<close>

section \<open>The conversion table\<close>

type_synonym hashMap = "bytes \<Rightarrow> bytes list option"

text \<open>\<^verbatim>\<open>getline\<close> until the end of the file: a last line without newline counts when it is not empty.\<close>

definition getlines :: "bytes \<Rightarrow> bytes list" where
  "getlines content =
     (let ls = fields_of {10} content in if last ls = [] then butlast ls else ls)"

definition add_map_line :: "hashMap \<Rightarrow> bytes \<Rightarrow> hashMap" where
  "add_map_line m line =
     (let vResult = sepstr (trim line [32, 9, 13] True) [32] False
      in if length vResult < 2 then m else m(hd vResult \<mapsto> tl vResult))"

text \<open>The file is its content, or \<^term>\<open>None\<close> when it cannot be opened.\<close>

definition read_chinese_map :: "bytes option \<Rightarrow> hashMap \<Rightarrow> int \<times> hashMap" where
  "read_chinese_map file m =
     (case file of None \<Rightarrow> (- 1, m) | Some content \<Rightarrow> (0, foldl add_map_line m (getlines content)))"

section \<open>Combining the readings\<close>

text \<open>\<^verbatim>\<open>vOut[k].append(s)\<close> for the \<^verbatim>\<open>n\<close> positions from \<^verbatim>\<open>k\<close> on.\<close>

fun append_range :: "bytes \<Rightarrow> nat \<Rightarrow> nat \<Rightarrow> bytes list \<Rightarrow> bytes list" where
  "append_range s k 0 v = v"
| "append_range s k (Suc n) v = append_range s (k + 1) n (v[k := v ! k @ s])"

fun append_items :: "bytes list \<Rightarrow> nat \<Rightarrow> nat \<Rightarrow> bytes list \<Rightarrow> bytes list" where
  "append_items [] j uOutCount v = v"
| "append_items (it # items) j uOutCount v =
     append_items items (j + 1) uOutCount (append_range it (j * uOutCount) uOutCount v)"

text \<open>
  One round of the outer loop. \<^verbatim>\<open>uItemCount - 1\<close> is unsigned: without any item the
  copying never ends.
\<close>

definition combine_step :: "bytes list \<Rightarrow> bytes list \<Rightarrow> bytes list option" where
  "combine_step items vOut =
     (if items = [] then None
      else Some (append_items items 0 (length vOut)
        (vOut @ concat (replicate (length items - 1) vOut))))"

fun combine_loop :: "bytes list list \<Rightarrow> bytes list \<Rightarrow> bytes list option" where
  "combine_loop [] vOut = Some vOut"
| "combine_loop (items # rest) vOut = Option.bind (combine_step items vOut) (combine_loop rest)"

definition get_all_results :: "bytes list list \<Rightarrow> bytes list \<Rightarrow> bytes list option" where
  "get_all_results vecAll vOut =
     (case vecAll of [] \<Rightarrow> Some vOut | first # rest \<Rightarrow> combine_loop rest first)"

text \<open>The reference: all ways of taking one item from each list, the first list varying fastest.\<close>

fun all_ways :: "bytes list list \<Rightarrow> bytes list \<Rightarrow> bytes list" where
  "all_ways [] out = out"
| "all_ways (items # rest) out = all_ways rest (concat (map (\<lambda>it. map (\<lambda>w. w @ it) out) items))"

lemma length_append_range [simp]: "length (append_range s k n v) = length v"
  by (induction s k n v rule: append_range.induct) auto

lemma append_range_eq:
  "k + n \<le> length v \<Longrightarrow> append_range s k n v =
    take k v @ map (\<lambda>w. w @ s) (take n (drop k v)) @ drop (k + n) v"
proof (induction s k n v rule: append_range.induct)
  case (2 s k n v)
  then have k: "k < length v" by simp
  have "append_range s k (Suc n) v = take (k + 1) (v[k := v ! k @ s]) @
      map (\<lambda>w. w @ s) (take n (drop (k + 1) v)) @ drop (k + 1 + n) v"
    using 2 by simp
  also have "take (k + 1) (v[k := v ! k @ s]) = take k v @ [v ! k @ s]"
    using k by (simp add: take_Suc_conv_app_nth)
  finally have "append_range s k (Suc n) v = take k v @ ([v ! k @ s] @
      map (\<lambda>w. w @ s) (take n (drop (k + 1) v))) @ drop (k + 1 + n) v" by simp
  moreover have "take (Suc n) (drop k v) = v ! k # take n (drop (k + 1) v)"
    using Cons_nth_drop_Suc [OF k, symmetric] by simp
  ultimately show ?case by simp
qed simp

lemma append_items_eq:
  "length pre = j * length out \<Longrightarrow>
   append_items items j (length out) (pre @ concat (replicate (length items) out)) =
     pre @ concat (map (\<lambda>it. map (\<lambda>w. w @ it) out) items)"
proof (induction items arbitrary: j pre)
  case (Cons it items)
  have "append_range it (j * length out) (length out) (pre @ concat (replicate (length (it # items)) out)) =
      (pre @ map (\<lambda>w. w @ it) out) @ concat (replicate (length items) out)"
    using Cons.prems by (subst append_range_eq) simp_all
  then show ?case
    using Cons.IH [of "pre @ map (\<lambda>w. w @ it) out" "j + 1"] Cons.prems by simp
qed simp

lemma combine_step_eq:
  "items \<noteq> [] \<Longrightarrow> combine_step items out = Some (concat (map (\<lambda>it. map (\<lambda>w. w @ it) out) items))"
proof -
  assume ne: "items \<noteq> []"
  then have "out @ concat (replicate (length items - 1) out) = [] @ concat (replicate (length items) out)"
    by (cases items) auto
  then show ?thesis
    using ne append_items_eq [of "[]" 0 out items] by (simp add: combine_step_def)
qed

lemma combine_loop_eq: "\<forall>items\<in>set rest. items \<noteq> [] \<Longrightarrow> combine_loop rest out = Some (all_ways rest out)"
  by (induction rest arbitrary: out) (auto simp: combine_step_eq)

definition combinations :: "bytes list list \<Rightarrow> bytes list" where
  "combinations vecAll = (case vecAll of [] \<Rightarrow> [] | first # rest \<Rightarrow> all_ways rest first)"

lemma get_all_results_eq:
  "\<forall>items\<in>set vecAll. items \<noteq> [] \<Longrightarrow> get_all_results vecAll [] = Some (combinations vecAll)"
  by (auto simp: get_all_results_def combinations_def combine_loop_eq split: list.split)

lemma set_all_ways:
  "w \<in> set (all_ways rest out) \<longleftrightarrow>
   (\<exists>x\<in>set out. \<exists>xs. list_all2 (\<lambda>y items. y \<in> set items) xs rest \<and> w = x @ concat xs)"
proof (induction rest arbitrary: out)
  case (Cons items rest)
  have "w \<in> set (all_ways (items # rest) out) \<longleftrightarrow>
      (\<exists>it\<in>set items. \<exists>x\<in>set out. \<exists>xs. list_all2 (\<lambda>y items. y \<in> set items) xs rest \<and> w = (x @ it) @ concat xs)"
    unfolding all_ways.simps Cons.IH by auto
  also have "\<dots> \<longleftrightarrow> (\<exists>x\<in>set out. \<exists>xs. list_all2 (\<lambda>y items. y \<in> set items) xs (items # rest) \<and> w = x @ concat xs)"
    unfolding list_all2_Cons2 by (auto 4 4 intro: exI [where x = "_ # _"])
  finally show ?case .
qed simp

section \<open>The scan of a UTF-8 string\<close>

definition all_english_char :: "bytes \<Rightarrow> bool" where
  "all_english_char str = list_all (\<lambda>b. b < 0x80) str"

text \<open>\<^verbatim>\<open>string(p, s)\<close> at offset \<^verbatim>\<open>p\<close>: it may read up to the terminator, not past it.\<close>

definition char_at :: "bytes \<Rightarrow> nat \<Rightarrow> nat \<Rightarrow> bytes option" where
  "char_at str p s = mem_slice (str @ [0]) p s"

partial_function (option) letters_loop ::
  "hashMap \<Rightarrow> bytes \<Rightarrow> nat \<Rightarrow> bytes list list \<Rightarrow> bytes list list option" where
  "letters_loop tbl str p vecAll =
     (if p < length str then
        Option.bind (char_at str p (getUTF8Len (str ! p))) (\<lambda>strKey.
          letters_loop tbl str (p + getUTF8Len (str ! p))
            (case tbl strKey of Some items \<Rightarrow> vecAll @ [items] | None \<Rightarrow> vecAll))
      else Some vecAll)"

declare letters_loop.simps [code]

definition convert_to_letters :: "bytes \<Rightarrow> hashMap \<Rightarrow> bytes list option" where
  "convert_to_letters strIn tbl =
     (if all_english_char strIn then Some [strIn]
      else Option.bind (letters_loop tbl strIn 0 []) (\<lambda>vecAll. get_all_results vecAll []))"

text \<open>A string made of the characters \<open>cs\<close>, as the lengths of their first bytes say.\<close>

definition utf8_char :: "bytes \<Rightarrow> bool" where
  "utf8_char ch \<longleftrightarrow> ch \<noteq> [] \<and> length ch = getUTF8Len (hd ch)"

definition utf8_chars :: "bytes list \<Rightarrow> bool" where
  "utf8_chars cs \<longleftrightarrow> (\<forall>ch\<in>set cs. utf8_char ch)"

lemma char_at_append:
  "p = length pre \<Longrightarrow> s = length ch \<Longrightarrow> char_at (pre @ ch @ post) p s = Some ch"
  using mem_slice_append [of p pre s ch "post @ [0]"] by (simp add: char_at_def)

lemma letters_loop_chars:
  "utf8_chars cs \<Longrightarrow> p = length pre \<Longrightarrow>
   letters_loop tbl (pre @ concat cs @ post) p vecAll =
     letters_loop tbl (pre @ concat cs @ post) (p + length (concat cs)) (vecAll @ List.map_filter tbl cs)"
proof (induction cs arbitrary: pre p vecAll)
  case (Cons ch cs)
  have ch: "ch \<noteq> []" "length ch = getUTF8Len (hd ch)" "utf8_chars cs"
    using Cons.prems(1) by (auto simp: utf8_chars_def utf8_char_def)
  let ?s = "pre @ concat (ch # cs) @ post"
  have p: "?s ! p = hd ch" using Cons.prems(2) ch(1) by (simp add: nth_append hd_conv_nth)
  have "letters_loop tbl ?s p vecAll = letters_loop tbl ?s (p + length ch)
      (case tbl ch of Some items \<Rightarrow> vecAll @ [items] | None \<Rightarrow> vecAll)"
  proof -
    have "p < length ?s" using ch(1) Cons.prems(2) by (cases ch) auto
    then show ?thesis
      using char_at_append [OF Cons.prems(2) ch(2) [symmetric], of "concat cs @ post"] p ch(2)
      by (subst letters_loop.simps) simp
  qed
  then show ?case
    using Cons.IH [OF ch(3), of "p + length ch" "pre @ ch"] Cons.prems(2)
    by (simp add: map_filter_simps add.assoc split: option.split)
qed (simp add: map_filter_simps)

lemma letters_loop_end: "length str \<le> p \<Longrightarrow> letters_loop tbl str p vecAll = Some vecAll"
  by (subst letters_loop.simps) simp

lemma convert_to_letters_chars:
  assumes "utf8_chars cs" and "\<forall>items\<in>ran tbl. items \<noteq> []"
  shows "convert_to_letters (concat cs) tbl =
    Some (if all_english_char (concat cs) then [concat cs] else combinations (List.map_filter tbl cs))"
proof -
  have "letters_loop tbl (concat cs) 0 [] = Some (List.map_filter tbl cs)"
    using letters_loop_chars [OF assms(1), of 0 "[]" tbl "[]" "[]"] letters_loop_end by simp
  moreover have "\<forall>items\<in>set (List.map_filter tbl cs). items \<noteq> []"
    using assms(2) by (auto simp: map_filter_def ran_def)
  ultimately show ?thesis by (simp add: convert_to_letters_def get_all_results_eq)
qed

text \<open>At a byte that starts no character the scan stays where it is for ever.\<close>

lemma letters_loop_stuck:
  assumes "p < length str" "getUTF8Len (str ! p) = 0"
  shows "letters_loop tbl str p vecAll = None"
proof (rule ccontr)
  assume "letters_loop tbl str p vecAll \<noteq> None"
  then obtain y where y: "letters_loop tbl str p vecAll = Some y" by auto
  have "\<not> (p < length str \<and> getUTF8Len (str ! p) = 0)"
  proof (rule letters_loop.raw_induct [where P = "\<lambda>tbl str p vecAll y. \<not> (p < length str \<and> getUTF8Len (str ! p) = 0)", OF _ y])
    fix f :: "hashMap \<Rightarrow> bytes \<Rightarrow> nat \<Rightarrow> bytes list list \<Rightarrow> bytes list list option"
    fix tbl str p vecAll y
    assume IH: "\<And>tbl str p vecAll y. f tbl str p vecAll = Some y \<Longrightarrow> \<not> (p < length str \<and> getUTF8Len (str ! p) = 0)"
      and body: "(if p < length str
         then Option.bind (char_at str p (getUTF8Len (str ! p))) (\<lambda>strKey. f tbl str (p + getUTF8Len (str ! p))
           (case tbl strKey of Some items \<Rightarrow> vecAll @ [items] | None \<Rightarrow> vecAll))
         else Some vecAll) = Some y"
    show "\<not> (p < length str \<and> getUTF8Len (str ! p) = 0)"
    proof
      assume a: "p < length str \<and> getUTF8Len (str ! p) = 0"
      with body obtain v where "f tbl str p v = Some y"
        by (auto simp: Option.bind_eq_Some_conv)
      from IH [OF this] a show False by blast
    qed
  qed
  with assms show False by blast
qed

lemma convert_to_letters_stuck:
  assumes "utf8_chars cs" "0x80 \<le> b" "getUTF8Len b = 0"
  shows "convert_to_letters (concat cs @ b # rest) tbl = None"
proof -
  have "\<not> all_english_char (concat cs @ b # rest)"
    using assms(2) by (auto simp: all_english_char_def)
  moreover have "letters_loop tbl (concat cs @ b # rest) 0 [] = None"
    using letters_loop_chars [OF assms(1), of 0 "[]" tbl "b # rest" "[]"]
      letters_loop_stuck [of "length (concat cs)" "concat cs @ b # rest"] assms(3) by simp
  ultimately show ?thesis by (simp add: convert_to_letters_def)
qed

text \<open>The table read from a file never holds an empty list of readings.\<close>

lemma read_chinese_map_nonempty:
  assumes "\<forall>items\<in>ran m. items \<noteq> []"
  shows "\<forall>items\<in>ran (snd (read_chinese_map file m)). items \<noteq> []"
proof -
  have step: "\<forall>items\<in>ran (add_map_line m line). items \<noteq> []" if "\<forall>items\<in>ran m. items \<noteq> []" for m line
  proof -
    let ?v = "sepstr (trim line [32, 9, 13] True) [32] False"
    have "tl ?v \<noteq> []" if "\<not> length ?v < 2"
    proof
      assume "tl ?v = []"
      then have "length ?v \<le> 1" by (cases ?v) auto
      with that show False by simp
    qed
    then show ?thesis
      using that unfolding add_map_line_def Let_def ran_def by (auto split: if_splits)
  qed
  have "\<forall>items\<in>ran (foldl add_map_line m ls). items \<noteq> []" for ls
    using assms
  proof (induction ls arbitrary: m)
    case (Cons l ls)
    then show ?case using step [OF Cons.prems, of l] by simp
  qed simp
  then show ?thesis using assms by (simp add: read_chinese_map_def split: option.split)
qed

end
