(* ===== verification/Pm_Query.thy ===== *)
theory Pm_Query
  imports Das_Props Pm_Letters
begin

text \<open>
  prefixmatch.cpp, the search of the server: the filter and the ranking of the results,
  \<^verbatim>\<open>Query\<close> and \<^verbatim>\<open>Get\<close>, and the loading of an index file. Logging is left out. The
  lock around the index and the reload are modelled in another theory.
\<close>

section \<open>Ranks\<close>

text \<open>\<^verbatim>\<open><\<close> on \<^verbatim>\<open>float\<close>: false on a NaN, and the two zeros are equal.\<close>

definition f32_magnitude :: "u32 \<Rightarrow> nat" where "f32_magnitude w = unat w mod 2 ^ 31"

definition f32_nan :: "u32 \<Rightarrow> bool" where "f32_nan w \<longleftrightarrow> 0x7f800000 < f32_magnitude w"

definition f32_value :: "u32 \<Rightarrow> int" where
  "f32_value w = (if 2 ^ 31 \<le> unat w then - int (f32_magnitude w) else int (f32_magnitude w))"



section \<open>Filtering the results\<close>

text \<open>\<^verbatim>\<open>string::find(sub) != npos\<close>.\<close>

definition str_contains :: "bytes \<Rightarrow> bytes \<Rightarrow> bool" where
  "str_contains s sub \<longleftrightarrow>
     list_ex (\<lambda>i. take (length sub) (drop i s) = sub) [0..<length s + 1]"

text \<open>\<^verbatim>\<open>set<NodeItem>::insert\<close>: ordered by name, an equal name is not inserted again.\<close>

fun set_insert :: "node_item \<Rightarrow> node_item list \<Rightarrow> node_item list" where
  "set_insert x [] = [x]"
| "set_insert x (y # ys) =
     (if bytes_less (strName x) (strName y) then x # y # ys
      else if bytes_less (strName y) (strName x) then y # set_insert x ys
      else y # ys)"

fun filter_loop :: "node_item list \<Rightarrow> bytes list \<Rightarrow> node_item list \<Rightarrow> node_item list" where
  "filter_loop [] rules resultSet = resultSet"
| "filter_loop (r # rs) rules resultSet =
     filter_loop rs rules
       (if list_all (str_contains (strName r)) rules then set_insert r resultSet else resultSet)"

text \<open>Comparing the unsigned index with \<^verbatim>\<open>int nMaxNumToGet\<close> converts the latter.\<close>

definition int_as_size :: "int \<Rightarrow> nat" where "int_as_size n = nat (n mod 2 ^ 64)"

definition filter_result :: "(node_item list \<Rightarrow> node_item list) \<Rightarrow> node_item list \<Rightarrow> bytes list \<Rightarrow>
  bytes list \<Rightarrow> int \<Rightarrow> bytes list" where
  "filter_result srt results filter_rule vecResult nMaxNumToGet =
     vecResult @ map strName (take (int_as_size nMaxNumToGet) (srt (filter_loop results filter_rule [])))"

section \<open>Query\<close>

text \<open>The characters of the query that are longer than one byte.\<close>

partial_function (option) chinese_loop :: "bytes \<Rightarrow> nat \<Rightarrow> bytes list \<Rightarrow> bytes list option" where
  "chinese_loop str p vChinese =
     (if p < length str then
        (if getUTF8Len (str ! p) = 1 then chinese_loop str (p + 1) vChinese
         else Option.bind (char_at str p (getUTF8Len (str ! p))) (\<lambda>c.
           chinese_loop str (p + getUTF8Len (str ! p)) (vChinese @ [c])))
      else Some vChinese)"

declare chinese_loop.simps [code]

text \<open>\<^verbatim>\<open>getChildren\<close> for each spelling, as a C string, into one result vector.\<close>

fun get_children_all :: "element5 trie \<Rightarrow> int \<Rightarrow> bytes list \<Rightarrow> string_array key_value_pair list \<Rightarrow>
  string_array key_value_pair list option" where
  "get_children_all t depth [] vec = Some vec"
| "get_children_all t depth (w # ws) vec =
     Option.bind (getChildren doublearray5_traits string_array_get t (takeWhile (\<lambda>b. b \<noteq> 0) w) vec depth)
       (\<lambda>(_, vec'). get_children_all t depth ws vec')"

definition Query :: "(node_item list \<Rightarrow> node_item list) \<Rightarrow> hashMap \<Rightarrow> element5 trie \<Rightarrow> int \<Rightarrow>
  bytes \<Rightarrow> bytes list \<Rightarrow> int \<Rightarrow> (int \<times> bytes list) option" where
  "Query srt chinese_map t max_depth strQuery vecResult nMaxNumToGet =
     Option.bind (chinese_loop strQuery 0 []) (\<lambda>vChinese.
     Option.bind (convert_to_letters strQuery chinese_map) (\<lambda>vLetters.
       if vLetters = [] then Some (- 1, vecResult)
       else Option.bind (get_children_all t max_depth vLetters []) (\<lambda>vResultTmp.
         Some (0, filter_result srt (concat (map kv_value vResultTmp)) vChinese vecResult nMaxNumToGet))))"

text \<open>\<^verbatim>\<open>Get\<close>; \<open>g_exiting\<close> is the flag of the same name.\<close>

definition Get :: "(node_item list \<Rightarrow> node_item list) \<Rightarrow> hashMap \<Rightarrow> element5 trie \<Rightarrow> int \<Rightarrow> bool \<Rightarrow>
  bytes \<Rightarrow> bytes list \<Rightarrow> (int \<times> bytes list) option" where
  "Get srt chinese_map t max_depth g_exiting line vRes =
     (if g_exiting then Some (0, [])
      else if line = [] then Some (- 1, vRes)
      else Query srt chinese_map t max_depth (trim line [32, 9, 13] True) vRes max_depth)"

section \<open>Loading an index file\<close>

text \<open>What \<^verbatim>\<open>open\<close> yields: a file with its content, on which \<^verbatim>\<open>fstat\<close> and \<^verbatim>\<open>mmap\<close> may fail.\<close>

record disk_file =
  df_content :: bytes
  df_fstat_ok :: bool
  df_mmap_ok :: bool

record indexobj =
  ix_mem :: "bytes option"
  ix_fsize :: int
  ix_trie :: "element5 trie"

definition indexobj_new :: indexobj where
  "indexobj_new = \<lparr>ix_mem = None, ix_fsize = 0, ix_trie = trie_new\<rparr>"

text \<open>The mapping of \<^verbatim>\<open>n\<close> bytes of a file: whole pages, zero after the end of the file.\<close>

definition mapped_pages :: "bytes \<Rightarrow> nat \<Rightarrow> bytes" where
  "mapped_pages content n =
     (let m = (n + 4095) div 4096 * 4096 in take m content @ replicate (m - length content) 0)"

text \<open>\<^verbatim>\<open>unsigned fsize = st.st_size\<close>, returned as an \<^verbatim>\<open>int\<close>.\<close>

definition mmap_file :: "disk_file \<Rightarrow> int \<times> bytes option" where
  "mmap_file f =
     (let fsize = (word_of_nat (length (df_content f)) :: u32)
      in if \<not> df_fstat_ok f then (- 1, None)
         else if fsize = 0 then (- 1, None)
         else if \<not> df_mmap_ok f then (- 1, None)
         else (sint fsize, Some (mapped_pages (df_content f) (unat fsize))))"

definition deinit_index :: "indexobj \<Rightarrow> indexobj" where
  "deinit_index index = index\<lparr>ix_mem := None\<rparr>"

definition init_index :: "disk_file option \<Rightarrow> indexobj \<Rightarrow> (int \<times> indexobj) option" where
  "init_index file index =
     (case file of None \<Rightarrow> Some (- 1, index)
      | Some f \<Rightarrow>
          (case mmap_file f of (fsize, mem) \<Rightarrow>
             if fsize = - 1 then Some (- 1, index)
             else let index1 = index\<lparr>ix_mem := mem, ix_fsize := fsize\<rparr>
                  in Option.bind (assign_image doublearray5_traits (the mem) (int_as_size fsize) (ix_trie index1))
                    (\<lambda>(used, t). let index2 = index1\<lparr>ix_trie := t\<rparr>
                      in Some (if used = 0 then (- 1, deinit_index index2) else (0, index2)))))"

definition Init_Index :: "bytes option \<Rightarrow> disk_file option \<Rightarrow> hashMap \<Rightarrow> indexobj \<Rightarrow>
  (int \<times> hashMap \<times> indexobj) option" where
  "Init_Index py_file index_file chinese_map g_index =
     (case read_chinese_map py_file chinese_map of (r, m) \<Rightarrow>
        if r \<noteq> 0 then Some (- 1, m, g_index)
        else Option.bind (init_index index_file g_index) (\<lambda>(r', ix).
          Some (if r' \<noteq> 0 then - 1 else 0, m, ix)))"

definition Deinit_Index :: "indexobj \<Rightarrow> int \<times> indexobj" where
  "Deinit_Index g_index = (0, deinit_index g_index)"

section \<open>The filter\<close>







text \<open>The order of the sort: an instance that puts the results without a rank last.\<close>

definition rank_key :: "node_item \<Rightarrow> int" where
  "rank_key it = (if f32_nan (fRank it) then 2 ^ 32 else f32_value (fRank it))"




section \<open>Answers\<close>

lemma chinese_loop_chars:
  "utf8_chars cs \<Longrightarrow> p = length pre \<Longrightarrow>
   chinese_loop (pre @ concat cs @ post) p vec =
     chinese_loop (pre @ concat cs @ post) (p + length (concat cs)) (vec @ filter (\<lambda>ch. length ch \<noteq> 1) cs)"
proof (induction cs arbitrary: pre p vec)
  case (Cons ch cs)
  have ch: "ch \<noteq> []" "length ch = getUTF8Len (hd ch)" "utf8_chars cs"
    using Cons.prems(1) by (auto simp: utf8_chars_def utf8_char_def)
  let ?s = "pre @ concat (ch # cs) @ post"
  have p: "?s ! p = hd ch" using Cons.prems(2) ch(1) by (simp add: nth_append hd_conv_nth)
  have lt: "p < length ?s" using ch(1) Cons.prems(2) by (cases ch) auto
  have at: "char_at ?s p (length ch) = Some ch"
    using char_at_append [OF Cons.prems(2) refl, of ch "concat cs @ post"] by simp
  have "chinese_loop ?s p vec = chinese_loop ?s (p + length ch)
      (vec @ (if length ch \<noteq> 1 then [ch] else []))"
    using chinese_loop.simps [of ?s p vec] lt p at ch(2) by (cases "length ch = 1") simp_all
  then show ?case
    using Cons.IH [OF ch(3), of "p + length ch" "pre @ ch"] Cons.prems(2)
    by (simp add: add.assoc)
qed simp


lemma chinese_loop_stuck:
  assumes "p < length str" "getUTF8Len (str ! p) = 0"
  shows "chinese_loop str p vec = None"
proof (rule ccontr)
  assume "chinese_loop str p vec \<noteq> None"
  then obtain y where y: "chinese_loop str p vec = Some y" by auto
  have "\<not> (p < length str \<and> getUTF8Len (str ! p) = 0)"
  proof (rule chinese_loop.raw_induct [where P = "\<lambda>str p vec y. \<not> (p < length str \<and> getUTF8Len (str ! p) = 0)", OF _ y])
    fix f :: "bytes \<Rightarrow> nat \<Rightarrow> bytes list \<Rightarrow> bytes list option" and str p vec y
    assume IH: "\<And>str p vec y. f str p vec = Some y \<Longrightarrow> \<not> (p < length str \<and> getUTF8Len (str ! p) = 0)"
      and body: "(if p < length str
         then if getUTF8Len (str ! p) = 1 then f str (p + 1) vec
              else Option.bind (char_at str p (getUTF8Len (str ! p))) (\<lambda>c. f str (p + getUTF8Len (str ! p)) (vec @ [c]))
         else Some vec) = Some y"
    show "\<not> (p < length str \<and> getUTF8Len (str ! p) = 0)"
    proof
      assume a: "p < length str \<and> getUTF8Len (str ! p) = 0"
      with body obtain v where "f str p v = Some y"
        by (auto simp: Option.bind_eq_Some_conv)
      from IH [OF this] a show False by blast
    qed
  qed
  with assms show False by blast
qed






text \<open>C24: A defect: a query with a byte that starts no UTF-8 character (a continuation byte, a byte
  from \<^verbatim>\<open>0xF8\<close> on, or NUL) never returns, whatever the index holds.\<close>

theorem query_invalid_utf8_hangs:
  assumes "utf8_chars cs" "getUTF8Len b = 0"
  shows "Query srt tbl t depth (concat cs @ b # rest) vec n = None"
proof -
  have "chinese_loop (concat cs @ b # rest) 0 [] = None"
    using chinese_loop_chars [OF assms(1), of 0 "[]" "b # rest" "[]"]
      chinese_loop_stuck [of "length (concat cs)" "concat cs @ b # rest"] assms(2) by simp
  then show ?thesis by (simp add: Query_def)
qed

theorem query_invalid_utf8_hangs_witness:
  "Query (sort_key rank_key) Map.empty trie_new 10 (concat [lit ''a''] @ 0x80 # []) [] 10 = None"
  by (rule query_invalid_utf8_hangs)
    (simp_all add: utf8_chars_def utf8_char_def lit_def getUTF8Len_def)

section \<open>From the file to the index\<close>

lemma mapped_pages_file: "\<exists>n. mapped_pages content (length content) = content @ replicate n 0"
proof -
  have le: "n \<le> (n + 4095) div 4096 * 4096" for n :: nat
    using div_mult_mod_eq [of "n + 4095" 4096] mod_less_divisor [of 4096 "n + 4095"] by linarith
  show ?thesis
    unfolding mapped_pages_def Let_def take_all [OF le] by blast
qed

lemma int_as_size_fsize: "n < 2 ^ 31 \<Longrightarrow> int_as_size (sint (word_of_nat n :: u32)) = n"
  by (simp add: int_as_size_def sint_uint signed_take_bit_int_eq_self uint_nat unat_u32)

lemma init_index_image:
  fixes s :: "element5 builder"
  assumes tbl: "length (m_table s) = NUMCHARS" and fits: "image_size doublearray5_traits s < 2 ^ 31"
  shows "\<exists>ix. init_index (Some \<lparr>df_content = builder_write doublearray5_traits s [], df_fstat_ok = True, df_mmap_ok = True\<rparr>)
      indexobj_new = Some (0, ix) \<and>
    t_table (ix_trie ix) = m_table s \<and> arr_list (t_da (ix_trie ix)) = m_da s \<and> arr_list (it_cont (t_tail (ix_trie ix))) = m_tail s"
proof -
  let ?img = "builder_write doublearray5_traits s []" and ?n = "image_size doublearray5_traits s"
  have len: "length ?img = ?n" using da5.length_builder_write [OF tbl, of "[]"] by simp
  have pos: "SDAT_CHUNKSIZE \<le> ?n" "0 < ?n" by (simp_all add: image_size_def das_consts)
  have w: "unat (word_of_nat ?n :: u32) = ?n" using fits by (simp add: unat_u32)
  have nz: "(word_of_nat ?n :: u32) \<noteq> 0" using w pos(2) by (metis unat_0 less_irrefl)
  obtain z where z: "mapped_pages ?img ?n = ?img @ replicate z 0"
    using mapped_pages_file [of ?img] len by auto
  obtain t where t: "assign_image doublearray5_traits (?img @ replicate z 0) ?n trie_new = Some (?n, t)"
    "t_table t = m_table s" "arr_list (t_da t) = m_da s" "arr_list (it_cont (t_tail t)) = m_tail s"
    using da5.assign_image_write [OF tbl _ pos(1), of "replicate z 0" trie_new] fits by auto
  have "sint (word_of_nat ?n :: u32) \<noteq> - 1"
    using int_as_size_fsize [OF fits] fits by (auto simp: int_as_size_def)
  then have "init_index (Some \<lparr>df_content = ?img, df_fstat_ok = True, df_mmap_ok = True\<rparr>) indexobj_new =
      Some (0, \<lparr>ix_mem = Some (?img @ replicate z 0), ix_fsize = sint (word_of_nat ?n :: u32), ix_trie = t\<rparr>)"
    using t(1) nz len w z pos(2) int_as_size_fsize [OF fits]
    by (simp add: init_index_def mmap_file_def indexobj_new_def)
  then show ?thesis using t(2-4) by simp
qed

lemma index_file_loads':
  assumes "std_sort_ok comp_freq srt" "keys_ok recs" "recs \<noteq> []"
  shows "outcome_ok (build doublearray5_traits string_array_put srt recs builder_new)
    (\<lambda>s. length (m_table s) = NUMCHARS \<and> (2 ^ 31 \<le> image_size doublearray5_traits s \<or>
       (\<exists>ix. init_index (Some \<lparr>df_content = builder_write doublearray5_traits s [],
              df_fstat_ok = True, df_mmap_ok = True\<rparr>) indexobj_new = Some (0, ix) \<and>
          trie_holds doublearray5_traits string_array_put recs (ix_trie ix))))"
proof (rule outcome_ok_mono [OF das5.build_represents [OF assms]])
  fix s :: "element5 builder"
  assume rep: "represents doublearray5_traits string_array_put recs (m_da s) (m_tail s) (m_table s)"
  have tbl: "length (m_table s) = NUMCHARS" using rep by (simp add: represents_def table_ok_def)
  then show "length (m_table s) = NUMCHARS \<and> (2 ^ 31 \<le> image_size doublearray5_traits s \<or>
      (\<exists>ix. init_index (Some \<lparr>df_content = builder_write doublearray5_traits s [], df_fstat_ok = True, df_mmap_ok = True\<rparr>)
         indexobj_new = Some (0, ix) \<and> trie_holds doublearray5_traits string_array_put recs (ix_trie ix)))"
    using init_index_image [OF tbl] rep by (fastforce simp: trie_holds_def not_le)
qed

text \<open>An index file with what the builder wrote, shorter than 2 GB, is loaded by \<^verbatim>\<open>init_index\<close>:
  it returns 0 and the index holds the records.\<close>

theorem index_file_loads:
  assumes "std_sort_ok comp_freq srt" "keys_ok recs" "recs \<noteq> []"
  shows "outcome_ok (build doublearray5_traits string_array_put srt recs builder_new)
    (\<lambda>s. 2 ^ 31 \<le> image_size doublearray5_traits s \<or>
       (\<exists>ix. init_index (Some \<lparr>df_content = builder_write doublearray5_traits s [],
              df_fstat_ok = True, df_mmap_ok = True\<rparr>) indexobj_new = Some (0, ix) \<and>
          trie_holds doublearray5_traits string_array_put recs (ix_trie ix)))"
  by (rule outcome_ok_mono [OF index_file_loads' [OF assms]]) blast

theorem index_file_loads_witness:
  "outcome_ok (build doublearray5_traits string_array_put (isort_by comp_freq) two_records builder_new)
    (\<lambda>s. 2 ^ 31 \<le> image_size doublearray5_traits s \<or>
       (\<exists>ix. init_index (Some \<lparr>df_content = builder_write doublearray5_traits s [],
              df_fstat_ok = True, df_mmap_ok = True\<rparr>) indexobj_new = Some (0, ix) \<and>
          trie_holds doublearray5_traits string_array_put two_records (ix_trie ix)))"
  by (rule index_file_loads [OF comp_freq_sort two_records_ok(1,2)])

end
