(* ===== verification/Pm_Indexer.thy ===== *)
theory Pm_Indexer
  imports Pm_Query
begin

text \<open>
  indexer.cpp: the options, the conversion of a line to its spellings, and
  \<^verbatim>\<open>create_index\<close>, which groups the items of the input by spelling, builds the trie and
  writes it. Files are their contents; \<^verbatim>\<open>atof\<close> and the conversion of its result to
  \<^verbatim>\<open>float\<close> are one function argument, of which nothing is assumed.
\<close>

section \<open>Options\<close>

definition MAX_FILE_LEN :: nat where "MAX_FILE_LEN = 256"

record conf =
  chinese_map_file :: bytes
  input_rank_file :: bytes
  output_index_file :: bytes

text \<open>\<^verbatim>\<open>snprintf(field, sizeof(field), "%s", value)\<close>.\<close>

definition conf_str :: "bytes \<Rightarrow> bytes" where
  "conf_str value = take (MAX_FILE_LEN - 1) value"

definition init_default_conf :: conf where
  "init_default_conf = \<lparr>chinese_map_file = conf_str (lit ''./chinese''),
     input_rank_file = conf_str (lit ''./input''), output_index_file = conf_str (lit ''./index'')\<rparr>"

text \<open>The options as \<^verbatim>\<open>getopt\<close> returns them. \<open>None\<close>: the program prints its usage and exits.\<close>

fun read_options :: "(char \<times> bytes) list \<Rightarrow> conf \<Rightarrow> conf option" where
  "read_options [] c = Some c"
| "read_options ((o', optarg) # rest) c =
     (if o' = CHR ''h'' then None
      else if o' = CHR ''C'' then read_options rest (c\<lparr>chinese_map_file := conf_str optarg\<rparr>)
      else if o' = CHR ''I'' then read_options rest (c\<lparr>input_rank_file := conf_str optarg\<rparr>)
      else if o' = CHR ''O'' then read_options rest (c\<lparr>output_index_file := conf_str optarg\<rparr>)
      else read_options rest c)"

definition check_conf :: "(bytes \<Rightarrow> bytes option) \<Rightarrow> conf \<Rightarrow> bool" where
  "check_conf files c \<longleftrightarrow> files (chinese_map_file c) \<noteq> None \<and> files (input_rank_file c) \<noteq> None"

section \<open>Spellings of a line\<close>

text \<open>The state of the scan: \<^verbatim>\<open>vecAll\<close>, \<^verbatim>\<open>vecFC\<close> and \<^verbatim>\<open>all_chinese_flag\<close>.\<close>

partial_function (option) ix_letters_loop :: "hashMap \<Rightarrow> bytes \<Rightarrow> nat \<Rightarrow>
  bytes list list \<times> bytes list list \<times> bool \<Rightarrow> (bytes list list \<times> bytes list list \<times> bool) option" where
  "ix_letters_loop tbl str p st =
     (if p < length str then
        Option.bind (char_at str p (getUTF8Len (str ! p))) (\<lambda>strKey.
          ix_letters_loop tbl str (p + getUTF8Len (str ! p))
            (let flag = (snd (snd st) \<and> \<not> getUTF8Len (str ! p) \<le> 1)
             in case tbl strKey of
                  Some items \<Rightarrow> (fst st @ [items], fst (snd st) @ [map (take 1) items], flag)
                | None \<Rightarrow> (fst st, fst (snd st), flag)))
      else Some st)"

declare ix_letters_loop.simps [code]

definition ix_convert_to_letters :: "bytes \<Rightarrow> hashMap \<Rightarrow> bytes list option" where
  "ix_convert_to_letters strIn tbl =
     (if all_english_char strIn then Some [strIn]
      else Option.bind (ix_letters_loop tbl strIn 0 ([], [], True)) (\<lambda>(vecAll, vecFC, all_chinese).
        Option.bind (get_all_results vecAll []) (\<lambda>vOut.
          if all_chinese then Option.bind (get_all_results vecFC []) (\<lambda>vTmp. Some (vOut @ vTmp))
          else Some vOut)))"

section \<open>Grouping the items\<close>

text \<open>\<^verbatim>\<open>mLetterToItems[k].push_back(item)\<close> on a \<^verbatim>\<open>std::map\<close>, the list of its records in key order.\<close>

fun map_push :: "bytes \<Rightarrow> node_item \<Rightarrow> string_array das_record list \<Rightarrow> string_array das_record list" where
  "map_push k it [] = [\<lparr>rec_key = k, rec_value = [it]\<rparr>]"
| "map_push k it (r # rs) =
     (if bytes_less (rec_key r) k then r # map_push k it rs
      else if bytes_less k (rec_key r) then \<lparr>rec_key = k, rec_value = [it]\<rparr> # r # rs
      else r\<lparr>rec_value := rec_value r @ [it]\<rparr> # rs)"

definition add_line :: "(bytes \<Rightarrow> u32) \<Rightarrow> hashMap \<Rightarrow> bytes \<Rightarrow> string_array das_record list \<Rightarrow>
  string_array das_record list option" where
  "add_line atof tbl strLine m =
     (let vResult = sepstr strLine [9] False
      in if length vResult \<noteq> 2 then Some m
         else let item = \<lparr>strName = vResult ! 0, fRank = atof (vResult ! 1)\<rparr>
              in Option.bind (ix_convert_to_letters strLine tbl) (\<lambda>vChinese.
                   Some (foldl (\<lambda>m k. map_push k item m) m vChinese)))"

fun add_lines :: "(bytes \<Rightarrow> u32) \<Rightarrow> hashMap \<Rightarrow> bytes list \<Rightarrow> string_array das_record list \<Rightarrow>
  string_array das_record list option" where
  "add_lines atof tbl [] m = Some m"
| "add_lines atof tbl (l # ls) m = Option.bind (add_line atof tbl l m) (add_lines atof tbl ls)"

text \<open>
  \<^verbatim>\<open>create_index\<close>: the return value and the file written. \<^verbatim>\<open>build(&allRecords[0],
  &allRecords[size - 1])\<close> takes all records but the last; without any record the two
  subscripts are outside the vector.
\<close>

definition create_index :: "(unigram_freq list \<Rightarrow> unigram_freq list) \<Rightarrow> (bytes \<Rightarrow> u32) \<Rightarrow> hashMap \<Rightarrow>
  bytes option \<Rightarrow> (das_error, int \<times> bytes option) outcome" where
  "create_index srt atof tbl infile =
     (case infile of None \<Rightarrow> Some (Inr (- 1, None))
      | Some content \<Rightarrow> Option.bind (add_lines atof tbl (getlines content) []) (\<lambda>allRecords.
          if allRecords = [] then None
          else bindR (build doublearray5_traits string_array_put srt (butlast allRecords) builder_new) (\<lambda>s.
            Some (Inr (0, Some (builder_write doublearray5_traits s []))))))"

text \<open>
  \<^verbatim>\<open>main\<close>: the exit status and the file written, with the files by name. An exception
  of the builder is not caught.
\<close>

definition indexer_main :: "(unigram_freq list \<Rightarrow> unigram_freq list) \<Rightarrow> (bytes \<Rightarrow> u32) \<Rightarrow>
  (char \<times> bytes) list \<Rightarrow> (bytes \<Rightarrow> bytes option) \<Rightarrow> (das_error, int \<times> (bytes \<times> bytes) option) outcome" where
  "indexer_main srt atof opts files =
     (case read_options opts init_default_conf of
        None \<Rightarrow> Some (Inr (0, None))
      | Some c \<Rightarrow>
          if \<not> check_conf files c then Some (Inr (- 1, None))
          else (case read_chinese_map (files (chinese_map_file c)) Map.empty of (r, chinese_map) \<Rightarrow>
            if r \<noteq> 0 then Some (Inr (- 1, None))
            else bindR (create_index srt atof chinese_map (files (input_rank_file c))) (\<lambda>(ret, out).
              Some (Inr (if ret \<noteq> 0 then - 1 else 0, map_option (\<lambda>f. (output_index_file c, f)) out)))))"

section \<open>The groups are sorted records\<close>

lemma keys_map_push: "rec_key ` set (map_push k it m) = insert k (rec_key ` set m)"
proof (induction k it m rule: map_push.induct)
  case (2 k it r rs)
  then show ?case using bytes_less_linear [of "rec_key r" k] by auto
qed simp

lemma sorted_map_push:
  "sorted_wrt bytes_less (map rec_key m) \<Longrightarrow> sorted_wrt bytes_less (map rec_key (map_push k it m))"
proof (induction k it m rule: map_push.induct)
  case (2 k it r rs)
  have "bytes_less (rec_key r) (rec_key x)" if "bytes_less (rec_key r) k" "x \<in> set (map_push k it rs)" for x
  proof -
    have "rec_key x \<in> insert k (rec_key ` set rs)" using that(2) keys_map_push by blast
    then show ?thesis using that(1) 2(2) by auto
  qed
  with 2 show ?case by (auto intro: bytes_less_trans)
qed simp

lemma sorted_add_lines:
  "add_lines atof tbl ls m = Some m' \<Longrightarrow> sorted_wrt bytes_less (map rec_key m) \<Longrightarrow>
   sorted_wrt bytes_less (map rec_key m')"
proof (induction ls arbitrary: m)
  case (Cons l ls)
  have push: "sorted_wrt bytes_less (map rec_key (foldl (\<lambda>m k. map_push k it m) m0 ks))"
    if "sorted_wrt bytes_less (map rec_key m0)" for it ks and m0 :: "string_array das_record list"
    using that by (induction ks arbitrary: m0) (auto intro: sorted_map_push)
  from Cons.prems(1) obtain m1 where m1: "add_line atof tbl l m = Some m1" "add_lines atof tbl ls m1 = Some m'"
    by (auto simp: Option.bind_eq_Some_conv)
  have "sorted_wrt bytes_less (map rec_key m1)"
    using m1(1) push Cons.prems(2)
    by (auto simp: add_line_def Let_def Option.bind_eq_Some_conv split: if_splits)
  then show ?case by (rule Cons.IH [OF m1(2)])
qed simp

section \<open>What the server finds in the index\<close>

lemma create_index_loads:
  assumes "std_sort_ok comp_freq srt" "add_lines atof tbl (getlines content) [] = Some recs"
    and "2 \<le> length recs" "\<forall>r\<in>set recs. nul_free (rec_key r)"
  shows "keys_ok (butlast recs)"
    and "outcome_ok (create_index srt atof tbl (Some content)) (\<lambda>(ret, out). ret = 0 \<and>
    (2 ^ 31 \<le> length (the out) \<or>
      (\<exists>ix. init_index (Some \<lparr>df_content = the out, df_fstat_ok = True, df_mmap_ok = True\<rparr>) indexobj_new = Some (0, ix) \<and>
        trie_holds doublearray5_traits string_array_put (butlast recs) (ix_trie ix))))"
proof -
  have sorted: "sorted_wrt bytes_less (map rec_key recs)" using sorted_add_lines [OF assms(2)] by simp
  have sub: "set (butlast recs) \<subseteq> set recs" by (auto dest: in_set_butlastD)
  have "recs = butlast recs @ [last recs]" using assms(3) by (cases recs rule: rev_cases) auto
  then have "sorted_wrt bytes_less (map rec_key (butlast recs))"
    using sorted by (metis map_append sorted_wrt_append)
  then show ok: "keys_ok (butlast recs)" using assms(4) sub by (auto simp: keys_ok_def)
  have ne: "butlast recs \<noteq> []" "recs \<noteq> []" using assms(3) by (cases recs rule: rev_cases; auto)+
  have b: "create_index srt atof tbl (Some content) =
      bindR (build doublearray5_traits string_array_put srt (butlast recs) builder_new) (\<lambda>s.
        Some (Inr (0, Some (builder_write doublearray5_traits s []))))"
    using assms(2) ne by (simp add: create_index_def)
  show "outcome_ok (create_index srt atof tbl (Some content)) (\<lambda>(ret, out). ret = 0 \<and>
    (2 ^ 31 \<le> length (the out) \<or>
      (\<exists>ix. init_index (Some \<lparr>df_content = the out, df_fstat_ok = True, df_mmap_ok = True\<rparr>) indexobj_new = Some (0, ix) \<and>
        trie_holds doublearray5_traits string_array_put (butlast recs) (ix_trie ix))))"
    unfolding b
  proof (rule outcome_ok_bind [OF index_file_loads' [OF assms(1) ok ne(1)]])
    fix s :: "element5 builder"
    assume s: "length (m_table s) = NUMCHARS \<and> (2 ^ 31 \<le> image_size doublearray5_traits s \<or>
       (\<exists>ix. init_index (Some \<lparr>df_content = builder_write doublearray5_traits s [],
              df_fstat_ok = True, df_mmap_ok = True\<rparr>) indexobj_new = Some (0, ix) \<and>
          trie_holds doublearray5_traits string_array_put (butlast recs) (ix_trie ix)))"
    then have "length (builder_write doublearray5_traits s []) = image_size doublearray5_traits s"
      using da5.length_builder_write [of s "[]"] by simp
    then show "outcome_ok (Some (Inr (0, Some (builder_write doublearray5_traits s [])))) (\<lambda>(ret, out). ret = (0::int) \<and>
      (2 ^ 31 \<le> length (the out) \<or>
        (\<exists>ix. init_index (Some \<lparr>df_content = the out, df_fstat_ok = True, df_mmap_ok = True\<rparr>) indexobj_new = Some (0, ix) \<and>
          trie_holds doublearray5_traits string_array_put (butlast recs) (ix_trie ix))))"
      using s by simp
  qed
qed

text \<open>C18: From the indexer to the server. For an input whose lines give at least two sorted groups,
  \<^verbatim>\<open>create_index\<close> returns 0 (or the builder throws for lack of space), and the server that loads
  the file it writes finds exactly the groups except the last: the record with the greatest key is
  never indexed.\<close>

theorem create_index_drops_last:
  assumes "std_sort_ok comp_freq srt" "add_lines atof tbl (getlines content) [] = Some recs"
    and "2 \<le> length recs" "\<forall>r\<in>set recs. nul_free (rec_key r) \<and> string_array_ok (rec_value r)" "nul_free k"
  shows "outcome_ok (create_index srt atof tbl (Some content)) (\<lambda>(ret, out). ret = 0 \<and>
    (2 ^ 31 \<le> length (the out) \<or>
      (\<exists>ix. init_index (Some \<lparr>df_content = the out, df_fstat_ok = True, df_mmap_ok = True\<rparr>) indexobj_new = Some (0, ix) \<and>
        (\<exists>t'. find doublearray5_traits string_array_get (ix_trie ix) k = Some (records_map (butlast recs) k, t')))))"
proof -
  have nf: "\<forall>r\<in>set recs. nul_free (rec_key r)" using assms(4) by blast
  note ci = create_index_loads [OF assms(1-3) nf]
  have vals: "\<forall>r\<in>set (butlast recs). string_array_ok (rec_value r) \<and> string_array_put [] (rec_value r) \<noteq> []"
    using assms(4) string_array_put_nonempty by (auto dest: in_set_butlastD)
  have "\<exists>t'. find doublearray5_traits string_array_get t k = Some (records_map (butlast recs) k, t')"
    if "trie_holds doublearray5_traits string_array_put (butlast recs) t" for t
    using das5.find_ok [OF that ci(1) assms(5) vals] by blast
  then show ?thesis by (intro outcome_ok_mono [OF ci(2)]) fastforce
qed

definition two_lines :: bytes where
  "two_lines = lit ''ab'' @ 9 # lit ''1'' @ 10 # lit ''cd'' @ 9 # lit ''2'' @ [10]"

definition two_line_records :: "string_array das_record list" where
  "two_line_records =
     [\<lparr>rec_key = lit ''ab'' @ 9 # lit ''1'', rec_value = [\<lparr>strName = lit ''ab'', fRank = 0\<rparr>]\<rparr>,
      \<lparr>rec_key = lit ''cd'' @ 9 # lit ''2'', rec_value = [\<lparr>strName = lit ''cd'', fRank = 0\<rparr>]\<rparr>]"

lemma two_lines_records: "add_lines (\<lambda>_. 0) Map.empty (getlines two_lines) [] = Some two_line_records"
proof -
  have l: "getlines two_lines = [lit ''ab'' @ 9 # lit ''1'', lit ''cd'' @ 9 # lit ''2'']"
    by (simp add: getlines_def two_lines_def lit_def)
  have "sepstr s [9] False = filter (\<lambda>w. w \<noteq> []) (fields_of {9} s)" for s
    by (simp add: sepstr_fields)
  then show ?thesis
    by (simp add: l add_line_def ix_convert_to_letters_def all_english_char_def two_line_records_def lit_def)
qed

theorem create_index_drops_last_witness:
  "outcome_ok (create_index (isort_by comp_freq) (\<lambda>_. 0) Map.empty (Some two_lines)) (\<lambda>(ret, out). ret = 0 \<and>
    (2 ^ 31 \<le> length (the out) \<or>
      (\<exists>ix. init_index (Some \<lparr>df_content = the out, df_fstat_ok = True, df_mmap_ok = True\<rparr>) indexobj_new = Some (0, ix) \<and>
        (\<exists>t'. find doublearray5_traits string_array_get (ix_trie ix) (lit ''cd'' @ 9 # lit ''2'') =
          Some (records_map (butlast two_line_records) (lit ''cd'' @ 9 # lit ''2''), t')))))"
  by (rule create_index_drops_last [OF comp_freq_sort two_lines_records])
    (simp_all add: two_line_records_def lit_def string_array_ok_def)

end
