(* ===== verification/Srv_Sys.thy ===== *)
theory Srv_Sys
  imports Pm_Util "HOL-Library.Monad_Syntax"
begin

text \<open>
  What the server asks of the operating system, of libevent and of the allocator: the
  operations are a record of functions over a world of any type, each returning its result
  and the next world. \<open>None\<close> as the result of a model function is behaviour that C leaves
  undefined: an access outside an allocation, a dangling pointer, or an overflow of a signed
  integer.
\<close>

section \<open>Operations\<close>

text \<open>
  The results that the code tells apart: a read that returns data, 0, \<^verbatim>\<open>EAGAIN\<close> or
  another error, and so on. The fields that return \<^verbatim>\<open>bool\<close> return success.
\<close>

datatype io_read = Read_bytes bytes | Read_eof | Read_again | Read_error
datatype io_send = Sent nat | Send_again | Send_error
datatype io_accept = Accepted int | Accept_intr | Accept_again | Accept_emfile | Accept_error

record 'w sys_ops =
  sys_malloc :: "nat \<Rightarrow> 'w \<Rightarrow> bytes option \<times> 'w"
  sys_read :: "int \<Rightarrow> nat \<Rightarrow> 'w \<Rightarrow> io_read \<times> 'w"
  sys_sendmsg :: "int \<Rightarrow> bytes \<Rightarrow> 'w \<Rightarrow> io_send \<times> 'w"
  sys_accept :: "int \<Rightarrow> 'w \<Rightarrow> io_accept \<times> 'w"
  sys_nonblock :: "int \<Rightarrow> 'w \<Rightarrow> bool \<times> 'w"
  sys_listen :: "int \<Rightarrow> int \<Rightarrow> 'w \<Rightarrow> bool \<times> 'w"
  sys_close :: "int \<Rightarrow> 'w \<Rightarrow> 'w"
  ev_add :: "int \<Rightarrow> int \<Rightarrow> 'w \<Rightarrow> bool \<times> 'w"
  ev_del :: "int \<Rightarrow> 'w \<Rightarrow> bool \<times> 'w"

text \<open>
  \<^verbatim>\<open>realloc(old, n)\<close> with the content it leaves: that of the old block, cut or followed by
  what the allocator has there. The second component is \<open>None\<close> when it returns \<^verbatim>\<open>NULL\<close>;
  the old block is then unchanged.
\<close>

definition realloc_bytes :: "'w sys_ops \<Rightarrow> bytes \<Rightarrow> nat \<Rightarrow> 'w \<Rightarrow> bytes option \<times> 'w" where
  "realloc_bytes ops old n w =
     (case sys_malloc ops n w of
        (None, w') \<Rightarrow> (None, w')
      | (Some mem, w') \<Rightarrow> (Some (take n old @ drop (length old) mem), w'))"

text \<open>The same for an array of structures; the new elements are not initialised.\<close>

definition realloc_array :: "'w sys_ops \<Rightarrow> nat \<Rightarrow> 'a option list \<Rightarrow> nat \<Rightarrow> 'w \<Rightarrow> 'a option list option \<times> 'w" where
  "realloc_array ops elem old n w =
     (case sys_malloc ops (elem * n) w of
        (None, w') \<Rightarrow> (None, w')
      | (Some _, w') \<Rightarrow> (Some (resize n None old), w'))"

section \<open>Integers and memory\<close>

definition INT_MAX :: int where "INT_MAX = 2 ^ 31 - 1"

text \<open>The conversion of an integer to \<^verbatim>\<open>int\<close>.\<close>

definition as_int :: "int \<Rightarrow> int" where
  "as_int n = signed_take_bit 31 n"

lemma as_int_id: "- (2 ^ 31) \<le> n \<Longrightarrow> n < 2 ^ 31 \<Longrightarrow> as_int n = n"
  unfolding as_int_def by (rule signed_take_bit_int_eq_self) auto

text \<open>\<^verbatim>\<open>htonl\<close>, \<^verbatim>\<open>ntohl\<close>: network order in memory.\<close>

definition be32 :: "u32 \<Rightarrow> bytes" where
  "be32 w = rev (le32 w)"

definition read_be32 :: "bytes \<Rightarrow> u32 option" where
  "read_be32 bs = (if length bs < 4 then None else read_le32 (rev (take 4 bs)))"

lemma length_be32 [simp]: "length (be32 w) = 4"
  by (simp add: be32_def)

lemma read_be32_be32 [simp]: "read_be32 (be32 w @ rest) = Some w"
  using read_le32_le32 [of w "[]"] by (simp add: read_be32_def be32_def)

text \<open>\<^verbatim>\<open>memmove(&buf[d], src, length src)\<close>.\<close>

definition mem_put :: "bytes \<Rightarrow> nat \<Rightarrow> bytes \<Rightarrow> bytes option" where
  "mem_put buf d src =
     (if d + length src \<le> length buf then Some (take d buf @ src @ drop (d + length src) buf) else None)"

lemma mem_putE:
  assumes "mem_put buf d src = Some buf'"
  shows "length buf' = length buf" "d + length src \<le> length buf" "take d buf' = take d buf"
    "take (length src) (drop d buf') = src" "drop (d + length src) buf' = drop (d + length src) buf"
  using assms by (auto simp: mem_put_def split: if_splits)

lemma mem_put_ok: "d + length src \<le> length buf \<Longrightarrow> mem_put buf d src = Some (take d buf @ src @ drop (d + length src) buf)"
  by (simp add: mem_put_def)

text \<open>Moving a pointer into a buffer: \<open>None\<close> when it leaves the buffer at the front.\<close>

definition ptr_add :: "nat \<Rightarrow> int \<Rightarrow> nat option" where
  "ptr_add p d = (if 0 \<le> int p + d then Some (nat (int p + d)) else None)"

lemma ptr_add_nat [simp]: "ptr_add p (int n) = Some (p + n)"
  by (simp add: ptr_add_def nat_int_add)

end
