(* ===== verification/Srv_Conn.thy ===== *)
theory Srv_Conn
  imports Srv_Sys
begin

text \<open>
  conn.h, head.h and the part of conn.cpp and network.cpp that works on one connection: the
  record of a connection, \<^verbatim>\<open>conn_set_state\<close>, \<^verbatim>\<open>conn_shrink\<close>, \<^verbatim>\<open>update_event\<close>.
  A pointer into the buffers of a connection is an offset; the buffers are the blocks
  allocated for it. Logging has no effect on a connection and is left out.
\<close>

section \<open>Constants and packets (head.h)\<close>

datatype conn_states = conn_listening | conn_new_cmd | conn_waiting | conn_read | conn_parse_cmd
  | conn_write | conn_nread | conn_swallow | conn_closing | conn_mwrite | conn_max_state

datatype network_transport = local_transport | tcp_transport | udp_transport

definition DATA_BUFFER_SIZE :: nat where "DATA_BUFFER_SIZE = 2048"
definition UDP_MAX_PAYLOAD_SIZE :: nat where "UDP_MAX_PAYLOAD_SIZE = 1400"
definition IOV_LIST_INITIAL :: nat where "IOV_LIST_INITIAL = 400"
definition MSG_LIST_INITIAL :: nat where "MSG_LIST_INITIAL = 10"
definition READ_BUFFER_HIGHWAT :: nat where "READ_BUFFER_HIGHWAT = 8192"
definition IOV_LIST_HIGHWAT :: nat where "IOV_LIST_HIGHWAT = 600"
definition MSG_LIST_HIGHWAT :: nat where "MSG_LIST_HIGHWAT = 100"
definition IOV_MAX :: nat where "IOV_MAX = 1024"

lemmas srv_consts = DATA_BUFFER_SIZE_def UDP_MAX_PAYLOAD_SIZE_def IOV_LIST_INITIAL_def MSG_LIST_INITIAL_def
  READ_BUFFER_HIGHWAT_def IOV_LIST_HIGHWAT_def MSG_LIST_HIGHWAT_def IOV_MAX_def

definition REQ :: byte where "REQ = 0x80"
definition RES :: byte where "RES = 0x81"

datatype response_status = RESPONSE_SUCCESS | RESPONSE_ENOMEM

fun status_code :: "response_status \<Rightarrow> 16 word" where
  "status_code RESPONSE_SUCCESS = 0x00"
| "status_code RESPONSE_ENOMEM = 0x82"

text \<open>
  \<^verbatim>\<open>request_header\<close> has 8 bytes: the magic, the opcode, two bytes of padding and the
  length of the body.
\<close>

record request_header =
  rq_magic :: byte
  rq_opcode :: byte
  rq_bodylen :: u32

definition sizeof_header :: nat where "sizeof_header = 8"

section \<open>A connection\<close>

text \<open>
  What \<^verbatim>\<open>iov_base\<close> may point to: the write buffer, the block of \<^verbatim>\<open>write_and_free\<close>, or a
  string constant of the program.
\<close>

datatype region = Wbuf | Resp | Text bytes

record iovec =
  iov_base :: "region \<times> nat"
  iov_len :: nat

text \<open>\<^verbatim>\<open>msg_iov\<close> is the index of the message's first entry in the \<^verbatim>\<open>iov\<close> of the connection.\<close>

record msghdr =
  msg_iov :: nat
  msg_iovlen :: nat
  msg_namelen :: nat

text \<open>
  \<^verbatim>\<open>wsize\<close>, \<^verbatim>\<open>iovsize\<close> and \<^verbatim>\<open>msgsize\<close> are the lengths of the blocks; \<^verbatim>\<open>rsize\<close> is a field of
  its own, since the code may store a truncated value there.
\<close>

record conn =
  sfd :: int
  state :: conn_states
  ev_flags :: int
  rbuf :: bytes
  rcurr :: nat
  rsize :: int
  rbytes :: nat
  wbuf :: bytes
  wcurr :: "region \<times> nat"
  wbytes :: nat
  write_and_go :: conn_states
  write_and_free :: "bytes option"
  ritem :: "nat option"
  rlbytes :: int
  sbytes :: int
  iov :: "iovec option list"
  iovused :: nat
  msglist :: "msghdr option list"
  msgused :: nat
  msgcurr :: nat
  msgbytes :: nat
  transport :: network_transport
  request_id :: nat
  request_addr_size :: nat
  binary_header :: request_header
  cmd :: int
  conn_thread :: "nat option"

definition conn_set_state :: "conn \<Rightarrow> conn_states \<Rightarrow> conn" where
  "conn_set_state c s = (if s \<noteq> state c then c\<lparr>state := s\<rparr> else c)"

lemma conn_set_state_eq [simp]: "conn_set_state c s = c\<lparr>state := s\<rparr>"
  by (simp add: conn_set_state_def)

section \<open>Shrinking the buffers\<close>

definition shrink_rbuf :: "'w sys_ops \<Rightarrow> conn \<Rightarrow> 'w \<Rightarrow> (conn \<times> 'w) option" where
  "shrink_rbuf ops c w =
     (if int READ_BUFFER_HIGHWAT < rsize c \<and> rbytes c < DATA_BUFFER_SIZE then do {
        buf \<leftarrow> (if rcurr c \<noteq> 0 then do {
                  data \<leftarrow> mem_slice (rbuf c) (rcurr c) (rbytes c);
                  mem_put (rbuf c) 0 data }
                else Some (rbuf c));
        (case realloc_bytes ops buf DATA_BUFFER_SIZE w of
           (Some newbuf, w') \<Rightarrow> Some (c\<lparr>rbuf := newbuf, rsize := int DATA_BUFFER_SIZE, rcurr := 0\<rparr>, w')
         | (None, w') \<Rightarrow> Some (c\<lparr>rbuf := buf, rcurr := 0\<rparr>, w')) }
      else Some (c, w))"

definition shrink_msglist :: "'w sys_ops \<Rightarrow> conn \<Rightarrow> 'w \<Rightarrow> conn \<times> 'w" where
  "shrink_msglist ops c w =
     (if MSG_LIST_HIGHWAT < length (msglist c) then
        case realloc_array ops 56 (msglist c) MSG_LIST_INITIAL w of
          (Some newbuf, w') \<Rightarrow> (c\<lparr>msglist := newbuf\<rparr>, w') | (None, w') \<Rightarrow> (c, w')
      else (c, w))"

definition shrink_iov :: "'w sys_ops \<Rightarrow> conn \<Rightarrow> 'w \<Rightarrow> conn \<times> 'w" where
  "shrink_iov ops c w =
     (if IOV_LIST_HIGHWAT < length (iov c) then
        case realloc_array ops 16 (iov c) IOV_LIST_INITIAL w of
          (Some newbuf, w') \<Rightarrow> (c\<lparr>iov := newbuf\<rparr>, w') | (None, w') \<Rightarrow> (c, w')
      else (c, w))"

definition conn_shrink :: "'w sys_ops \<Rightarrow> conn \<Rightarrow> 'w \<Rightarrow> (conn \<times> 'w) option" where
  "conn_shrink ops c w = do {
     (c1, w1) \<leftarrow> shrink_rbuf ops c w;
     (let (c2, w2) = shrink_msglist ops c1 w1 in Some (shrink_iov ops c2 w2)) }"

section \<open>Events\<close>

definition EV_READ_PERSIST :: int where "EV_READ_PERSIST = 0x12"
definition EV_WRITE_PERSIST :: int where "EV_WRITE_PERSIST = 0x14"

definition update_event :: "'w sys_ops \<Rightarrow> conn \<Rightarrow> int \<Rightarrow> 'w \<Rightarrow> bool \<times> conn \<times> 'w" where
  "update_event ops c new_flags w =
     (if ev_flags c = new_flags then (True, c, w)
      else case ev_del ops (sfd c) w of (r, w1) \<Rightarrow>
        if \<not> r then (False, c, w1)
        else case ev_add ops (sfd c) new_flags w1 of (r', w2) \<Rightarrow>
          (r', c\<lparr>ev_flags := new_flags\<rparr>, w2))"

end
