(* ===== verification/Srv_Output.thy ===== *)
theory Srv_Output
  imports Srv_Conn
begin

text \<open>
  The output side of server.cpp: the list of messages of a connection
  (\<^verbatim>\<open>add_msghdr\<close>, \<^verbatim>\<open>ensure_iov_space\<close>, \<^verbatim>\<open>add_iov\<close>), the responses built from it
  and \<^verbatim>\<open>transmit\<close>. The lemmas say which bytes the messages hold.
\<close>

section \<open>The list of messages\<close>

definition add_msghdr :: "'w sys_ops \<Rightarrow> conn \<Rightarrow> 'w \<Rightarrow> bool \<times> conn \<times> 'w" where
  "add_msghdr ops c w =
     (case (if length (msglist c) = msgused c
            then (case realloc_array ops 56 (msglist c) (length (msglist c) * 2) w of
                    (None, w') \<Rightarrow> (False, c, w')
                  | (Some msg, w') \<Rightarrow> (True, c\<lparr>msglist := msg\<rparr>, w'))
            else (True, c, w)) of
        (ok, c', w') \<Rightarrow>
          if \<not> ok then (False, c', w')
          else (True, c'\<lparr>msglist := (msglist c')[msgused c' := Some
                    \<lparr>msg_iov = iovused c', msg_iovlen = 0, msg_namelen = request_addr_size c'\<rparr>],
                 msgbytes := 0, msgused := msgused c' + 1\<rparr>, w'))"

text \<open>The loop that points all messages at the new \<^verbatim>\<open>iov\<close>.\<close>

fun point_messages :: "msghdr option list \<Rightarrow> nat \<Rightarrow> nat \<Rightarrow> nat \<Rightarrow> msghdr option list option" where
  "point_messages msgs i 0 iovnum = Some msgs"
| "point_messages msgs i (Suc n) iovnum =
     (if i < length msgs then
        case msgs ! i of None \<Rightarrow> None
        | Some m \<Rightarrow> point_messages (msgs[i := Some (m\<lparr>msg_iov := iovnum\<rparr>)]) (Suc i) n (iovnum + msg_iovlen m)
      else None)"

definition ensure_iov_space :: "'w sys_ops \<Rightarrow> conn \<Rightarrow> 'w \<Rightarrow> (bool \<times> conn \<times> 'w) option" where
  "ensure_iov_space ops c w =
     (if length (iov c) \<le> iovused c then
        case realloc_array ops 16 (iov c) (length (iov c) * 2) w of
          (None, w') \<Rightarrow> Some (False, c, w')
        | (Some new_iov, w') \<Rightarrow> do {
            msgs \<leftarrow> point_messages (msglist c) 0 (msgused c) 0;
            Some (True, c\<lparr>iov := new_iov, msglist := msgs\<rparr>, w') }
      else Some (True, c, w))"

definition last_msg :: "conn \<Rightarrow> msghdr option" where
  "last_msg c = (if 0 < msgused c \<and> msgused c \<le> length (msglist c) then msglist c ! (msgused c - 1) else None)"

text \<open>Storing the next fragment of \<^verbatim>\<open>len\<close> bytes in the last message.\<close>

definition put_fragment :: "conn \<Rightarrow> region \<times> nat \<Rightarrow> nat \<Rightarrow> conn option" where
  "put_fragment c buf len = do {
     m \<leftarrow> last_msg c;
     (if msg_iov m + msg_iovlen m < length (iov c) then
        Some (c\<lparr>iov := (iov c)[msg_iov m + msg_iovlen m := Some \<lparr>iov_base = buf, iov_len = len\<rparr>],
                msgbytes := msgbytes c + len, iovused := iovused c + 1,
                msglist := (msglist c)[msgused c - 1 := Some (m\<lparr>msg_iovlen := msg_iovlen m + 1\<rparr>)]\<rparr>)
      else None) }"

text \<open>
  \<^verbatim>\<open>add_iov\<close>. The failure of \<^verbatim>\<open>add_msghdr\<close> is ignored, as in the code, so that the loop
  may then run on with fragments of length 0.
\<close>

partial_function (option) add_iov :: "'w sys_ops \<Rightarrow> conn \<Rightarrow> region \<times> nat \<Rightarrow> nat \<Rightarrow> 'w \<Rightarrow> (bool \<times> conn \<times> 'w) option" where
  "add_iov ops c buf len w = do {
     m \<leftarrow> last_msg c;
     (let limit_to_mtu = (msgused c = 1);
          (ok, c1, w1) =
            (if msg_iovlen m = IOV_MAX \<or> (limit_to_mtu \<and> UDP_MAX_PAYLOAD_SIZE \<le> msgbytes c)
             then add_msghdr ops c w else (True, c, w))
      in do {
        (space, c2, w2) \<leftarrow> ensure_iov_space ops c1 w1;
        (if \<not> space then Some (False, c2, w2)
         else
           let leftover = (if limit_to_mtu \<and> UDP_MAX_PAYLOAD_SIZE < len + msgbytes c2
                           then len + msgbytes c2 - UDP_MAX_PAYLOAD_SIZE else 0)
           in do {
             c3 \<leftarrow> (if len < leftover then None else put_fragment c2 buf (len - leftover));
             (if 0 < leftover then add_iov ops c3 (fst buf, snd buf + (len - leftover)) leftover w2
              else Some (True, c3, w2)) }) }) }"

declare add_iov.simps [code]

section \<open>Responses\<close>

definition SERVER_ERROR_too_long :: bytes where
  "SERVER_ERROR_too_long = lit ''SERVER_ERROR output line too long''"

definition reset_messages :: "conn \<Rightarrow> conn" where
  "reset_messages c = c\<lparr>msgcurr := 0, msgused := 0, iovused := 0\<rparr>"

definition out_string :: "'w sys_ops \<Rightarrow> conn \<Rightarrow> bytes \<Rightarrow> 'w \<Rightarrow> (conn \<times> 'w) option" where
  "out_string ops c str0 w =
     (let (ok, c1, w1) = add_msghdr ops (reset_messages c) w;
          str = (if length (wbuf c1) < length str0 + 2 then SERVER_ERROR_too_long else str0)
      in do {
        buf \<leftarrow> mem_put (wbuf c1) 0 (str @ [13, 10]);
        Some (conn_set_state (c1\<lparr>wbuf := buf, wbytes := length str + 2, wcurr := (Wbuf, 0)\<rparr>) conn_write
                \<lparr>write_and_go := conn_new_cmd\<rparr>, w1) })"

text \<open>
  \<^verbatim>\<open>header->response.status = (uint16_t)htons(err)\<close> keeps the low byte of the swapped value.
  The two bytes of padding before \<^verbatim>\<open>bodylen\<close> are not written.
\<close>

definition htons :: "16 word \<Rightarrow> 16 word" where
  "htons w = (push_bit 8 w) OR (drop_bit 8 w)"

definition add_bin_header :: "'w sys_ops \<Rightarrow> conn \<Rightarrow> 16 word \<Rightarrow> u32 \<Rightarrow> 'w \<Rightarrow> (conn \<times> 'w) option" where
  "add_bin_header ops c err body_len w =
     (let (ok, c1, w1) = add_msghdr ops (reset_messages c) w
      in if \<not> ok then out_string ops c1 (lit ''SERVER_ERROR out of memory'') w1
         else do {
           buf \<leftarrow> mem_put (wbuf c1) 0 [RES, ucast (htons err)];
           buf' \<leftarrow> mem_put buf 4 (be32 body_len);
           (_, c2, w2) \<leftarrow> add_iov ops (c1\<lparr>wbuf := buf'\<rparr>) (Wbuf, 0) sizeof_header w1;
           Some (c2, w2) })"

text \<open>\<open>None\<close> for a status other than \<^verbatim>\<open>RESPONSE_ENOMEM\<close>: the assertion fails.\<close>

definition error_text :: "response_status \<Rightarrow> bytes option" where
  "error_text err = (if err = RESPONSE_ENOMEM then Some (lit ''Out of memory'') else None)"

definition write_bin_error :: "'w sys_ops \<Rightarrow> conn \<Rightarrow> response_status \<Rightarrow> int \<Rightarrow> 'w \<Rightarrow> (conn \<times> 'w) option" where
  "write_bin_error ops c err swallow w = do {
     errstr \<leftarrow> error_text err;
     (c1, w1) \<leftarrow> add_bin_header ops c (status_code err) (of_nat (length errstr)) w;
     (_, c2, w2) \<leftarrow> (if errstr \<noteq> [] then add_iov ops c1 (Text errstr, 0) (length errstr) w1 else Some (True, c1, w1));
     (let c3 = conn_set_state c2 conn_mwrite
      in Some (if 0 < swallow then c3\<lparr>sbytes := swallow, write_and_go := conn_swallow\<rparr>
               else c3\<lparr>write_and_go := conn_new_cmd\<rparr>, w2)) }"

text \<open>The response lies in the block of \<^verbatim>\<open>write_and_free\<close>, which the caller has set.\<close>

definition write_bin_response :: "'w sys_ops \<Rightarrow> conn \<Rightarrow> nat \<Rightarrow> 'w \<Rightarrow> (conn \<times> 'w) option" where
  "write_bin_response ops c dlen w = do {
     (c1, w1) \<leftarrow> add_bin_header ops c 0 (of_nat dlen) w;
     (_, c2, w2) \<leftarrow> (if 0 < dlen then add_iov ops c1 (Resp, 0) dlen w1 else Some (True, c1, w1));
     Some (conn_set_state c2 conn_mwrite\<lparr>write_and_go := conn_new_cmd\<rparr>, w2) }"

section \<open>Transmission\<close>

datatype transmit_result = TRANSMIT_COMPLETE | TRANSMIT_INCOMPLETE | TRANSMIT_SOFT_ERROR | TRANSMIT_HARD_ERROR

definition region_mem :: "conn \<Rightarrow> region \<Rightarrow> bytes option" where
  "region_mem c r = (case r of Wbuf \<Rightarrow> Some (wbuf c) | Resp \<Rightarrow> write_and_free c | Text s \<Rightarrow> Some s)"

definition iovec_bytes :: "conn \<Rightarrow> iovec option \<Rightarrow> bytes option" where
  "iovec_bytes c v = do {
     e \<leftarrow> v;
     mem \<leftarrow> region_mem c (fst (iov_base e));
     mem_slice mem (snd (iov_base e)) (iov_len e) }"

text \<open>What \<^verbatim>\<open>sendmsg\<close> gathers from \<^verbatim>\<open>n\<close> entries.\<close>

fun gather :: "conn \<Rightarrow> nat \<Rightarrow> nat \<Rightarrow> bytes option" where
  "gather c i 0 = Some []"
| "gather c i (Suc n) =
     (if i < length (iov c) then do {
        bs \<leftarrow> iovec_bytes c (iov c ! i);
        rest \<leftarrow> gather c (Suc i) n;
        Some (bs @ rest) }
      else None)"

text \<open>The loop that drops the entries written completely, and the entry written in part.\<close>

fun drop_written :: "iovec option list \<Rightarrow> nat \<Rightarrow> nat \<Rightarrow> nat \<Rightarrow> (nat \<times> nat \<times> nat) option" where
  "drop_written v i 0 res = Some (i, 0, res)"
| "drop_written v i (Suc n) res =
     (if i < length v then
        case v ! i of None \<Rightarrow> None
        | Some e \<Rightarrow> if iov_len e \<le> res then drop_written v (Suc i) n (res - iov_len e) else Some (i, Suc n, res)
      else None)"

definition cut_entry :: "iovec option list \<Rightarrow> nat \<Rightarrow> nat \<Rightarrow> iovec option list option" where
  "cut_entry v i res =
     (if res = 0 then Some v
      else if i < length v then
        case v ! i of None \<Rightarrow> None
        | Some e \<Rightarrow> Some (v[i := Some \<lparr>iov_base = (fst (iov_base e), snd (iov_base e) + res), iov_len = iov_len e - res\<rparr>])
      else None)"

definition msg_at :: "conn \<Rightarrow> nat \<Rightarrow> msghdr option" where
  "msg_at c i = (if i < length (msglist c) then msglist c ! i else None)"

text \<open>The step past a message that is complete.\<close>

definition skip_msg :: "conn \<Rightarrow> conn option" where
  "skip_msg c = (if msgcurr c < msgused c then do {
      m \<leftarrow> msg_at c (msgcurr c);
      Some (if msg_iovlen m = 0 then c\<lparr>msgcurr := msgcurr c + 1\<rparr> else c) }
    else Some c)"

definition transmit :: "'w sys_ops \<Rightarrow> conn \<Rightarrow> 'w \<Rightarrow> (transmit_result \<times> conn \<times> 'w) option" where
  "transmit ops c0 w = do {
     c \<leftarrow> skip_msg c0;
     (if msgcurr c < msgused c then do {
        m \<leftarrow> msg_at c (msgcurr c);
        bs \<leftarrow> gather c (msg_iov m) (msg_iovlen m);
        (case sys_sendmsg ops (sfd c) bs w of
           (Sent res, w') \<Rightarrow>
             if 0 < res then do {
               (i, n, res') \<leftarrow> drop_written (iov c) (msg_iov m) (msg_iovlen m) res;
               v \<leftarrow> cut_entry (iov c) i res';
               Some (TRANSMIT_INCOMPLETE,
                     c\<lparr>iov := v, msglist := (msglist c)[msgcurr c := Some (m\<lparr>msg_iov := i, msg_iovlen := n\<rparr>)]\<rparr>, w') }
             else Some (TRANSMIT_HARD_ERROR, conn_set_state c conn_closing, w')
         | (Send_again, w') \<Rightarrow>
             (case update_event ops c EV_WRITE_PERSIST w' of (r, c', w'') \<Rightarrow>
                if \<not> r then Some (TRANSMIT_HARD_ERROR, conn_set_state c' conn_closing, w'')
                else Some (TRANSMIT_SOFT_ERROR, c', w''))
         | (Send_error, w') \<Rightarrow> Some (TRANSMIT_HARD_ERROR, conn_set_state c conn_closing, w')) }
      else Some (TRANSMIT_COMPLETE, c, w)) }"

end
