(* ===== verification/Srv_Input.thy ===== *)
theory Srv_Input
  imports Srv_Output
begin

text \<open>
  The input side: reading from the socket (network.cpp), the request header
  (\<^verbatim>\<open>try_read_command\<close>, \<^verbatim>\<open>bin_read_key\<close>) and the answer to a complete request
  (\<^verbatim>\<open>complete_nread\<close>) of server.cpp. \<^verbatim>\<open>Get\<close> is the function argument \<open>answer\<close>: its result and
  the strings it returns, \<open>None\<close> when it does not return.
\<close>

section \<open>Reading from the socket\<close>

datatype try_read_result = READ_DATA_RECEIVED | READ_NO_DATA_RECEIVED | READ_ERROR | READ_MEMORY_ERROR

text \<open>Moving what is unparsed to the front of the buffer.\<close>

definition repack :: "conn \<Rightarrow> conn option" where
  "repack c =
     (if rcurr c \<noteq> 0 then
        if rbytes c \<noteq> 0 then do {
          data \<leftarrow> mem_slice (rbuf c) (rcurr c) (rbytes c);
          buf \<leftarrow> mem_put (rbuf c) 0 data;
          Some (c\<lparr>rbuf := buf, rcurr := 0\<rparr>) }
        else Some (c\<lparr>rcurr := 0\<rparr>)
      else Some c)"

text \<open>
  The start of a round: a full buffer is doubled, at most \<open>left\<close> times more. A
  \<^verbatim>\<open>rsize * 2\<close> that overflows is undefined.
\<close>

datatype room = Room | Enough | No_memory

definition trn_room :: "'w sys_ops \<Rightarrow> nat \<Rightarrow> conn \<Rightarrow> 'w \<Rightarrow> (room \<times> nat \<times> conn \<times> 'w) option" where
  "trn_room ops left c w =
     (if int (rbytes c) < rsize c then Some (Room, left, c, w)
      else if left = 0 then Some (Enough, left, c, w)
      else if INT_MAX < rsize c * 2 \<or> rsize c \<le> 0 then None
      else case realloc_bytes ops (rbuf c) (nat (rsize c * 2)) w of
        (None, w1) \<Rightarrow> do {
          (c1, w2) \<leftarrow> out_string ops (c\<lparr>rbytes := 0\<rparr>) (lit ''SERVER_ERROR out of memory reading request'') w1;
          Some (No_memory, left - 1, c1\<lparr>write_and_go := conn_closing\<rparr>, w2) }
      | (Some new_rbuf, w1) \<Rightarrow>
          Some (Room, left - 1, c\<lparr>rbuf := new_rbuf, rcurr := 0, rsize := rsize c * 2\<rparr>, w1))"

text \<open>One \<^verbatim>\<open>read\<close> of all the room there is, behind what is in the buffer.\<close>

definition trn_avail :: "conn \<Rightarrow> nat" where
  "trn_avail c = nat (rsize c - int (rbytes c))"

definition trn_recv :: "'w sys_ops \<Rightarrow> conn \<Rightarrow> 'w \<Rightarrow> (io_read \<times> conn \<times> 'w) option" where
  "trn_recv ops c w =
     (case sys_read ops (sfd c) (trn_avail c) w of
        (Read_bytes bs, w') \<Rightarrow> do {
          buf \<leftarrow> mem_put (rbuf c) (rbytes c) bs;
          Some (Read_bytes bs, c\<lparr>rbuf := buf, rbytes := rbytes c + length bs\<rparr>, w') }
      | (r, w') \<Rightarrow> Some (r, c, w'))"

lemma trn_recv_full:
  assumes "trn_recv ops c w = Some (Read_bytes bs, c', w')" "length bs = trn_avail c"
  shows "rsize c' \<le> int (rbytes c')"
  using assms by (auto simp: trn_recv_def trn_avail_def Option.bind_eq_Some_conv split: prod.splits io_read.splits)

lemma trn_room_left:
  assumes "trn_room ops left c w = Some (Room, left', c', w')"
  shows "left' < left \<or> (left' = left \<and> int (rbytes c) < rsize c)"
  using assms by (auto simp: trn_room_def Option.bind_eq_Some_conv split: if_splits prod.splits option.splits)

function trn_loop :: "'w sys_ops \<Rightarrow> nat \<Rightarrow> try_read_result \<Rightarrow> conn \<Rightarrow> 'w \<Rightarrow> (try_read_result \<times> conn \<times> 'w) option" where
  "trn_loop ops left gotdata c w =
     (case trn_room ops left c w of
        None \<Rightarrow> None
      | Some (Enough, left', c1, w1) \<Rightarrow> Some (gotdata, c1, w1)
      | Some (No_memory, left', c1, w1) \<Rightarrow> Some (READ_MEMORY_ERROR, c1, w1)
      | Some (Room, left', c1, w1) \<Rightarrow>
          (case trn_recv ops c1 w1 of
             None \<Rightarrow> None
           | Some (Read_bytes bs, c2, w2) \<Rightarrow>
               if length bs = trn_avail c1 then trn_loop ops left' READ_DATA_RECEIVED c2 w2
               else Some (READ_DATA_RECEIVED, c2, w2)
           | Some (Read_eof, c2, w2) \<Rightarrow> Some (READ_ERROR, c2, w2)
           | Some (Read_again, c2, w2) \<Rightarrow> Some (gotdata, c2, w2)
           | Some (Read_error, c2, w2) \<Rightarrow> Some (READ_ERROR, c2, w2)))"
  by pat_completeness auto

termination
  by (relation "measures [\<lambda>(ops, left, g, c, w). left, \<lambda>(ops, left, g, c, w). if rsize c \<le> int (rbytes c) then 0 else 1]")
    (auto dest: trn_recv_full trn_room_left)

definition try_read_network :: "'w sys_ops \<Rightarrow> conn \<Rightarrow> 'w \<Rightarrow> (try_read_result \<times> conn \<times> 'w) option" where
  "try_read_network ops c w = do {
     c1 \<leftarrow> repack c;
     trn_loop ops 4 READ_NO_DATA_RECEIVED c1 w }"

text \<open>
  \<^verbatim>\<open>try_read_udp\<close>, which no function calls: the datagram comes from the argument
  \<open>recvfrom\<close>, \<open>None\<close> for an error.
\<close>

definition try_read_udp :: "'w sys_ops \<Rightarrow> (nat \<Rightarrow> 'w \<Rightarrow> bytes option \<times> 'w) \<Rightarrow> conn \<Rightarrow> 'w \<Rightarrow>
  (try_read_result \<times> conn \<times> 'w) option" where
  "try_read_udp ops recvfrom c0 w =
     (let c = c0\<lparr>request_addr_size := 16\<rparr>
      in case recvfrom (nat (rsize c)) w of
           (None, w') \<Rightarrow> Some (READ_NO_DATA_RECEIVED, c, w')
         | (Some bs, w') \<Rightarrow> do {
             buf \<leftarrow> mem_put (rbuf c) 0 bs;
             (if length bs \<le> 8 then Some (READ_NO_DATA_RECEIVED, c\<lparr>rbuf := buf\<rparr>, w')
              else
                let c1 = c\<lparr>rbuf := buf, request_id := unat (buf ! 0) * 256 + unat (buf ! 1)\<rparr>
                in if buf ! 4 \<noteq> 0 \<or> buf ! 5 \<noteq> 1
                   then do {
                     (c2, w2) \<leftarrow> out_string ops c1 (lit ''SERVER_ERROR multi-packet request not supported'') w';
                     Some (READ_NO_DATA_RECEIVED, c2, w2) }
                   else do {
                     buf' \<leftarrow> mem_put buf 0 (drop 8 bs);
                     Some (READ_DATA_RECEIVED, c1\<lparr>rbuf := buf', rbytes := length bs - 8, rcurr := 0\<rparr>, w') }) })"

section \<open>The request header\<close>

text \<open>\<^verbatim>\<open>while (size > nsize) nsize *= 2\<close> on \<^verbatim>\<open>size_t\<close>.\<close>

partial_function (option) grow_size :: "nat \<Rightarrow> nat \<Rightarrow> nat option" where
  "grow_size size' nsize = (if nsize < size' then grow_size size' (nsize * 2 mod 2 ^ 64) else Some nsize)"

declare grow_size.simps [code]

text \<open>
  Making room for the body: the buffer is enlarged, then moved to the front. \<open>Inl\<close> is the early
  return when there is no memory.
\<close>

definition grow_rbuf :: "'w sys_ops \<Rightarrow> conn \<Rightarrow> 'w \<Rightarrow> ((conn + conn) \<times> 'w) option" where
  "grow_rbuf ops c w =
     (let offset = int (rcurr c + sizeof_header)
      in if rsize c - offset < rlbytes c then do {
           nsize \<leftarrow> grow_size (nat ((rlbytes c + int sizeof_header) mod 2 ^ 64)) (nat (rsize c mod 2 ^ 64));
           (if int nsize \<noteq> rsize c mod 2 ^ 64
            then (case realloc_bytes ops (rbuf c) nsize w of
                    (None, w') \<Rightarrow> Some (Inl (conn_set_state c conn_closing), w')
                  | (Some newm, w') \<Rightarrow> do {
                      c' \<leftarrow> repack (c\<lparr>rbuf := newm, rsize := as_int (int nsize)\<rparr>);
                      Some (Inr c', w') })
            else do { c' \<leftarrow> repack c; Some (Inr c', w) }) }
         else Some (Inr c, w))"

definition bin_read_key :: "'w sys_ops \<Rightarrow> conn \<Rightarrow> 'w \<Rightarrow> (conn \<times> 'w) option" where
  "bin_read_key ops c0 w = do {
     (r, w') \<leftarrow> grow_rbuf ops (c0\<lparr>rlbytes := as_int (uint (rq_bodylen (binary_header c0)))\<rparr>) w;
     (case r of Inl c \<Rightarrow> Some (c, w')
      | Inr c \<Rightarrow> Some (conn_set_state (c\<lparr>ritem := Some (rcurr c + sizeof_header)\<rparr>) conn_nread, w')) }"

definition dispatch_bin_command :: "'w sys_ops \<Rightarrow> conn \<Rightarrow> 'w \<Rightarrow> (conn \<times> 'w) option" where
  "dispatch_bin_command ops c w = bin_read_key ops c w"

text \<open>The header as \<^verbatim>\<open>try_read_command\<close> stores it, with the length in host order.\<close>

definition read_header :: "bytes \<Rightarrow> request_header option" where
  "read_header h =
     (if length h < sizeof_header then None
      else map_option (\<lambda>n. \<lparr>rq_magic = h ! 0, rq_opcode = h ! 1, rq_bodylen = n\<rparr>) (read_be32 (drop 4 h)))"

definition try_read_command :: "'w sys_ops \<Rightarrow> conn \<Rightarrow> 'w \<Rightarrow> (int \<times> conn \<times> 'w) option" where
  "try_read_command ops c w =
     (if rbytes c = 0 then None
      else if rbytes c < sizeof_header then Some (0, c, w)
      else do {
        h \<leftarrow> mem_slice (rbuf c) (rcurr c) sizeof_header;
        req \<leftarrow> read_header h;
        (if rq_magic req \<noteq> REQ then Some (- 1, conn_set_state c conn_closing, w)
         else
           let (ok, c1, w1) = add_msghdr ops (reset_messages (c\<lparr>binary_header := req\<rparr>)) w
           in if \<not> ok then do {
                (c2, w2) \<leftarrow> out_string ops c1 (lit ''SERVER_ERROR out of memory'') w1;
                Some (0, c2, w2) }
              else do {
                (c2, w2) \<leftarrow> dispatch_bin_command ops (c1\<lparr>cmd := uint (rq_opcode req)\<rparr>) w1;
                Some (1, c2\<lparr>rbytes := rbytes c2 - sizeof_header, rcurr := rcurr c2 + sizeof_header\<rparr>, w2) }) })"

section \<open>The answer\<close>

definition DEFAULT_GET_NUMBER :: nat where "DEFAULT_GET_NUMBER = 10"

text \<open>The number reported: what was asked for, 10 for 0, at most the number of results.\<close>

definition reply_number :: "u32 \<Rightarrow> bytes list \<Rightarrow> u32" where
  "reply_number number vRes =
     (let n = (if number = 0 then of_nat DEFAULT_GET_NUMBER else number)
      in if length vRes < unat n then of_nat (length vRes) else n)"

text \<open>The response: the number, then every result with its length. The number does not limit them.\<close>

definition reply_body :: "u32 \<Rightarrow> bytes list \<Rightarrow> bytes" where
  "reply_body number vRes = le32 number @ concat (map (\<lambda>s. le32 (of_nat (length s)) @ s) vRes)"

text \<open>
  \<^verbatim>\<open>string key(data, 0, n)\<close> on a \<^verbatim>\<open>char *\<close>: the C string at \<open>data\<close>, cut to \<open>n\<close>. Its end may lie
  beyond the body, and no end in the buffer is a read outside it. \<open>n\<close> is computed on
  \<^verbatim>\<open>size_t\<close>, where a body shorter than 4 bytes wraps.
\<close>

definition request_key :: "bytes \<Rightarrow> nat \<Rightarrow> nat \<Rightarrow> bytes option" where
  "request_key buf data vlen = do {
     n \<leftarrow> strlen_at buf data;
     Some (take (nat ((int vlen - 4) mod 2 ^ 64)) (take n (drop data buf))) }"

definition complete_nread :: "'w sys_ops \<Rightarrow> (bytes \<Rightarrow> (int \<times> bytes list) option) \<Rightarrow> conn \<Rightarrow> 'w \<Rightarrow> (conn \<times> 'w) option" where
  "complete_nread ops answer c w =
     (let vlen = unat (rq_bodylen (binary_header c))
      in do {
        item \<leftarrow> ritem c;
        data \<leftarrow> ptr_add item (- int vlen);
        nb \<leftarrow> mem_slice (rbuf c) data 4;
        number \<leftarrow> read_le32 nb;
        key \<leftarrow> request_key (rbuf c) (data + 4) vlen;
        (ret, vRes) \<leftarrow> answer key;
        (if ret \<noteq> 0 then write_bin_error ops c RESPONSE_ENOMEM 0 w
         else
           let resp = reply_body (reply_number number vRes) vRes
           in if INT_MAX < int (length resp) then None
              else case sys_malloc ops (length resp + 1) w of
                (None, w') \<Rightarrow> write_bin_error ops c RESPONSE_ENOMEM 0 w'
              | (Some _, w') \<Rightarrow>
                  write_bin_response ops (c\<lparr>write_and_free := Some (resp @ [0])\<rparr>) (length resp) w') })"

text \<open>Two helpers that no function calls.\<close>

definition write_and_free_buf :: "'w sys_ops \<Rightarrow> conn \<Rightarrow> bytes option \<Rightarrow> nat \<Rightarrow> 'w \<Rightarrow> (conn \<times> 'w) option" where
  "write_and_free_buf ops c buf n w =
     (case buf of
        Some b \<Rightarrow> Some (conn_set_state (c\<lparr>write_and_free := Some b, wcurr := (Resp, 0), wbytes := n\<rparr>) conn_write\<lparr>write_and_go := conn_new_cmd\<rparr>, w)
      | None \<Rightarrow> out_string ops c (lit ''SERVER_ERROR out of memory writing stats'') w)"

definition get_request :: "conn \<Rightarrow> nat option" where
  "get_request c = ptr_add (rcurr c) (- int sizeof_header)"

definition reset_cmd_handler :: "'w sys_ops \<Rightarrow> conn \<Rightarrow> 'w \<Rightarrow> (conn \<times> 'w) option" where
  "reset_cmd_handler ops c w = do {
     (c1, w1) \<leftarrow> conn_shrink ops (c\<lparr>cmd := - 1\<rparr>) w;
     Some (conn_set_state c1 (if 0 < rbytes c1 then conn_parse_cmd else conn_waiting), w1) }"

end
