(* ===== verification/Srv_Drive.thy ===== *)
theory Srv_Drive
  imports Srv_Input
begin

text \<open>
  \<^verbatim>\<open>drive_machine\<close> of server.cpp on the connection of a client: one round of its loop for every
  state but \<^verbatim>\<open>conn_listening\<close> and \<^verbatim>\<open>conn_closing\<close>, which involve the other
  connections of the server and are treated with them. A round returns the connection, what
  is left of \<^verbatim>\<open>nreqs\<close>, the flag \<^verbatim>\<open>stop\<close> and the world.
\<close>

type_synonym 'w round = "(conn \<times> int \<times> bool \<times> 'w) option"

text \<open>\<^verbatim>\<open>if (!update_event(...)) conn_set_state(c, conn_closing)\<close>.\<close>

definition event_or_close :: "'w sys_ops \<Rightarrow> conn \<Rightarrow> int \<Rightarrow> 'w \<Rightarrow> bool \<times> conn \<times> 'w" where
  "event_or_close ops c f w =
     (case update_event ops c f w of
        (r, c', w') \<Rightarrow> if r then (True, c', w') else (False, conn_set_state c' conn_closing, w'))"

definition step_waiting :: "'w sys_ops \<Rightarrow> conn \<Rightarrow> int \<Rightarrow> 'w \<Rightarrow> 'w round" where
  "step_waiting ops c nreqs w =
     (case event_or_close ops c EV_READ_PERSIST w of
        (True, c', w') \<Rightarrow> Some (conn_set_state c' conn_read, nreqs, True, w')
      | (False, c', w') \<Rightarrow> Some (c', nreqs, False, w'))"

definition step_read :: "'w sys_ops \<Rightarrow> conn \<Rightarrow> int \<Rightarrow> 'w \<Rightarrow> 'w round" where
  "step_read ops c nreqs w = do {
     (r, c', w') \<leftarrow> try_read_network ops c w;
     Some (case r of
         READ_NO_DATA_RECEIVED \<Rightarrow> conn_set_state c' conn_waiting
       | READ_DATA_RECEIVED \<Rightarrow> conn_set_state c' conn_parse_cmd
       | READ_ERROR \<Rightarrow> conn_set_state c' conn_closing
       | READ_MEMORY_ERROR \<Rightarrow> c', nreqs, False, w') }"

definition step_parse_cmd :: "'w sys_ops \<Rightarrow> conn \<Rightarrow> int \<Rightarrow> 'w \<Rightarrow> 'w round" where
  "step_parse_cmd ops c nreqs w = do {
     (r, c', w') \<leftarrow> try_read_command ops c w;
     Some (if r = 0 then conn_set_state c' conn_waiting else c', nreqs, False, w') }"

definition step_new_cmd :: "'w sys_ops \<Rightarrow> conn \<Rightarrow> int \<Rightarrow> 'w \<Rightarrow> 'w round" where
  "step_new_cmd ops c nreqs0 w =
     (let nreqs = nreqs0 - 1
      in if 0 \<le> nreqs then do {
           (c', w') \<leftarrow> reset_cmd_handler ops c w;
           Some (c', nreqs, False, w') }
         else if 0 < rbytes c then
           (case event_or_close ops c EV_WRITE_PERSIST w of (_, c', w') \<Rightarrow> Some (c', nreqs, True, w'))
         else Some (c, nreqs, True, w))"

text \<open>What follows a \<^verbatim>\<open>read\<close> that returned no data.\<close>

definition no_data :: "'w sys_ops \<Rightarrow> io_read \<Rightarrow> conn \<Rightarrow> int \<Rightarrow> 'w \<Rightarrow> conn \<times> int \<times> bool \<times> 'w" where
  "no_data ops r c nreqs w =
     (if r = Read_again then
        (case event_or_close ops c EV_READ_PERSIST w of
           (True, c', w') \<Rightarrow> (c', nreqs, True, w')
         | (False, c', w') \<Rightarrow> (c', nreqs, False, w'))
      else (conn_set_state c conn_closing, nreqs, False, w))"

text \<open>The leftovers of the buffer that belong to the body. A negative count is an enormous \<^verbatim>\<open>memmove\<close>.\<close>

definition take_leftovers :: "conn \<Rightarrow> conn option" where
  "take_leftovers c =
     (let tocopy = (if rlbytes c < int (rbytes c) then rlbytes c else int (rbytes c))
      in do {
        item \<leftarrow> ritem c;
        buf \<leftarrow> (if item \<noteq> rcurr c then
                  if tocopy < 0 then None
                  else do { data \<leftarrow> mem_slice (rbuf c) (rcurr c) (nat tocopy); mem_put (rbuf c) item data }
                else Some (rbuf c));
        item' \<leftarrow> ptr_add item tocopy;
        curr' \<leftarrow> ptr_add (rcurr c) tocopy;
        Some (c\<lparr>rbuf := buf, ritem := Some item', rlbytes := rlbytes c - tocopy, rcurr := curr',
                rbytes := nat (int (rbytes c) - tocopy)\<rparr>) })"

definition read_body :: "'w sys_ops \<Rightarrow> conn \<Rightarrow> int \<Rightarrow> 'w \<Rightarrow> 'w round" where
  "read_body ops c nreqs w = do {
     item \<leftarrow> ritem c;
     (case sys_read ops (sfd c) (nat (rlbytes c mod 2 ^ 64)) w of
        (Read_bytes bs, w') \<Rightarrow> do {
          buf \<leftarrow> mem_put (rbuf c) item bs;
          Some (c\<lparr>rbuf := buf, rcurr := (if rcurr c = item then rcurr c + length bs else rcurr c),
                  ritem := Some (item + length bs), rlbytes := rlbytes c - int (length bs)\<rparr>, nreqs, False, w') }
      | (r, w') \<Rightarrow> Some (no_data ops r c nreqs w')) }"

definition step_nread :: "'w sys_ops \<Rightarrow> (bytes \<Rightarrow> (int \<times> bytes list) option) \<Rightarrow> conn \<Rightarrow> int \<Rightarrow> 'w \<Rightarrow> 'w round" where
  "step_nread ops answer c nreqs w =
     (if rlbytes c = 0 then do {
        (c', w') \<leftarrow> complete_nread ops answer c w;
        Some (c', nreqs, False, w') }
      else if 0 < rbytes c then do {
        c' \<leftarrow> take_leftovers c;
        (if rlbytes c' = 0 then Some (c', nreqs, False, w) else read_body ops c' nreqs w) }
      else read_body ops c nreqs w)"

definition step_swallow :: "'w sys_ops \<Rightarrow> conn \<Rightarrow> int \<Rightarrow> 'w \<Rightarrow> 'w round" where
  "step_swallow ops c nreqs w =
     (if sbytes c = 0 then Some (conn_set_state c conn_new_cmd, nreqs, False, w)
      else if 0 < rbytes c then
        let tocopy = (if sbytes c < int (rbytes c) then sbytes c else int (rbytes c))
        in do {
          curr' \<leftarrow> ptr_add (rcurr c) tocopy;
          Some (c\<lparr>sbytes := sbytes c - tocopy, rcurr := curr', rbytes := nat (int (rbytes c) - tocopy)\<rparr>, nreqs, False, w) }
      else
        let n = (if sbytes c < rsize c then sbytes c else rsize c)
        in case sys_read ops (sfd c) (nat (n mod 2 ^ 64)) w of
             (Read_bytes bs, w') \<Rightarrow> do {
               buf \<leftarrow> mem_put (rbuf c) 0 bs;
               Some (c\<lparr>rbuf := buf, sbytes := sbytes c - int (length bs)\<rparr>, nreqs, False, w') }
           | (r, w') \<Rightarrow> Some (no_data ops r c nreqs w'))"

text \<open>\<^verbatim>\<open>free(c->write_and_free)\<close>: what still points there dangles.\<close>

definition conn_cleanup :: "conn \<Rightarrow> conn" where
  "conn_cleanup c = (if write_and_free c \<noteq> None then c\<lparr>write_and_free := None\<rparr> else c)"

definition transmit_complete :: "conn \<Rightarrow> conn" where
  "transmit_complete c =
     (if state c = conn_mwrite then
        (if write_and_free c \<noteq> None then c\<lparr>write_and_free := None\<rparr> else conn_set_state c conn_new_cmd)
      else if state c = conn_write then
        (let c' = conn_cleanup c in conn_set_state c' (write_and_go c'))
      else conn_set_state c conn_closing)"

definition step_mwrite :: "'w sys_ops \<Rightarrow> conn \<Rightarrow> int \<Rightarrow> 'w \<Rightarrow> 'w round" where
  "step_mwrite ops c nreqs w = do {
     (r, c', w') \<leftarrow> transmit ops c w;
     Some (case r of
         TRANSMIT_COMPLETE \<Rightarrow> (transmit_complete c', nreqs, False, w')
       | TRANSMIT_INCOMPLETE \<Rightarrow> (c', nreqs, False, w')
       | TRANSMIT_HARD_ERROR \<Rightarrow> (c', nreqs, False, w')
       | TRANSMIT_SOFT_ERROR \<Rightarrow> (c', nreqs, True, w')) }"

definition step_write :: "'w sys_ops \<Rightarrow> conn \<Rightarrow> int \<Rightarrow> 'w \<Rightarrow> 'w round" where
  "step_write ops c nreqs w =
     (if iovused c = 0 then do {
        (ok, c', w') \<leftarrow> add_iov ops c (wcurr c) (wbytes c) w;
        (if \<not> ok then Some (conn_set_state c' conn_closing, nreqs, False, w')
         else step_mwrite ops c' nreqs w') }
      else step_mwrite ops c nreqs w)"

definition drive_step :: "'w sys_ops \<Rightarrow> (bytes \<Rightarrow> (int \<times> bytes list) option) \<Rightarrow> conn \<Rightarrow> int \<Rightarrow> 'w \<Rightarrow> 'w round" where
  "drive_step ops answer c nreqs w =
     (case state c of
        conn_waiting \<Rightarrow> step_waiting ops c nreqs w
      | conn_read \<Rightarrow> step_read ops c nreqs w
      | conn_parse_cmd \<Rightarrow> step_parse_cmd ops c nreqs w
      | conn_new_cmd \<Rightarrow> step_new_cmd ops c nreqs w
      | conn_nread \<Rightarrow> step_nread ops answer c nreqs w
      | conn_swallow \<Rightarrow> step_swallow ops c nreqs w
      | conn_write \<Rightarrow> step_write ops c nreqs w
      | conn_mwrite \<Rightarrow> step_mwrite ops c nreqs w
      | _ \<Rightarrow> None)"

end
