(* ===== verification/Srv_Pending.thy ===== *)
theory Srv_Pending
  imports Srv_Output
begin

text \<open>
  The bytes that a connection has still to send, and what building and transmitting a
  response does to them.
\<close>

section \<open>Pending output\<close>

text \<open>The bytes of \<open>n\<close> messages from \<open>i\<close> on, and of all messages not yet sent.\<close>

fun msgs_bytes :: "conn \<Rightarrow> nat \<Rightarrow> nat \<Rightarrow> bytes option" where
  "msgs_bytes c i 0 = Some []"
| "msgs_bytes c i (Suc n) = do {
     m \<leftarrow> msg_at c i;
     bs \<leftarrow> gather c (msg_iov m) (msg_iovlen m);
     rest \<leftarrow> msgs_bytes c (Suc i) n;
     Some (bs @ rest) }"

definition pending :: "conn \<Rightarrow> bytes option" where
  "pending c = msgs_bytes c (msgcurr c) (msgused c - msgcurr c)"

text \<open>The messages in use are initialised and own disjoint parts of the list of entries, in order.\<close>

definition msg_end :: "msghdr \<Rightarrow> nat" where
  "msg_end m = msg_iov m + msg_iovlen m"

definition out_ok :: "conn \<Rightarrow> bool" where
  "out_ok c \<longleftrightarrow> msgused c \<le> length (msglist c) \<and> msgcurr c \<le> msgused c \<and> iovused c \<le> length (iov c) \<and>
     (\<forall>i<msgused c. \<exists>m. msglist c ! i = Some m \<and> msg_end m \<le> iovused c) \<and>
     (\<forall>i j a b. i < j \<longrightarrow> j < msgused c \<longrightarrow> msglist c ! i = Some a \<longrightarrow> msglist c ! j = Some b \<longrightarrow> msg_end a \<le> msg_iov b)"

lemma out_okD:
  assumes "out_ok c"
  shows "msgused c \<le> length (msglist c)" "msgcurr c \<le> msgused c" "iovused c \<le> length (iov c)"
    and "i < msgused c \<Longrightarrow> \<exists>m. msglist c ! i = Some m \<and> msg_end m \<le> iovused c"
    and "i < j \<Longrightarrow> j < msgused c \<Longrightarrow> msglist c ! i = Some a \<Longrightarrow> msglist c ! j = Some b \<Longrightarrow> msg_end a \<le> msg_iov b"
  using assms unfolding out_ok_def by blast+

section \<open>Frames\<close>

lemma region_mem_cong: "wbuf c' = wbuf c \<Longrightarrow> write_and_free c' = write_and_free c \<Longrightarrow> region_mem c' r = region_mem c r"
  by (simp add: region_mem_def split: region.split)

lemma iovec_bytes_cong:
  assumes "wbuf c' = wbuf c" "write_and_free c' = write_and_free c"
  shows "iovec_bytes c' v = iovec_bytes c v"
  by (simp add: iovec_bytes_def region_mem_cong [OF assms])

lemma gather_cong:
  assumes "wbuf c' = wbuf c" "write_and_free c' = write_and_free c" "length (iov c') = length (iov c)"
  shows "(\<And>k. i \<le> k \<Longrightarrow> k < i + n \<Longrightarrow> iov c' ! k = iov c ! k) \<Longrightarrow> gather c' i n = gather c i n"
proof (induction n arbitrary: i)
  case (Suc n)
  from Suc.prems have "iov c' ! i = iov c ! i" by simp
  moreover have "gather c' (Suc i) n = gather c (Suc i) n" using Suc.prems by (intro Suc.IH) simp
  ultimately show ?case using assms by (simp add: iovec_bytes_cong [OF assms(1,2)])
qed simp

lemma msgs_bytes_cong:
  assumes "\<And>k. i \<le> k \<Longrightarrow> k < i + n \<Longrightarrow> msg_at c' k = msg_at c k"
    and "\<And>k m. i \<le> k \<Longrightarrow> k < i + n \<Longrightarrow> msg_at c k = Some m \<Longrightarrow>
          gather c' (msg_iov m) (msg_iovlen m) = gather c (msg_iov m) (msg_iovlen m)"
  shows "msgs_bytes c' i n = msgs_bytes c i n"
  using assms
proof (induction n arbitrary: i)
  case (Suc n)
  have "msgs_bytes c' (Suc i) n = msgs_bytes c (Suc i) n" by (rule Suc.IH) (rule Suc.prems; simp)+
  moreover have "msg_at c' i = msg_at c i" using Suc.prems(1) by simp
  moreover have "gather c' (msg_iov m) (msg_iovlen m) = gather c (msg_iov m) (msg_iovlen m)" if "msg_at c i = Some m" for m
    by (rule Suc.prems(2) [OF _ _ that]) simp_all
  ultimately show ?case by (cases "msg_at c i") simp_all
qed simp

lemma gather_append:
  "gather c i (n + k) = do { a \<leftarrow> gather c i n; b \<leftarrow> gather c (i + n) k; Some (a @ b) }"
proof (induction n arbitrary: i)
  case (Suc n)
  then show ?case
    by (cases "iovec_bytes c (iov c ! i)"; cases "gather c (Suc i) n"; cases "gather c (Suc (i + n)) k") simp_all
qed simp

lemma msgs_bytes_append:
  "msgs_bytes c i (n + k) = do { a \<leftarrow> msgs_bytes c i n; b \<leftarrow> msgs_bytes c (i + n) k; Some (a @ b) }"
proof (induction n arbitrary: i)
  case (Suc n)
  have "Option.bind (msgs_bytes c (Suc i) n) (\<lambda>rest. Some (bs @ rest)) = Some x \<longleftrightarrow> (\<exists>r. msgs_bytes c (Suc i) n = Some r \<and> x = bs @ r)" for bs x
    by (cases "msgs_bytes c (Suc i) n") auto
  show ?case using Suc.IH [of "Suc i"]
    by (cases "msg_at c i"; cases "msgs_bytes c (Suc i) n"; cases "msgs_bytes c (Suc (i + n)) k")
      (auto simp: Option.bind_eq_Some_conv Option.bind_eq_None_conv split: option.split Option.bind_splits)
qed simp

lemma msgs_bytes_update:
  assumes "wbuf c' = wbuf c" "write_and_free c' = write_and_free c" "length (iov c') = length (iov c)"
    and "length (msglist c') = length (msglist c)"
    and "\<And>k. i \<le> k \<Longrightarrow> k < i + n \<Longrightarrow> msglist c' ! k = msglist c ! k"
    and "\<And>k m j. i \<le> k \<Longrightarrow> k < i + n \<Longrightarrow> msglist c ! k = Some m \<Longrightarrow> msg_iov m \<le> j \<Longrightarrow> j < msg_end m \<Longrightarrow> iov c' ! j = iov c ! j"
  shows "msgs_bytes c' i n = msgs_bytes c i n"
proof (rule msgs_bytes_cong)
  fix k assume "i \<le> k" "k < i + n"
  then show "msg_at c' k = msg_at c k" by (simp add: msg_at_def assms)
next
  fix k m assume k: "i \<le> k" "k < i + n" "msg_at c k = Some m"
  then have "msglist c ! k = Some m" by (simp add: msg_at_def split: if_splits)
  with k show "gather c' (msg_iov m) (msg_iovlen m) = gather c (msg_iov m) (msg_iovlen m)"
    using assms(6) by (intro gather_cong assms(1-3)) (auto simp: msg_end_def)
qed

section \<open>Building a response\<close>

text \<open>What the construction of a response may change, and a list of messages with room for more.\<close>

definition built :: "conn \<Rightarrow> conn \<Rightarrow> bool" where
  "built c c' \<longleftrightarrow> c' = c\<lparr>iov := iov c', msglist := msglist c', msgbytes := msgbytes c', iovused := iovused c',
       msgused := msgused c'\<rparr> \<and> length (iov c') = length (iov c) \<and> length (msglist c') = length (msglist c)"

definition open_out :: "conn \<Rightarrow> nat \<Rightarrow> bool" where
  "open_out c k \<longleftrightarrow> out_ok c \<and> msgcurr c < msgused c \<and> iovused c + k \<le> length (iov c) \<and>
     (\<exists>m. msglist c ! (msgused c - 1) = Some m \<and> msg_end m = iovused c \<and> msg_iovlen m + k < IOV_MAX)"

lemma built_refl [simp]: "built c c"
  by (simp add: built_def)

lemma built_frame:
  assumes "built c c'"
  shows "wbuf c' = wbuf c" "write_and_free c' = write_and_free c" "length (iov c') = length (iov c)"
    "length (msglist c') = length (msglist c)" "msgcurr c' = msgcurr c"
  using assms unfolding built_def by (metis conn.select_convs conn.surjective conn.update_convs)+

lemma built_trans: "built a b \<Longrightarrow> built b c \<Longrightarrow> built a c"
  unfolding built_def by (cases a; cases b; cases c) simp

lemma open_out_mono: "open_out c k \<Longrightarrow> j \<le> k \<Longrightarrow> open_out c j"
  unfolding open_out_def by force

lemma iovec_bytes_split:
  assumes "iovec_bytes c (Some \<lparr>iov_base = (r, off), iov_len = n + k\<rparr>) = Some bs"
  shows "iovec_bytes c (Some \<lparr>iov_base = (r, off), iov_len = n\<rparr>) = Some (take n bs)"
    and "iovec_bytes c (Some \<lparr>iov_base = (r, off + n), iov_len = k\<rparr>) = Some (drop n bs)"
proof -
  from assms obtain mem where "region_mem c r = Some mem" "off + (n + k) \<le> length mem" "bs = take (n + k) (drop off mem)"
    by (auto simp: iovec_bytes_def mem_slice_def Option.bind_eq_Some_conv split: if_splits)
  then show "iovec_bytes c (Some \<lparr>iov_base = (r, off), iov_len = n\<rparr>) = Some (take n bs)"
    and "iovec_bytes c (Some \<lparr>iov_base = (r, off + n), iov_len = k\<rparr>) = Some (drop n bs)"
    by (auto simp: iovec_bytes_def mem_slice_def drop_take add.commute)
qed

lemma put_fragment_ok:
  assumes o: "open_out c (Suc k)" and p: "pending c = Some p"
    and v: "iovec_bytes c (Some \<lparr>iov_base = buf, iov_len = len\<rparr>) = Some bs"
  obtains c' where "put_fragment c buf len = Some c'" "built c c'" "open_out c' k" "pending c' = Some (p @ bs)"
    "msgused c' = msgused c" "msgbytes c' = msgbytes c + len"
proof -
  from o obtain m where m: "msglist c ! (msgused c - 1) = Some m" "msg_end m = iovused c" "msg_iovlen m + Suc k < IOV_MAX"
    and ok: "out_ok c" and cur: "msgcurr c < msgused c" and room: "iovused c + Suc k \<le> length (iov c)"
    unfolding open_out_def by blast
  note okD = out_okD [OF ok]
  let ?u = "msgused c - 1"
  let ?e = "Some \<lparr>iov_base = buf, iov_len = len\<rparr>"
  let ?m = "m\<lparr>msg_iovlen := msg_iovlen m + 1\<rparr>"
  let ?c = "c\<lparr>iov := (iov c)[iovused c := ?e], msgbytes := msgbytes c + len, iovused := iovused c + 1,
       msglist := (msglist c)[?u := Some ?m]\<rparr>"
  have u: "?u < length (msglist c)" "msgcurr c \<le> ?u" "msgused c = Suc ?u" using okD(1) cur by auto
  have lm: "last_msg c = Some m" using m(1) u cur by (simp add: last_msg_def)
  have put: "put_fragment c buf len = Some ?c"
    using lm m(2) room by (simp add: put_fragment_def msg_end_def)
  have b: "built c ?c" by (simp add: built_def)
  have le: "msg_end a \<le> msg_iov m" if "i < ?u" "msglist c ! i = Some a" for i a
    using okD(5) [of i ?u] that m(1) u by auto
  have ok': "out_ok ?c"
    unfolding out_ok_def
  proof (intro conjI allI impI)
    fix i assume i: "i < msgused ?c"
    show "\<exists>m. msglist ?c ! i = Some m \<and> msg_end m \<le> iovused ?c"
      using okD(4) [of i] i m(2) u by (cases "i = ?u") (auto simp: msg_end_def)
  next
    fix i j a b' assume ij: "i < j" "j < msgused ?c" "msglist ?c ! i = Some a" "msglist ?c ! j = Some b'"
    then show "msg_end a \<le> msg_iov b'"
      using okD(5) [of i j] le [of i] u by (cases "j = ?u") auto
  qed (use okD(1-3) cur room in auto)
  have opn: "open_out ?c k"
    unfolding open_out_def using ok' cur room m u by (auto simp: msg_end_def)
  obtain n where n: "msgused c - msgcurr c = Suc n" "msgcurr c + n = ?u" using u(2,3) by (metis Suc_diff_le le_add_diff_inverse)
  have same: "msgs_bytes ?c (msgcurr c) n = msgs_bytes c (msgcurr c) n"
  proof (rule msgs_bytes_update)
    fix k m' j assume "msgcurr c \<le> k" "k < msgcurr c + n" "msglist c ! k = Some m'" "msg_iov m' \<le> j" "j < msg_end m'"
    then have "j < iovused c" using le [of k m'] n m(2) by (auto simp: msg_end_def)
    then show "iov ?c ! j = iov c ! j" by simp
  qed (use n in auto)
  have "msgs_bytes c (msgcurr c) (n + 1) = Some p" using p n(1) by (simp add: pending_def del: msgs_bytes.simps)
  then obtain p1 p2 where p12: "msgs_bytes c (msgcurr c) n = Some p1" "msgs_bytes c ?u 1 = Some p2" "p = p1 @ p2"
    unfolding msgs_bytes_append n(2) by (auto simp: Option.bind_eq_Some_conv simp del: msgs_bytes.simps One_nat_def)
  then have g: "gather c (msg_iov m) (msg_iovlen m) = Some p2"
    using m(1) u by (auto simp: msg_at_def Option.bind_eq_Some_conv)
  have "gather ?c (msg_iov m) (msg_iovlen m) = Some p2"
    unfolding g [symmetric] using m(2) by (intro gather_cong) (auto simp: msg_end_def)
  moreover have "gather ?c (msg_iov m + msg_iovlen m) 1 = Some bs"
    using m(2) room v iovec_bytes_cong [of ?c c ?e] by (simp add: msg_end_def)
  ultimately have "gather ?c (msg_iov m) (msg_iovlen m + 1) = Some (p2 @ bs)"
    by (simp only: gather_append) simp
  then have "msgs_bytes ?c ?u 1 = Some (p2 @ bs)" using u by (simp add: msg_at_def)
  then have "pending ?c = Some (p @ bs)"
    using n same p12 msgs_bytes_append [of ?c "msgcurr c" n 1]
    by (simp add: pending_def del: msgs_bytes.simps One_nat_def) simp
  then show ?thesis using that [OF put b opn] by simp
qed

lemma add_msghdr_ok:
  assumes "out_ok c" "msgused c < length (msglist c)"
  obtains c' where "add_msghdr ops c w = (True, c', w)" "built c c'" "out_ok c'" "pending c' = pending c"
    "msgused c' = Suc (msgused c)" "iovused c' = iovused c" "msgbytes c' = 0"
    "\<exists>m. msglist c' ! msgused c = Some m \<and> msg_iov m = iovused c \<and> msg_iovlen m = 0"
proof -
  note okD = out_okD [OF assms(1)]
  let ?m = "\<lparr>msg_iov = iovused c, msg_iovlen = 0, msg_namelen = request_addr_size c\<rparr>"
  let ?c = "c\<lparr>msglist := (msglist c)[msgused c := Some ?m], msgbytes := 0, msgused := msgused c + 1\<rparr>"
  have 1: "add_msghdr ops c w = (True, ?c, w)" using assms(2) by (simp add: add_msghdr_def)
  have 2: "built c ?c" by (simp add: built_def)
  have 3: "out_ok ?c"
    unfolding out_ok_def
  proof (intro conjI allI impI)
    fix i assume "i < msgused ?c"
    then show "\<exists>m. msglist ?c ! i = Some m \<and> msg_end m \<le> iovused ?c"
      using okD(4) [of i] assms(2) by (cases "i = msgused c") (auto simp: msg_end_def)
  next
    fix i j a b assume ij: "i < j" "j < msgused ?c" "msglist ?c ! i = Some a" "msglist ?c ! j = Some b"
    then show "msg_end a \<le> msg_iov b"
      using okD(5) [of i j] okD(4) [of i] assms(2) by (cases "j = msgused c") auto
  qed (use okD(1-3) assms(2) in auto)
  have "msgs_bytes ?c (msgcurr c) (msgused c - msgcurr c) = msgs_bytes c (msgcurr c) (msgused c - msgcurr c)"
    by (rule msgs_bytes_update) (use okD(2) in auto)
  moreover have "msgs_bytes ?c (msgused c) 1 = Some []" using assms(2) by (simp add: msg_at_def)
  moreover have "msgused ?c - msgcurr c = (msgused c - msgcurr c) + 1" using okD(2) by simp
  ultimately have 4: "pending ?c = pending c"
    using okD(2) msgs_bytes_append [of ?c "msgcurr c" "msgused c - msgcurr c" 1]
    by (cases "msgs_bytes c (msgcurr c) (msgused c - msgcurr c)") (auto simp: pending_def)
  show ?thesis by (rule that [OF 1 2 3 4]) (use assms(2) in auto)
qed

lemma open_outD:
  assumes "open_out c k"
  obtains m where "last_msg c = Some m" "msg_iovlen m + k < IOV_MAX" "out_ok c" "iovused c + k \<le> length (iov c)"
    "msg_end m = iovused c"
  using assms out_okD(1) [of c] that unfolding open_out_def last_msg_def by force

lemma ensure_iov_space_ok: "iovused c < length (iov c) \<Longrightarrow> ensure_iov_space ops c w = Some (True, c, w)"
  by (simp add: ensure_iov_space_def)

text \<open>A piece that fits the message being filled.\<close>

lemma add_iov_one:
  assumes o: "open_out c (Suc k)" and p: "pending c = Some p"
    and v: "iovec_bytes c (Some \<lparr>iov_base = buf, iov_len = len\<rparr>) = Some bs"
    and mtu: "msgused c = 1 \<Longrightarrow> msgbytes c < UDP_MAX_PAYLOAD_SIZE \<and> len + msgbytes c \<le> UDP_MAX_PAYLOAD_SIZE"
  obtains c' where "add_iov ops c buf len w = Some (True, c', w)" "built c c'" "open_out c' k" "pending c' = Some (p @ bs)"
    "msgused c' = msgused c" "msgbytes c' = msgbytes c + len"
proof -
  obtain m where m: "last_msg c = Some m" "msg_iovlen m + Suc k < IOV_MAX" "iovused c + Suc k \<le> length (iov c)"
    using open_outD [OF o] by metis
  obtain c' where c': "put_fragment c buf len = Some c'" "built c c'" "open_out c' k" "pending c' = Some (p @ bs)"
    "msgused c' = msgused c" "msgbytes c' = msgbytes c + len"
    using put_fragment_ok [OF o p v] by metis
  have "add_iov ops c buf len w = Some (True, c', w)"
    using m mtu c'(1) by (subst add_iov.simps) (auto simp: ensure_iov_space_ok Let_def)
  then show ?thesis using that c'(2-) by blast
qed

text \<open>A piece for which the first message has no room: a second message is begun.\<close>

lemma add_iov_full:
  assumes o: "open_out c 2" and p: "pending c = Some p"
    and v: "iovec_bytes c (Some \<lparr>iov_base = (r, off), iov_len = len\<rparr>) = Some bs"
    and first: "msgused c = 1" "msgbytes c = UDP_MAX_PAYLOAD_SIZE" "1 < length (msglist c)"
  obtains c' where "add_iov ops c (r, off) len w = Some (True, c', w)" "built c c'" "open_out c' 0" "pending c' = Some (p @ bs)"
proof -
  obtain m where m: "last_msg c = Some m" "msg_iovlen m + 2 < IOV_MAX" "iovused c + 2 \<le> length (iov c)" "out_ok c"
    using open_outD [OF o] by metis
  obtain c1 where c1: "add_msghdr ops c w = (True, c1, w)" "built c c1" "out_ok c1" "pending c1 = pending c"
    "msgused c1 = 2" "iovused c1 = iovused c" "msgbytes c1 = 0"
    and last: "\<exists>m. msglist c1 ! msgused c = Some m \<and> msg_iov m = iovused c \<and> msg_iovlen m = 0"
    using add_msghdr_ok [OF m(4), of ops w] first by (metis Suc_1)
  have o1: "open_out c1 2"
    unfolding open_out_def using c1 m(3) last first out_okD(2) [OF m(4)] built_frame [OF c1(2)]
    by (auto simp: msg_end_def IOV_MAX_def)
  have space: "ensure_iov_space ops c1 w = Some (True, c1, w)"
    using m(3) c1(6) built_frame [OF c1(2)] by (intro ensure_iov_space_ok) simp
  have v1: "iovec_bytes c1 (Some \<lparr>iov_base = (r, off), iov_len = len\<rparr>) = Some bs"
    using v iovec_bytes_cong built_frame [OF c1(2)] by metis
  show ?thesis
  proof (cases "len \<le> UDP_MAX_PAYLOAD_SIZE")
    case True
    have o1': "open_out c1 (Suc 0)" using open_out_mono [OF o1] by simp
    obtain c' where c': "put_fragment c1 (r, off) len = Some c'" "built c1 c'" "open_out c' 0" "pending c' = Some (p @ bs)"
      using put_fragment_ok [OF o1' _ v1, of p] c1(4) p by metis
    have "add_iov ops c (r, off) len w = Some (True, c', w)"
      using m(1) first c1(1,7) space c'(1) True by (subst add_iov.simps) (auto simp: Let_def)
    then show ?thesis using that built_trans [OF c1(2) c'(2)] c'(3,4) by blast
  next
    case False
    then have rest: "len = UDP_MAX_PAYLOAD_SIZE + (len - UDP_MAX_PAYLOAD_SIZE)" "0 < len - UDP_MAX_PAYLOAD_SIZE" by arith+
    define rest where "rest = len - UDP_MAX_PAYLOAD_SIZE"
    note rest = rest [folded rest_def]
    have o1': "open_out c1 (Suc (Suc 0))" using o1 by (simp add: numeral_2_eq_2)
    note sp = iovec_bytes_split [OF v1 [unfolded rest(1)]]
    obtain c2 where c2: "put_fragment c1 (r, off) UDP_MAX_PAYLOAD_SIZE = Some c2" "built c1 c2" "open_out c2 (Suc 0)"
      "pending c2 = Some (p @ take UDP_MAX_PAYLOAD_SIZE bs)" "msgused c2 = msgused c1"
      using put_fragment_ok [OF o1' _ sp(1), of p] c1(4) p by metis
    have v2: "iovec_bytes c2 (Some \<lparr>iov_base = (r, off + UDP_MAX_PAYLOAD_SIZE), iov_len = rest\<rparr>) = Some (drop UDP_MAX_PAYLOAD_SIZE bs)"
      using sp(2) iovec_bytes_cong built_frame [OF c2(2)] by metis
    obtain c' where c': "add_iov ops c2 (r, off + UDP_MAX_PAYLOAD_SIZE) rest w = Some (True, c', w)" "built c2 c'" "open_out c' 0"
      "pending c' = Some ((p @ take UDP_MAX_PAYLOAD_SIZE bs) @ drop UDP_MAX_PAYLOAD_SIZE bs)"
      using add_iov_one [OF c2(3,4) v2, of ops w] c2(5) c1(5) by auto
    have "add_iov ops c (r, off) len w = Some (True, c', w)"
      using m(1) first c1(1,7) space c2(1) c'(1) rest by (subst add_iov.simps) (auto simp: Let_def)
    then show ?thesis using that built_trans [OF c1(2) built_trans [OF c2(2) c'(2)]] c'(3,4) by simp
  qed
qed

lemma add_iov_ok:
  assumes o: "open_out c 3" and p: "pending c = Some p"
    and v: "iovec_bytes c (Some \<lparr>iov_base = (r, off), iov_len = len\<rparr>) = Some bs"
    and first: "msgused c = 1" "msgbytes c < UDP_MAX_PAYLOAD_SIZE" "1 < length (msglist c)"
  obtains c' where "add_iov ops c (r, off) len w = Some (True, c', w)" "built c c'" "open_out c' 0" "pending c' = Some (p @ bs)"
proof (cases "len + msgbytes c \<le> UDP_MAX_PAYLOAD_SIZE")
  case True
  have "open_out c (Suc 0)" using open_out_mono [OF o] by simp
  then show ?thesis using add_iov_one [OF _ p v, of 0 ops w] first(2) True that by metis
next
  case False
  obtain m where m: "last_msg c = Some m" "msg_iovlen m + 3 < IOV_MAX" "iovused c + 3 \<le> length (iov c)"
    using open_outD [OF o] by metis
  define n where "n = UDP_MAX_PAYLOAD_SIZE - msgbytes c"
  define rest where "rest = len - n"
  have rest: "len = n + rest" "0 < rest" "n + msgbytes c = UDP_MAX_PAYLOAD_SIZE"
    using False first(2) unfolding n_def rest_def by arith+
  note sp = iovec_bytes_split [OF v [unfolded rest(1)]]
  have o': "open_out c (Suc 2)" using o by (simp add: numeral_3_eq_3 numeral_2_eq_2)
  obtain c2 where c2: "put_fragment c (r, off) n = Some c2" "built c c2" "open_out c2 2"
    "pending c2 = Some (p @ take n bs)" "msgused c2 = msgused c" "msgbytes c2 = msgbytes c + n"
    using put_fragment_ok [OF o' p sp(1)] by metis
  have v2: "iovec_bytes c2 (Some \<lparr>iov_base = (r, off + n), iov_len = rest\<rparr>) = Some (drop n bs)"
    using sp(2) iovec_bytes_cong built_frame [OF c2(2)] by metis
  obtain c' where c': "add_iov ops c2 (r, off + n) rest w = Some (True, c', w)" "built c2 c'" "open_out c' 0"
    "pending c' = Some ((p @ take n bs) @ drop n bs)"
    using add_iov_full [OF c2(3,4) v2, of ops w] c2(5,6) rest(3) first built_frame [OF c2(2)] by (metis add.commute)
  have "len + msgbytes c - UDP_MAX_PAYLOAD_SIZE = rest" using rest by simp
  then have "add_iov ops c (r, off) len w = Some (True, c', w)"
    using m first False c2(1) c'(1) rest by (subst add_iov.simps) (auto simp: Let_def ensure_iov_space_ok)
  then show ?thesis using that built_trans [OF c2(2) c'(2)] c'(3,4) by simp
qed

section \<open>Responses\<close>

text \<open>
  The header as sent: the magic, a status byte, the two bytes of padding as the write buffer
  has them, the length of the body.
\<close>

definition header_image :: "byte \<Rightarrow> bytes \<Rightarrow> nat \<Rightarrow> bytes" where
  "header_image st pad n = [RES, st] @ pad @ be32 (of_nat n)"

definition out_room :: "conn \<Rightarrow> bool" where
  "out_room c \<longleftrightarrow> 2 \<le> length (msglist c) \<and> 4 \<le> length (iov c) \<and> sizeof_header \<le> length (wbuf c)"

definition padding :: "conn \<Rightarrow> bytes" where
  "padding c = take 2 (drop 2 (wbuf c))"

lemma add_bin_header_ok:
  assumes "out_room c"
  obtains c' buf where "add_bin_header ops c err (of_nat n) w = Some (c', w)" "built (reset_messages c\<lparr>wbuf := buf\<rparr>) c'"
    "length buf = length (wbuf c)" "take 2 (drop 2 buf) = padding c"
    "open_out c' 3" "pending c' = Some (header_image (ucast (htons err)) (padding c) n)" "msgused c' = 1" "msgbytes c' = sizeof_header"
proof -
  let ?st = "ucast (htons err) :: byte"
  let ?m = "\<lparr>msg_iov = 0, msg_iovlen = 0, msg_namelen = request_addr_size c\<rparr>"
  let ?c0 = "reset_messages c"
  let ?c1 = "?c0\<lparr>msglist := (msglist c)[0 := Some ?m], msgbytes := 0, msgused := 1\<rparr>"
  obtain x0 x1 x2 x3 x4 x5 x6 x7 tail where wb: "wbuf c = x0 # x1 # x2 # x3 # x4 # x5 # x6 # x7 # tail"
  proof -
    have "\<exists>a r. xs = a # r \<and> n \<le> length r" if "Suc n \<le> length xs" for xs :: bytes and n
      using that by (cases xs) auto
    moreover have "Suc (Suc (Suc (Suc (Suc (Suc (Suc (Suc 0))))))) \<le> length (wbuf c)"
      using assms by (simp add: out_room_def sizeof_header_def)
    ultimately show ?thesis using that by metis
  qed
  obtain b0 b1 b2 b3 where be: "be32 (of_nat n) = [b0, b1, b2, b3]" by (simp add: be32_def le32_def)
  let ?buf = "RES # ?st # x2 # x3 # b0 # b1 # b2 # b3 # tail"
  have msg: "add_msghdr ops ?c0 w = (True, ?c1, w)"
    using assms by (simp add: add_msghdr_def reset_messages_def out_room_def) auto
  have puts: "mem_put (wbuf ?c1) 0 [RES, ?st] = Some (RES # ?st # x2 # x3 # x4 # x5 # x6 # x7 # tail)"
    "mem_put (RES # ?st # x2 # x3 # x4 # x5 # x6 # x7 # tail) 4 (be32 (of_nat n)) = Some ?buf"
    by (simp_all add: mem_put_def wb be reset_messages_def eval_nat_numeral)
  let ?c2 = "?c1\<lparr>wbuf := ?buf\<rparr>"
  have at0: "(msglist c)[0 := y] ! 0 = y" for y
    using assms by (intro nth_list_update_eq) (auto simp: out_room_def)
  have b2: "built (?c0\<lparr>wbuf := ?buf\<rparr>) ?c2" by (simp add: built_def reset_messages_def)
  have o2: "open_out ?c2 (Suc 3)"
    using assms unfolding open_out_def out_ok_def out_room_def
    by (auto simp: reset_messages_def msg_end_def IOV_MAX_def at0)
  have p2: "pending ?c2 = Some []"
    using assms by (simp add: pending_def reset_messages_def msg_at_def out_room_def) auto
  have v2: "iovec_bytes ?c2 (Some \<lparr>iov_base = (Wbuf, 0), iov_len = sizeof_header\<rparr>) = Some (header_image ?st (padding c) n)"
    by (simp add: iovec_bytes_def region_mem_def mem_slice_def sizeof_header_def header_image_def padding_def wb be eval_nat_numeral)
  obtain c' where c': "add_iov ops ?c2 (Wbuf, 0) sizeof_header w = Some (True, c', w)" "built ?c2 c'" "open_out c' 3"
    "pending c' = Some ([] @ header_image ?st (padding c) n)" "msgused c' = msgused ?c2" "msgbytes c' = msgbytes ?c2 + sizeof_header"
    using add_iov_one [OF o2 p2 v2, of ops w] by (auto simp: srv_consts sizeof_header_def)
  show ?thesis
  proof (rule that)
    show "add_bin_header ops c err (of_nat n) w = Some (c', w)"
      using msg puts c'(1) by (simp add: add_bin_header_def Let_def)
    show "built (?c0\<lparr>wbuf := ?buf\<rparr>) c'" by (rule built_trans [OF b2 c'(2)])
  qed (use c' in \<open>simp_all add: wb padding_def eval_nat_numeral\<close>)
qed

lemma status_zero [simp]: "ucast (htons 0) = (0 :: byte)" "ucast (htons (status_code RESPONSE_ENOMEM)) = (0 :: byte)"
  by (simp_all add: htons_def)

text \<open>What the two kinds of response hold, and what they leave of the connection.\<close>

definition responded :: "conn \<Rightarrow> conn \<Rightarrow> bool" where
  "responded c c' \<longleftrightarrow> c' = c\<lparr>iov := iov c', msglist := msglist c', msgbytes := msgbytes c', iovused := iovused c',
       msgused := msgused c', msgcurr := 0, wbuf := wbuf c', state := conn_mwrite, write_and_go := conn_new_cmd\<rparr> \<and>
     length (iov c') = length (iov c) \<and> length (msglist c') = length (msglist c) \<and>
     length (wbuf c') = length (wbuf c) \<and> padding c' = padding c"

lemma responded_built:
  assumes "built (reset_messages c\<lparr>wbuf := buf\<rparr>) c1" "built c1 c2" "length buf = length (wbuf c)" "take 2 (drop 2 buf) = padding c"
  shows "responded c (c2\<lparr>state := conn_mwrite, write_and_go := conn_new_cmd\<rparr>)"
proof -
  have "built (reset_messages c\<lparr>wbuf := buf\<rparr>) c2" by (rule built_trans [OF assms(1,2)])
  then show ?thesis
    using assms(3,4) unfolding built_def responded_def padding_def reset_messages_def by (cases c; cases c2) simp
qed

lemma out_ok_frame:
  assumes "iov c' = iov c" "msglist c' = msglist c" "iovused c' = iovused c" "msgused c' = msgused c" "msgcurr c' = msgcurr c"
  shows "out_ok c' \<longleftrightarrow> out_ok c"
  by (simp add: out_ok_def assms)

lemma pending_frame:
  assumes "iov c' = iov c" "msglist c' = msglist c" "msgused c' = msgused c" "msgcurr c' = msgcurr c"
    "wbuf c' = wbuf c" "write_and_free c' = write_and_free c"
  shows "pending c' = pending c"
  unfolding pending_def assms(3,4) by (rule msgs_bytes_update) (simp_all add: assms)

lemma write_bin_response_ok:
  assumes "out_room c" "write_and_free c = Some mem" "dlen \<le> length mem"
  obtains c' where "write_bin_response ops c dlen w = Some (c', w)" "responded c c'" "out_ok c'"
    "pending c' = Some (header_image 0 (padding c) dlen @ take dlen mem)"
proof -
  have two: "1 < length (msglist c)" using assms(1) by (simp add: out_room_def)
  obtain c1 buf where c1: "add_bin_header ops c 0 (of_nat dlen) w = Some (c1, w)" "built (reset_messages c\<lparr>wbuf := buf\<rparr>) c1"
    "length buf = length (wbuf c)" "take 2 (drop 2 buf) = padding c"
    "open_out c1 3" "pending c1 = Some (header_image 0 (padding c) dlen)" "msgused c1 = 1" "msgbytes c1 = sizeof_header"
    using add_bin_header_ok [OF assms(1), where err = 0] by (metis status_zero(1))
  have v: "iovec_bytes c1 (Some \<lparr>iov_base = (Resp, 0), iov_len = dlen\<rparr>) = Some (take dlen mem)"
    using assms(2,3) built_frame(2) [OF c1(2)] by (simp add: iovec_bytes_def region_mem_def mem_slice_def reset_messages_def)
  have len: "length (msglist c1) = length (msglist c)" using built_frame(4) [OF c1(2)] by (simp add: reset_messages_def)
  obtain c2 where c2: "(if 0 < dlen then add_iov ops c1 (Resp, 0) dlen w else Some (True, c1, w)) = Some (True, c2, w)"
    "built c1 c2" "out_ok c2" "pending c2 = Some (header_image 0 (padding c) dlen @ take dlen mem)"
  proof (cases "0 < dlen")
    case True
    then show ?thesis
      using add_iov_ok [OF c1(5,6) v c1(7), of ops w] c1(8) two len that open_outD
      by (auto simp: srv_consts sizeof_header_def) (metis open_outD)
  next
    case False
    with c1(5,6) that [of c1] open_outD [OF c1(5)] show ?thesis by auto
  qed
  let ?c' = "c2\<lparr>state := conn_mwrite, write_and_go := conn_new_cmd\<rparr>"
  show ?thesis
  proof (rule that)
    show "write_bin_response ops c dlen w = Some (?c', w)" using c1(1) c2(1) by (simp add: write_bin_response_def)
    show "responded c ?c'" by (rule responded_built [OF c1(2) c2(2) c1(3,4)])
    show "out_ok ?c'" using c2(3) out_ok_frame [of ?c' c2] by simp
    show "pending ?c' = Some (header_image 0 (padding c) dlen @ take dlen mem)" using c2(4) pending_frame [of ?c' c2] by simp
  qed
qed

definition error_reply :: bytes where
  "error_reply = lit ''Out of memory''"

lemma write_bin_error_ok:
  assumes "out_room c"
  obtains c' where "write_bin_error ops c RESPONSE_ENOMEM 0 w = Some (c', w)" "responded c c'" "out_ok c'"
    "pending c' = Some (header_image 0 (padding c) (length error_reply) @ error_reply)"
proof -
  have two: "1 < length (msglist c)" using assms(1) by (simp add: out_room_def)
  obtain c1 buf where c1: "add_bin_header ops c (status_code RESPONSE_ENOMEM) (of_nat (length error_reply)) w = Some (c1, w)"
    "built (reset_messages c\<lparr>wbuf := buf\<rparr>) c1" "length buf = length (wbuf c)" "take 2 (drop 2 buf) = padding c"
    "open_out c1 3" "pending c1 = Some (header_image 0 (padding c) (length error_reply))" "msgused c1 = 1" "msgbytes c1 = sizeof_header"
    using add_bin_header_ok [OF assms(1), where err = "status_code RESPONSE_ENOMEM"] by (metis status_zero(2))
  have v: "iovec_bytes c1 (Some \<lparr>iov_base = (Text error_reply, 0), iov_len = length error_reply\<rparr>) = Some error_reply"
    by (simp add: iovec_bytes_def region_mem_def mem_slice_def)
  have len: "length (msglist c1) = length (msglist c)" using built_frame(4) [OF c1(2)] by (simp add: reset_messages_def)
  obtain c2 where c2: "add_iov ops c1 (Text error_reply, 0) (length error_reply) w = Some (True, c2, w)"
    "built c1 c2" "open_out c2 0" "pending c2 = Some (header_image 0 (padding c) (length error_reply) @ error_reply)"
    using add_iov_ok [OF c1(5,6) v c1(7), of ops w] c1(8) two len by (auto simp: srv_consts sizeof_header_def)
  let ?c' = "c2\<lparr>state := conn_mwrite, write_and_go := conn_new_cmd\<rparr>"
  have ne: "error_reply \<noteq> []" by (simp add: error_reply_def lit_def)
  show ?thesis
  proof (rule that)
    show "write_bin_error ops c RESPONSE_ENOMEM 0 w = Some (?c', w)"
      using c1(1) c2(1) ne by (simp add: write_bin_error_def error_text_def error_reply_def [symmetric])
    show "responded c ?c'" by (rule responded_built [OF c1(2) c2(2) c1(3,4)])
    show "out_ok ?c'" using open_outD [OF c2(3)] out_ok_frame [of ?c' c2] by auto
    show "pending ?c' = Some (header_image 0 (padding c) (length error_reply) @ error_reply)" using c2(4) pending_frame [of ?c' c2] by simp
  qed
qed

end
