(* ===== verification/Srv_Transmit.thy ===== *)
theory Srv_Transmit
  imports Srv_Pending
begin

text \<open>
  The contract of the socket of a connection, and \<^verbatim>\<open>transmit\<close> under it: whatever part of the
  pending bytes the system takes, exactly the rest stays pending.
\<close>

section \<open>The contract of the socket\<close>

text \<open>
  \<open>recvd\<close> and \<open>sent\<close> read off the world what has come in and gone out on the socket \<open>s\<close>: a read
  returns at most the bytes asked for, a \<^verbatim>\<open>sendmsg\<close> sends a prefix of the bytes given, the
  allocator returns blocks of the size asked for, and the other operations do not touch the socket.
\<close>

definition sock_read_ok :: "'w sys_ops \<Rightarrow> int \<Rightarrow> ('w \<Rightarrow> bytes) \<Rightarrow> ('w \<Rightarrow> bytes) \<Rightarrow> bool" where
  "sock_read_ok ops s recvd sent \<longleftrightarrow> (\<forall>n w r w'. sys_read ops s n w = (r, w') \<longrightarrow> sent w' = sent w \<and>
     (case r of Read_bytes bs \<Rightarrow> bs \<noteq> [] \<and> length bs \<le> n \<and> recvd w' = recvd w @ bs | _ \<Rightarrow> recvd w' = recvd w))"

definition sock_send_ok :: "'w sys_ops \<Rightarrow> int \<Rightarrow> ('w \<Rightarrow> bytes) \<Rightarrow> ('w \<Rightarrow> bytes) \<Rightarrow> bool" where
  "sock_send_ok ops s recvd sent \<longleftrightarrow> (\<forall>bs w r w'. sys_sendmsg ops s bs w = (r, w') \<longrightarrow> recvd w' = recvd w \<and>
     (case r of Sent n \<Rightarrow> n \<le> length bs \<and> sent w' = sent w @ take n bs | _ \<Rightarrow> sent w' = sent w))"

definition quiet_ok :: "'w sys_ops \<Rightarrow> ('w \<Rightarrow> bytes) \<Rightarrow> ('w \<Rightarrow> bytes) \<Rightarrow> bool" where
  "quiet_ok ops recvd sent \<longleftrightarrow>
     (\<forall>n w r w'. sys_malloc ops n w = (r, w') \<longrightarrow> recvd w' = recvd w \<and> sent w' = sent w \<and> (\<forall>mem. r = Some mem \<longrightarrow> length mem = n)) \<and>
     (\<forall>s f w r w'. ev_add ops s f w = (r, w') \<longrightarrow> recvd w' = recvd w \<and> sent w' = sent w) \<and>
     (\<forall>s w r w'. ev_del ops s w = (r, w') \<longrightarrow> recvd w' = recvd w \<and> sent w' = sent w)"

definition sock_ok :: "'w sys_ops \<Rightarrow> int \<Rightarrow> ('w \<Rightarrow> bytes) \<Rightarrow> ('w \<Rightarrow> bytes) \<Rightarrow> bool" where
  "sock_ok ops s recvd sent \<longleftrightarrow> sock_read_ok ops s recvd sent \<and> sock_send_ok ops s recvd sent \<and> quiet_ok ops recvd sent"

lemma sock_okD:
  assumes "sock_ok ops s recvd sent"
  shows "sys_read ops s n w = (r, w') \<Longrightarrow> sent w' = sent w \<and>
        (case r of Read_bytes bs \<Rightarrow> bs \<noteq> [] \<and> length bs \<le> n \<and> recvd w' = recvd w @ bs | _ \<Rightarrow> recvd w' = recvd w)"
    and "sys_sendmsg ops s bs w = (q, w') \<Longrightarrow> recvd w' = recvd w \<and>
        (case q of Sent n \<Rightarrow> n \<le> length bs \<and> sent w' = sent w @ take n bs | _ \<Rightarrow> sent w' = sent w)"
    and "sys_malloc ops n w = (mem, w') \<Longrightarrow> recvd w' = recvd w \<and> sent w' = sent w \<and> (\<forall>m. mem = Some m \<longrightarrow> length m = n)"
    and "ev_add ops s' f w = (b, w') \<Longrightarrow> recvd w' = recvd w \<and> sent w' = sent w"
    and "ev_del ops s' w = (b, w') \<Longrightarrow> recvd w' = recvd w \<and> sent w' = sent w"
proof -
  have r: "sock_read_ok ops s recvd sent" and q: "sock_send_ok ops s recvd sent" and o: "quiet_ok ops recvd sent"
    using assms by (simp_all add: sock_ok_def)
  show "sys_read ops s n w = (r, w') \<Longrightarrow> sent w' = sent w \<and>
        (case r of Read_bytes bs \<Rightarrow> bs \<noteq> [] \<and> length bs \<le> n \<and> recvd w' = recvd w @ bs | _ \<Rightarrow> recvd w' = recvd w)"
    by (rule r [unfolded sock_read_ok_def, rule_format])
  show "sys_sendmsg ops s bs w = (q, w') \<Longrightarrow> recvd w' = recvd w \<and>
        (case q of Sent n \<Rightarrow> n \<le> length bs \<and> sent w' = sent w @ take n bs | _ \<Rightarrow> sent w' = sent w)"
    by (rule q [unfolded sock_send_ok_def, rule_format])
  show "sys_malloc ops n w = (mem, w') \<Longrightarrow> recvd w' = recvd w \<and> sent w' = sent w \<and> (\<forall>m. mem = Some m \<longrightarrow> length m = n)"
    using o [unfolded quiet_ok_def, THEN conjunct1, rule_format] by blast
  show "ev_add ops s' f w = (b, w') \<Longrightarrow> recvd w' = recvd w \<and> sent w' = sent w"
    using o [unfolded quiet_ok_def, THEN conjunct2, THEN conjunct1, rule_format] by blast
  show "ev_del ops s' w = (b, w') \<Longrightarrow> recvd w' = recvd w \<and> sent w' = sent w"
    using o [unfolded quiet_ok_def, THEN conjunct2, THEN conjunct2, rule_format] by blast
qed

lemma update_event_ok:
  assumes "sock_ok ops s recvd sent" "update_event ops c f w = (r, c', w')"
  shows "recvd w' = recvd w" "sent w' = sent w" "c' = c\<lparr>ev_flags := ev_flags c'\<rparr>"
  using assms(2) sock_okD(4,5) [OF assms(1)]
  by (auto simp: update_event_def split: if_splits prod.splits)

lemma realloc_bytes_ok:
  assumes "sock_ok ops s recvd sent" "realloc_bytes ops old n w = (r, w')"
  shows "recvd w' = recvd w" "sent w' = sent w"
    and "r = Some mem \<Longrightarrow> length mem = n \<and> (\<forall>k\<le>n. k \<le> length old \<longrightarrow> take k mem = take k old)"
  using assms(2) sock_okD(3) [OF assms(1), of n w]
  by (auto simp: realloc_bytes_def min_def split: prod.splits option.splits)

lemma realloc_array_ok:
  assumes "sock_ok ops s recvd sent" "realloc_array ops elem old n w = (r, w')"
  shows "recvd w' = recvd w" "sent w' = sent w" and "r = Some mem \<Longrightarrow> length mem = n"
  using assms(2) sock_okD(3) [OF assms(1), of "elem * n" w]
  by (auto simp: realloc_array_def split: prod.splits option.splits)

section \<open>Dropping what has been written\<close>

lemma length_iovec_bytes: "iovec_bytes c (Some e) = Some bs \<Longrightarrow> length bs = iov_len e"
  by (auto simp: iovec_bytes_def mem_slice_def Option.bind_eq_Some_conv split: if_splits)

lemma iovec_bytes_cut:
  assumes "iovec_bytes c (Some e) = Some bs" "k \<le> iov_len e"
  shows "iovec_bytes c (Some \<lparr>iov_base = (fst (iov_base e), snd (iov_base e) + k), iov_len = iov_len e - k\<rparr>) = Some (drop k bs)"
  using iovec_bytes_split(2) [of c "fst (iov_base e)" "snd (iov_base e)" k "iov_len e - k" bs] assms by (cases e) simp

lemma drop_written_ok:
  assumes "gather c i n = Some bs" "res \<le> length bs"
  shows "\<exists>i' n' res' v. drop_written (iov c) i n res = Some (i', n', res') \<and> i \<le> i' \<and> i' + n' = i + n \<and>
    cut_entry (iov c) i' res' = Some v \<and> length v = length (iov c) \<and> (\<forall>k. k < i \<or> i + n \<le> k \<longrightarrow> v ! k = iov c ! k) \<and>
    gather (c\<lparr>iov := v\<rparr>) i' n' = Some (drop res bs)"
  using assms
proof (induction n arbitrary: i bs res)
  case 0
  then show ?case by (simp add: cut_entry_def)
next
  case (Suc n)
  from Suc.prems(1) obtain b1 b2 where b: "i < length (iov c)" "iovec_bytes c (iov c ! i) = Some b1"
    "gather c (Suc i) n = Some b2" "bs = b1 @ b2"
    by (auto simp: Option.bind_eq_Some_conv split: if_splits)
  then obtain e where e: "iov c ! i = Some e" by (auto simp: iovec_bytes_def Option.bind_eq_Some_conv)
  have len: "length b1 = iov_len e" using b(2) e length_iovec_bytes by simp
  show ?case
  proof (cases "iov_len e \<le> res")
    case True
    have "res - iov_len e \<le> length b2" using Suc.prems(2) b(4) len by simp
    from Suc.IH [OF b(3) this] show ?thesis
      using True b(1,4) e len by force
  next
    case False
    let ?e = "\<lparr>iov_base = (fst (iov_base e), snd (iov_base e) + res), iov_len = iov_len e - res\<rparr>"
    let ?v = "if res = 0 then iov c else (iov c)[i := Some ?e]"
    have rest: "gather (c\<lparr>iov := ?v\<rparr>) (Suc i) n = Some b2"
      unfolding b(3) [symmetric] by (rule gather_cong) auto
    have "iovec_bytes (c\<lparr>iov := ?v\<rparr>) (?v ! i) = iovec_bytes c (?v ! i)" by (rule iovec_bytes_cong) simp_all
    also have "\<dots> = Some (drop res b1)"
      using iovec_bytes_cut [of c e b1 res] b(1,2) e False by simp
    finally have "gather (c\<lparr>iov := ?v\<rparr>) i (Suc n) = Some (drop res bs)"
      using rest b(1,4) len False by simp
    moreover have "cut_entry (iov c) i res = Some ?v" using b(1) e by (simp add: cut_entry_def)
    ultimately show ?thesis using False b(1) e by (intro exI [of _ i] exI [of _ "Suc n"] exI [of _ res] exI [of _ ?v]) auto
  qed
qed

section \<open>Transmission\<close>

definition transmitted :: "conn \<Rightarrow> conn \<Rightarrow> bool" where
  "transmitted c c' \<longleftrightarrow> c' = c\<lparr>iov := iov c', msglist := msglist c', msgcurr := msgcurr c', ev_flags := ev_flags c', state := state c'\<rparr> \<and>
     length (iov c') = length (iov c) \<and> length (msglist c') = length (msglist c)"

lemma msgs_bytes_Suc:
  "msgs_bytes c i (Suc n) = Some p \<longleftrightarrow>
     (\<exists>m bs rest. msg_at c i = Some m \<and> gather c (msg_iov m) (msg_iovlen m) = Some bs \<and>
        msgs_bytes c (Suc i) n = Some rest \<and> p = bs @ rest)"
  by (auto simp: Option.bind_eq_Some_conv)

text \<open>The write of one message.\<close>

lemma transmit_msg:
  assumes ok: "out_ok c" and p: "pending c = Some p" and cur: "msgcurr c < msgused c"
    and m: "msg_at c (msgcurr c) = Some m" and bs: "gather c (msg_iov m) (msg_iovlen m) = Some bs" and res: "res \<le> length bs"
  obtains i n res' v where "drop_written (iov c) (msg_iov m) (msg_iovlen m) res = Some (i, n, res')" "cut_entry (iov c) i res' = Some v"
    "out_ok (c\<lparr>iov := v, msglist := (msglist c)[msgcurr c := Some (m\<lparr>msg_iov := i, msg_iovlen := n\<rparr>)]\<rparr>)"
    "pending (c\<lparr>iov := v, msglist := (msglist c)[msgcurr c := Some (m\<lparr>msg_iov := i, msg_iovlen := n\<rparr>)]\<rparr>) = Some (drop res p)"
    "take res p = take res bs" "length v = length (iov c)"
proof -
  note okD = out_okD [OF ok]
  have ml: "msgcurr c < length (msglist c)" "msglist c ! msgcurr c = Some m"
    using m by (auto simp: msg_at_def split: if_splits)
  obtain i n res' v where d: "drop_written (iov c) (msg_iov m) (msg_iovlen m) res = Some (i, n, res')"
    "msg_iov m \<le> i" "i + n = msg_end m" "cut_entry (iov c) i res' = Some v" "length v = length (iov c)"
    "\<And>k. k < msg_iov m \<or> msg_end m \<le> k \<Longrightarrow> v ! k = iov c ! k" "gather (c\<lparr>iov := v\<rparr>) i n = Some (drop res bs)"
    using drop_written_ok [OF bs res] unfolding msg_end_def by metis
  let ?m = "m\<lparr>msg_iov := i, msg_iovlen := n\<rparr>"
  let ?c = "c\<lparr>iov := v, msglist := (msglist c)[msgcurr c := Some ?m]\<rparr>"
  have e: "msg_end ?m = msg_end m" using d(3) by (simp add: msg_end_def)
  have ok': "out_ok ?c"
    unfolding out_ok_def
  proof (intro conjI allI impI)
    fix k assume "k < msgused ?c"
    then show "\<exists>m. msglist ?c ! k = Some m \<and> msg_end m \<le> iovused ?c"
      using okD(4) [of k] ml e by (cases "k = msgcurr c") auto
  next
    fix k j a b assume h: "k < j" "j < msgused ?c" "msglist ?c ! k = Some a" "msglist ?c ! j = Some b"
    then have "\<exists>a' b'. msglist c ! k = Some a' \<and> msglist c ! j = Some b' \<and> msg_end a = msg_end a' \<and> msg_iov b' \<le> msg_iov b"
      using ml d(2) e by (cases "k = msgcurr c"; cases "j = msgcurr c") auto
    then show "msg_end a \<le> msg_iov b" using okD(5) [OF h(1)] h(2) by fastforce
  qed (use okD(1-3) d(5) in auto)
  obtain r where r: "msgused c - msgcurr c = Suc r" using cur by (metis Suc_diff_Suc)
  obtain rest where rest: "msgs_bytes c (Suc (msgcurr c)) r = Some rest" "p = bs @ rest"
    using p m bs r unfolding pending_def by (auto simp: Option.bind_eq_Some_conv)
  have "msgs_bytes ?c (Suc (msgcurr c)) r = msgs_bytes c (Suc (msgcurr c)) r"
  proof (rule msgs_bytes_update)
    fix k m' j assume h: "Suc (msgcurr c) \<le> k" "k < Suc (msgcurr c) + r" "msglist c ! k = Some m'" "msg_iov m' \<le> j" "j < msg_end m'"
    then have "msg_end m \<le> msg_iov m'" using okD(5) [of "msgcurr c" k m m'] ml r by simp
    then show "iov ?c ! j = iov c ! j" using h d(6) by simp
  qed (use d(5) in auto)
  moreover have "gather ?c i n = gather (c\<lparr>iov := v\<rparr>) i n" by (rule gather_cong) simp_all
  ultimately have "pending ?c = Some (drop res p)"
    using rest r d(7) ml res by (simp add: pending_def msg_at_def)
  with that [OF d(1,4) ok'] d(5) rest(2) res show ?thesis by simp
qed

lemma transmitted_trans: "transmitted a b \<Longrightarrow> transmitted b c \<Longrightarrow> transmitted a c"
  unfolding transmitted_def by (cases a; cases b; cases c) simp

lemma skip_msg_ok:
  assumes ok: "out_ok c" and p: "pending c = Some p"
  obtains c1 where "skip_msg c = Some c1" "out_ok c1" "pending c1 = Some p" "transmitted c c1"
    "sfd c1 = sfd c" "state c1 = state c" "msgused c1 = msgused c"
proof -
  define c1 where "c1 = (if msgcurr c < msgused c \<and> msg_iovlen (the (msg_at c (msgcurr c))) = 0 then c\<lparr>msgcurr := msgcurr c + 1\<rparr> else c)"
  note okD = out_okD [OF ok]
  have at: "\<exists>m. msg_at c i = Some m" if "i < msgused c" for i
    using okD(1) okD(4) [of i] that by (auto simp: msg_at_def)
  have first: "skip_msg c = Some c1"
    using at [of "msgcurr c"] by (auto simp: skip_msg_def c1_def)
  have ok1: "out_ok c1" using ok unfolding c1_def out_ok_def by auto
  have p1: "pending c1 = Some p"
  proof (cases "msgcurr c < msgused c \<and> msg_iovlen (the (msg_at c (msgcurr c))) = 0")
    case True
    then obtain m where m: "msg_at c (msgcurr c) = Some m" "msg_iovlen m = 0" using at by force
    obtain r where r: "msgused c - msgcurr c = Suc r" using True by (metis Suc_diff_Suc)
    have same: "msgs_bytes (c\<lparr>msgcurr := k\<rparr>) i n = msgs_bytes c i n" for k i n by (rule msgs_bytes_update) simp_all
    moreover have "msgused c - Suc (msgcurr c) = r" using r by simp
    ultimately show ?thesis using True p m r by (auto simp: c1_def pending_def same Option.bind_eq_Some_conv)
  qed (simp only: c1_def if_False p)
  have f1: "sfd c1 = sfd c" "state c1 = state c" "msgused c1 = msgused c" and t1: "transmitted c c1"
    by (auto simp: c1_def transmitted_def)
  show ?thesis by (rule that [OF first ok1 p1 t1 f1])
qed

text \<open>What a call of \<^verbatim>\<open>transmit\<close> leaves: \<open>n\<close> of the pending bytes are sent.\<close>

definition transmit_post :: "conn \<Rightarrow> bytes \<Rightarrow> ('w \<Rightarrow> bytes) \<Rightarrow> ('w \<Rightarrow> bytes) \<Rightarrow> 'w \<Rightarrow> transmit_result \<Rightarrow> conn \<Rightarrow> 'w \<Rightarrow> nat \<Rightarrow> bool" where
  "transmit_post c p recvd sent w r c' w' n \<longleftrightarrow> transmitted c c' \<and> out_ok c' \<and>
     n \<le> length p \<and> sent w' = sent w @ take n p \<and> pending c' = Some (drop n p) \<and> recvd w' = recvd w \<and>
     (r = TRANSMIT_COMPLETE \<longrightarrow> p = [] \<and> msgcurr c' = msgused c) \<and> state c' = (if r = TRANSMIT_HARD_ERROR then conn_closing else state c)"

lemma transmit_post_trans:
  assumes "transmitted c c1" "state c1 = state c" "msgused c1 = msgused c" "transmit_post c1 p recvd sent w r c' w' n"
  shows "transmit_post c p recvd sent w r c' w' n"
  using assms transmitted_trans [of c c1 c'] by (simp add: transmit_post_def)

text \<open>Nothing was sent: the connection is closing, or waits for the socket.\<close>

lemma transmit_post_unsent:
  assumes ok: "out_ok c" "pending c = Some p" and w: "recvd w' = recvd w" "sent w' = sent w"
    and c': "c' = c\<lparr>ev_flags := f, state := (if r = TRANSMIT_HARD_ERROR then conn_closing else state c)\<rparr>" and r: "r \<noteq> TRANSMIT_COMPLETE"
  shows "transmit_post c p recvd sent w r c' w' 0"
proof -
  have "out_ok c'" "pending c' = pending c" using ok(1) out_ok_frame [of c' c] pending_frame [of c' c] by (simp_all add: c')
  then show ?thesis using ok(2) w r by (simp add: transmit_post_def) (simp add: c' transmitted_def)
qed

text \<open>The current message has been handed to \<^verbatim>\<open>sendmsg\<close>.\<close>

lemma transmit_send:
  assumes sock: "sock_ok ops (sfd c) recvd sent" and ok: "out_ok c" and p: "pending c = Some p" and cur: "msgcurr c < msgused c"
    and skip: "skip_msg c0 = Some c"
  shows "\<exists>r c' w' n. transmit ops c0 w = Some (r, c', w') \<and> transmit_post c p recvd sent w r c' w' n"
proof -
  obtain m where m: "msg_at c (msgcurr c) = Some m" using out_okD(1,4) [OF ok] cur by (force simp: msg_at_def)
  obtain bs rest where bs: "gather c (msg_iov m) (msg_iovlen m) = Some bs" "p = bs @ rest"
    using p m cur unfolding pending_def by (cases "msgused c - msgcurr c") (auto simp: Option.bind_eq_Some_conv)
  obtain q w1 where q: "sys_sendmsg ops (sfd c) bs w = (q, w1)" by (cases "sys_sendmsg ops (sfd c) bs w")
  note q_ok = sock_okD(2) [OF sock q]
  have post: ?thesis if "transmit ops c0 w = Some (r, c', w')" "transmit_post c p recvd sent w r c' w' n" for r c' w' n using that by blast
  have closing: ?thesis if "transmit ops c0 w = Some (TRANSMIT_HARD_ERROR, c\<lparr>ev_flags := f, state := conn_closing\<rparr>, w')"
    "recvd w' = recvd w" "sent w' = sent w" for f w'
    by (rule post [OF that(1)], rule transmit_post_unsent [OF ok p that(2,3)]) simp_all
  show ?thesis
  proof (cases q)
    case (Sent res)
    show ?thesis
    proof (cases "0 < res")
      case True
      have res: "res \<le> length bs" using q_ok Sent by simp
      obtain i n res' v where d: "drop_written (iov c) (msg_iov m) (msg_iovlen m) res = Some (i, n, res')" "cut_entry (iov c) i res' = Some v"
        "out_ok (c\<lparr>iov := v, msglist := (msglist c)[msgcurr c := Some (m\<lparr>msg_iov := i, msg_iovlen := n\<rparr>)]\<rparr>)"
        "pending (c\<lparr>iov := v, msglist := (msglist c)[msgcurr c := Some (m\<lparr>msg_iov := i, msg_iovlen := n\<rparr>)]\<rparr>) = Some (drop res p)"
        "take res p = take res bs" "length v = length (iov c)"
        using transmit_msg [OF ok p cur m bs(1) res] by metis
      let ?c = "c\<lparr>iov := v, msglist := (msglist c)[msgcurr c := Some (m\<lparr>msg_iov := i, msg_iovlen := n\<rparr>)]\<rparr>"
      have "transmit ops c0 w = Some (TRANSMIT_INCOMPLETE, ?c, w1)"
        unfolding transmit_def skip using cur m bs(1) q Sent True d(1,2) by simp
      moreover have "transmitted c ?c" using d(6) by (simp add: transmitted_def)
      then have "transmit_post c p recvd sent w TRANSMIT_INCOMPLETE ?c w1 res"
        using d(3-5) q_ok Sent bs(2) res by (simp add: transmit_post_def)
      ultimately show ?thesis by (rule post)
    next
      case False
      then have "transmit ops c0 w = Some (TRANSMIT_HARD_ERROR, c\<lparr>ev_flags := ev_flags c, state := conn_closing\<rparr>, w1)"
        unfolding transmit_def skip using cur m bs(1) q Sent by simp
      then show ?thesis using q_ok Sent False by (intro closing [of "ev_flags c" w1]) simp_all
    qed
  next
    case Send_again
    obtain b c2 w2 where u: "update_event ops c EV_WRITE_PERSIST w1 = (b, c2, w2)" by (metis prod_cases3)
    obtain f where f: "c2 = c\<lparr>ev_flags := f\<rparr>" using update_event_ok(3) [OF sock u] by blast
    have w2: "recvd w2 = recvd w" "sent w2 = sent w" using update_event_ok(1,2) [OF sock u] q_ok Send_again by simp_all
    have t: "transmit ops c0 w = (if \<not> b then Some (TRANSMIT_HARD_ERROR, conn_set_state c2 conn_closing, w2) else Some (TRANSMIT_SOFT_ERROR, c2, w2))"
      unfolding transmit_def skip using cur m bs(1) q Send_again u by simp
    show ?thesis
    proof (cases b)
      case True
      then have "transmit ops c0 w = Some (TRANSMIT_SOFT_ERROR, c2, w2)" using t by simp
      moreover have "transmit_post c p recvd sent w TRANSMIT_SOFT_ERROR c2 w2 0" by (rule transmit_post_unsent [OF ok p w2]) (simp_all add: f)
      ultimately show ?thesis by (rule post)
    next
      case False
      then show ?thesis using t w2 by (intro closing [of f w2]) (simp_all add: f)
    qed
  next
    case Send_error
    then have "transmit ops c0 w = Some (TRANSMIT_HARD_ERROR, c\<lparr>ev_flags := ev_flags c, state := conn_closing\<rparr>, w1)"
      unfolding transmit_def skip using cur m bs(1) q by simp
    then show ?thesis using q_ok Send_error by (intro closing [of "ev_flags c" w1]) simp_all
  qed
qed

lemma transmit_ok:
  assumes sock: "sock_ok ops (sfd c) recvd sent" and ok: "out_ok c" and p: "pending c = Some p"
  obtains r c' w' n where "transmit ops c w = Some (r, c', w')" "transmitted c c'" "out_ok c'"
    "n \<le> length p" "sent w' = sent w @ take n p" "pending c' = Some (drop n p)" "recvd w' = recvd w"
    "r = TRANSMIT_COMPLETE \<Longrightarrow> p = [] \<and> msgcurr c' = msgused c" "state c' = (if r = TRANSMIT_HARD_ERROR then conn_closing else state c)"
proof -
  obtain c1 where skip: "skip_msg c = Some c1" and c1: "out_ok c1" "pending c1 = Some p" "transmitted c c1"
    "sfd c1 = sfd c" "state c1 = state c" "msgused c1 = msgused c"
    using skip_msg_ok [OF ok p] .
  have "\<exists>r c' w' n. transmit ops c w = Some (r, c', w') \<and> transmit_post c1 p recvd sent w r c' w' n"
  proof (cases "msgcurr c1 < msgused c1")
    case False
    then have "transmit ops c w = Some (TRANSMIT_COMPLETE, c1, w)" unfolding transmit_def skip by simp
    moreover have "p = []" "msgcurr c1 = msgused c1" using False c1(2) out_okD(2) [OF c1(1)] by (simp_all add: pending_def)
    then have "transmit_post c1 p recvd sent w TRANSMIT_COMPLETE c1 w 0" using c1(1,2) by (simp add: transmit_post_def transmitted_def)
    ultimately show ?thesis by blast
  next
    case True
    then show ?thesis using transmit_send [of ops c1 recvd sent p c w] sock c1(1,2,4) skip by simp
  qed
  then obtain r c' w' n where t: "transmit ops c w = Some (r, c', w')" "transmit_post c1 p recvd sent w r c' w' n" by blast
  show ?thesis
    by (rule that [OF t(1)]) (use transmit_post_trans [OF c1(3,5,6) t(2)] in \<open>simp_all add: transmit_post_def\<close>)
qed

end
