(* ===== verification/Srv_Serve.thy ===== *)
theory Srv_Serve
  imports Srv_Drive Srv_Transmit
begin

text \<open>
  The protocol that a connection implements, as an invariant of \<^const>\<open>drive_step\<close>: the bytes
  received are whole requests and a part of the next one, wherever the reads cut them; the bytes
  sent and pending are the replies to the whole requests, wherever the writes cut them.
\<close>

section \<open>Requests and replies\<close>

text \<open>A request is a header and a body; the length in the header is that of the body.\<close>

definition good_req :: "bytes \<times> bytes \<Rightarrow> bool" where
  "good_req r \<longleftrightarrow> (\<exists>q. read_header (fst r) = Some q \<and> rq_magic q = REQ \<and> unat (rq_bodylen q) = length (snd r)) \<and>
     length (fst r) = sizeof_header"

definition stream :: "(bytes \<times> bytes) list \<Rightarrow> bytes" where
  "stream reqs = concat (map (\<lambda>(h, b). h @ b) reqs)"

text \<open>The key and the reply of a request, from its body.\<close>

definition body_key :: "bytes \<Rightarrow> bytes" where
  "body_key body = takeWhile (\<lambda>x. x \<noteq> 0) (drop 4 body)"

definition reply :: "(bytes \<Rightarrow> (int \<times> bytes list) option) \<Rightarrow> bytes \<Rightarrow> bytes \<Rightarrow> bytes option" where
  "reply answer pad body = do {
     number \<leftarrow> read_le32 body;
     (ret, vRes) \<leftarrow> answer (body_key body);
     (let resp = (if ret \<noteq> 0 then error_reply else reply_body (reply_number number vRes) vRes)
      in Some (header_image 0 pad (length resp) @ resp)) }"

fun replies :: "(bytes \<Rightarrow> (int \<times> bytes list) option) \<Rightarrow> bytes \<Rightarrow> (bytes \<times> bytes) list \<Rightarrow> bytes option" where
  "replies answer pad [] = Some []"
| "replies answer pad (r # rs) = do {
     a \<leftarrow> reply answer pad (snd r);
     b \<leftarrow> replies answer pad rs;
     Some (a @ b) }"

lemma replies_snoc:
  "replies answer pad rs = Some a \<Longrightarrow> reply answer pad body = Some b \<Longrightarrow>
   replies answer pad (rs @ [(h, body)]) = Some (a @ b)"
  by (induction rs arbitrary: a) (auto simp: Option.bind_eq_Some_conv)

lemma stream_snoc: "stream (rs @ [(h, b)]) = stream rs @ h @ b"
  by (simp add: stream_def)

text \<open>
  What is asked of the client: every body that is announced holds the number (4 bytes) and fits
  a buffer whose size is an \<^verbatim>\<open>int\<close>.
\<close>

definition MAX_BODY :: nat where "MAX_BODY = 2 ^ 30 - 8"

function sizes_ok :: "bytes \<Rightarrow> bool" where
  "sizes_ok s =
     (case read_header s of None \<Rightarrow> True
      | Some q \<Rightarrow> rq_magic q = REQ \<longrightarrow>
          4 \<le> unat (rq_bodylen q) \<and> unat (rq_bodylen q) \<le> MAX_BODY \<and>
          sizes_ok (drop (sizeof_header + unat (rq_bodylen q)) s))"
  by pat_completeness auto
termination
  by (relation "measure length") (auto simp: read_header_def sizeof_header_def split: if_splits)

declare sizes_ok.simps [simp del]

lemma read_header_append: "sizeof_header \<le> length h \<Longrightarrow> read_header (h @ t) = read_header h"
  by (auto simp: read_header_def read_be32_def nth_append sizeof_header_def)

lemma sizes_ok_prefix: "sizes_ok (s @ t) \<Longrightarrow> sizes_ok s"
proof (induction s rule: sizes_ok.induct)
  case (1 s)
  show ?case
  proof (cases "read_header s")
    case (Some q)
    then have len: "sizeof_header \<le> length s" by (auto simp: read_header_def split: if_splits)
    then have h: "read_header (s @ t) = Some q" using Some by (simp add: read_header_append)
    let ?k = "sizeof_header + unat (rq_bodylen q)"
    have "sizes_ok (drop ?k s)" if "rq_magic q = REQ"
    proof (cases "?k \<le> length s")
      case True
      have "sizes_ok (drop ?k s @ t)" using 1(2) h that True by (subst (asm) sizes_ok.simps) simp
      then show ?thesis using 1(1) [OF Some] that by simp
    next
      case False
      then show ?thesis by (subst sizes_ok.simps) (simp add: read_header_def sizeof_header_def)
    qed
    then show ?thesis using 1(2) h Some by (subst (asm) sizes_ok.simps, subst sizes_ok.simps) simp
  qed (subst sizes_ok.simps, simp)
qed

lemma sizes_ok_req:
  assumes "good_req (h, b)" "sizes_ok (h @ b @ t)"
  shows "4 \<le> length b" "length b \<le> MAX_BODY" "sizes_ok t"
proof -
  obtain q where q: "read_header h = Some q" "rq_magic q = REQ" "unat (rq_bodylen q) = length b" "length h = sizeof_header"
    using assms(1) by (auto simp: good_req_def)
  then have "read_header (h @ b @ t) = Some q" by (simp add: read_header_append)
  with assms(2) q show "4 \<le> length b" "length b \<le> MAX_BODY" "sizes_ok t"
    by (subst (asm) sizes_ok.simps, simp)+
qed

lemma sizes_ok_stream: "\<forall>r\<in>set rs. good_req r \<Longrightarrow> sizes_ok (stream rs @ t) \<Longrightarrow> sizes_ok t"
proof (induction rs)
  case (Cons r rs)
  obtain h b where r: "r = (h, b)" by (cases r)
  have "sizes_ok (stream rs @ t)"
    using sizes_ok_req(3) [of h b "stream rs @ t"] Cons.prems r by (simp add: stream_def)
  with Cons show ?case by simp
qed (simp add: stream_def)

section \<open>The invariant\<close>

definition unparsed :: "conn \<Rightarrow> bytes" where
  "unparsed c = take (rbytes c) (drop (rcurr c) (rbuf c))"

definition conn_ok :: "int \<Rightarrow> bytes \<Rightarrow> conn \<Rightarrow> bool" where
  "conn_ok s pad c \<longleftrightarrow> sfd c = s \<and> rsize c = int (length (rbuf c)) \<and> rsize c \<le> INT_MAX \<and> rcurr c + rbytes c \<le> length (rbuf c) \<and>
     out_room c \<and> padding c = pad"

text \<open>Reading a body: \<open>got\<close> is the part of it that is in the buffer.\<close>

definition reading_body :: "conn \<Rightarrow> bytes \<Rightarrow> bytes \<Rightarrow> bool" where
  "reading_body c h got \<longleftrightarrow>
     length h = sizeof_header \<and> read_header h = Some (binary_header c) \<and> rq_magic (binary_header c) = REQ \<and>
     int (length got) + rlbytes c = int (unat (rq_bodylen (binary_header c))) \<and> 0 \<le> rlbytes c \<and>
     ritem c = Some (rcurr c) \<and> length got \<le> rcurr c \<and>
     take (length got) (drop (rcurr c - length got) (rbuf c)) = got \<and> int (rcurr c) + rlbytes c \<le> int (length (rbuf c))"

definition serving :: "int \<Rightarrow> (bytes \<Rightarrow> (int \<times> bytes list) option) \<Rightarrow> bytes \<Rightarrow> (bytes \<times> bytes) list \<Rightarrow> conn \<Rightarrow> bytes \<Rightarrow> bytes \<Rightarrow> bool" where
  "serving s answer pad reqs c rcv snt \<longleftrightarrow> conn_ok s pad c \<and> (\<forall>r\<in>set reqs. good_req r) \<and>
     (if state c \<in> {conn_new_cmd, conn_waiting, conn_read, conn_parse_cmd} then
        write_and_free c = None \<and> rcv = stream reqs @ unparsed c \<and> replies answer pad reqs = Some snt
      else if state c = conn_nread then
        write_and_free c = None \<and> replies answer pad reqs = Some snt \<and>
        (\<exists>h got. reading_body c h got \<and> rcv = stream reqs @ h @ got @ unparsed c)
      else if state c = conn_mwrite then
        rcv = stream reqs @ unparsed c \<and> out_ok c \<and>
        (\<exists>p. pending c = Some p \<and> replies answer pad reqs = Some (snt @ p))
      else state c = conn_closing \<and>
        (\<exists>rest p. rcv = stream reqs @ rest \<and> replies answer pad reqs = Some (snt @ p)))"

text \<open>The allocator that never fails.\<close>

definition mem_avail :: "'w sys_ops \<Rightarrow> bool" where
  "mem_avail ops \<longleftrightarrow> (\<forall>n w. fst (sys_malloc ops n w) \<noteq> None)"

lemma mem_availE:
  assumes "mem_avail ops"
  obtains mem w' where "sys_malloc ops n w = (Some mem, w')"
  using assms unfolding mem_avail_def by (metis option.exhaust_sel prod.exhaust_sel)

lemma serving_closing:
  assumes "serving s answer pad reqs c rcv snt" "c' = c\<lparr>ev_flags := f, state := conn_closing\<rparr>"
  shows "serving s answer pad reqs c' rcv snt"
proof -
  have "conn_ok s pad c'" using assms by (simp add: serving_def conn_ok_def out_room_def padding_def)
  then show ?thesis
    using assms unfolding serving_def by (auto split: if_splits)
qed

section \<open>Waiting and new commands\<close>

lemma event_or_close_ok:
  assumes "sock_ok ops s recvd sent" "event_or_close ops c f w = (b, c', w')"
  shows "recvd w' = recvd w" "sent w' = sent w"
    and "\<exists>g. c' = (if b then c\<lparr>ev_flags := g\<rparr> else c\<lparr>ev_flags := g, state := conn_closing\<rparr>)"
proof -
  obtain r c1 w1 where u: "update_event ops c f w = (r, c1, w1)" by (metis prod_cases3)
  note u_ok = update_event_ok [OF assms(1) u]
  then obtain g where g: "c1 = c\<lparr>ev_flags := g\<rparr>" by metis
  show "recvd w' = recvd w" "sent w' = sent w"
    using assms(2) u u_ok(1,2) by (auto simp: event_or_close_def split: if_splits)
  show "\<exists>g. c' = (if b then c\<lparr>ev_flags := g\<rparr> else c\<lparr>ev_flags := g, state := conn_closing\<rparr>)"
    using assms(2) u g by (auto simp: event_or_close_def split: if_splits)
qed

text \<open>States that differ in fields the invariant does not read.\<close>

lemma serving_idle:
  assumes "serving s answer pad reqs c rcv snt"
    and "state c \<in> {conn_new_cmd, conn_waiting, conn_read, conn_parse_cmd}" "st \<in> {conn_new_cmd, conn_waiting, conn_read, conn_parse_cmd}"
  shows "serving s answer pad reqs (c\<lparr>ev_flags := f, state := st\<rparr>) rcv snt" "serving s answer pad reqs (c\<lparr>cmd := k\<rparr>) rcv snt"
  using assms by (auto simp: serving_def conn_ok_def out_room_def padding_def unparsed_def)

lemma serving_ev_flags:
  assumes "serving s answer pad reqs c rcv snt"
  shows "serving s answer pad reqs (c\<lparr>ev_flags := f\<rparr>) rcv snt"
proof -
  let ?c = "c\<lparr>ev_flags := f\<rparr>"
  have "out_ok ?c = out_ok c" "pending ?c = pending c" by (rule out_ok_frame pending_frame; simp)+
  moreover have "conn_ok s pad ?c = conn_ok s pad c" "unparsed ?c = unparsed c" "reading_body ?c h got = reading_body c h got" for h got
    by (simp_all add: conn_ok_def out_room_def padding_def unparsed_def reading_body_def)
  ultimately show ?thesis using assms unfolding serving_def by (simp split: if_splits)
qed

lemma serve_waiting:
  assumes "sock_ok ops s recvd sent" "serving s answer pad reqs c (recvd w) (sent w)" "state c = conn_waiting"
    and "step_waiting ops c nreqs w = Some (c', nreqs', stop, w')"
  shows "serving s answer pad reqs c' (recvd w') (sent w') \<and> recvd w' = recvd w"
proof -
  obtain b c1 w1 where e: "event_or_close ops c EV_READ_PERSIST w = (b, c1, w1)" by (metis prod_cases3)
  note e_ok = event_or_close_ok [OF assms(1) e]
  then obtain g where g: "c1 = (if b then c\<lparr>ev_flags := g\<rparr> else c\<lparr>ev_flags := g, state := conn_closing\<rparr>)" by blast
  show ?thesis
  proof (cases b)
    case True
    then have "c' = c\<lparr>ev_flags := g, state := conn_read\<rparr>" "w' = w1"
      using assms(4) e g by (auto simp: step_waiting_def)
    then show ?thesis using serving_idle(1) [OF assms(2), of conn_read g] assms(3) e_ok(1,2) by simp
  next
    case False
    then have "c' = c\<lparr>ev_flags := g, state := conn_closing\<rparr>" "w' = w1"
      using assms(4) e g by (auto simp: step_waiting_def)
    then show ?thesis using serving_closing [OF assms(2)] e_ok(1,2) by auto
  qed
qed

lemma length_unparsed: "conn_ok s pad c \<Longrightarrow> length (unparsed c) = rbytes c"
  by (auto simp: conn_ok_def unparsed_def)

lemma mem_slice_unparsed: "conn_ok s pad c \<Longrightarrow> mem_slice (rbuf c) (rcurr c) (rbytes c) = Some (unparsed c)"
  by (simp add: conn_ok_def unparsed_def mem_slice_def)

lemma conn_shrink_ok:
  assumes sock: "sock_ok ops s recvd sent" and ok: "conn_ok s pad c" and r: "conn_shrink ops c w = Some (c', w')"
  shows "conn_ok s pad c'" "unparsed c' = unparsed c" "recvd w' = recvd w" "sent w' = sent w"
    "state c' = state c" "write_and_free c' = write_and_free c"
proof -
  obtain c1 w1 where r1: "shrink_rbuf ops c w = Some (c1, w1)"
    and r1': "(case shrink_msglist ops c1 w1 of (c2, w2) \<Rightarrow> Some (shrink_iov ops c2 w2)) = Some (c', w')"
    using r by (auto simp: conn_shrink_def Option.bind_eq_Some_conv)
  obtain c2 w2 where r2: "shrink_msglist ops c1 w1 = (c2, w2)" by (metis prod.exhaust)
  then have r3: "shrink_iov ops c2 w2 = (c', w')" using r1' by simp
  have 1: "conn_ok s pad c1 \<and> unparsed c1 = unparsed c \<and> recvd w1 = recvd w \<and> sent w1 = sent w \<and> state c1 = state c \<and>
    write_and_free c1 = write_and_free c"
  proof (cases "int READ_BUFFER_HIGHWAT < rsize c \<and> rbytes c < DATA_BUFFER_SIZE")
    case True
    obtain buf where buf: "(if rcurr c \<noteq> 0 then do {
                  data \<leftarrow> mem_slice (rbuf c) (rcurr c) (rbytes c);
                  mem_put (rbuf c) 0 data }
                else Some (rbuf c)) = Some buf"
      using r1 True by (cases "if rcurr c \<noteq> 0 then do {
                  data \<leftarrow> mem_slice (rbuf c) (rcurr c) (rbytes c);
                  mem_put (rbuf c) 0 data }
                else Some (rbuf c)") (auto simp: shrink_rbuf_def)
    then have "if rcurr c = 0 then buf = rbuf c else mem_put (rbuf c) 0 (unparsed c) = Some buf"
      using mem_slice_unparsed [OF ok] by (auto split: if_splits)
    then have b: "length buf = length (rbuf c)" "take (rbytes c) buf = unparsed c"
      using mem_putE [of "rbuf c" 0 "unparsed c" buf] length_unparsed [OF ok]
      by (auto split: if_splits) (simp add: unparsed_def)
    obtain m w3 where m: "realloc_bytes ops buf DATA_BUFFER_SIZE w = (m, w3)" by (metis prod.exhaust)
    note m_ok = realloc_bytes_ok [OF sock m]
    show ?thesis
    proof (cases m)
      case None
      then have "c1 = c\<lparr>rbuf := buf, rcurr := 0\<rparr>" "w1 = w3" using r1 buf m True by (auto simp: shrink_rbuf_def)
      then show ?thesis using ok b m_ok(1,2) by (auto simp: conn_ok_def out_room_def padding_def unparsed_def)
    next
      case (Some newbuf)
      then have c1: "c1 = c\<lparr>rbuf := newbuf, rsize := int DATA_BUFFER_SIZE, rcurr := 0\<rparr>" "w1 = w3"
        using r1 buf m True by (auto simp: shrink_rbuf_def)
      have "length newbuf = DATA_BUFFER_SIZE" "take (rbytes c) newbuf = take (rbytes c) buf"
        using m_ok(3) [OF Some] True ok b(1) by (auto simp: conn_ok_def)
      moreover have "int DATA_BUFFER_SIZE \<le> INT_MAX" by (simp add: DATA_BUFFER_SIZE_def INT_MAX_def)
      ultimately show ?thesis using c1 ok b True m_ok(1,2) by (auto simp: conn_ok_def out_room_def padding_def unparsed_def)
    qed
  qed (use r1 ok in \<open>auto simp: shrink_rbuf_def\<close>)
  obtain m w3 where m: "realloc_array ops 56 (msglist c1) MSG_LIST_INITIAL w1 = (m, w3)" by (metis prod.exhaust)
  have 2: "conn_ok s pad c2 \<and> unparsed c2 = unparsed c1 \<and> recvd w2 = recvd w1 \<and> sent w2 = sent w1 \<and> state c2 = state c1 \<and>
    write_and_free c2 = write_and_free c1"
    using r2 m realloc_array_ok [OF sock m] 1
    by (auto simp: shrink_msglist_def conn_ok_def out_room_def padding_def unparsed_def srv_consts split: if_splits option.splits)
  obtain m' w3' where m': "realloc_array ops 16 (iov c2) IOV_LIST_INITIAL w2 = (m', w3')" by (metis prod.exhaust)
  have 3: "conn_ok s pad c' \<and> unparsed c' = unparsed c2 \<and> recvd w' = recvd w2 \<and> sent w' = sent w2 \<and> state c' = state c2 \<and>
    write_and_free c' = write_and_free c2"
    using r3 m' realloc_array_ok [OF sock m'] 2
    by (auto simp: shrink_iov_def conn_ok_def out_room_def padding_def unparsed_def srv_consts split: if_splits option.splits)
  show "conn_ok s pad c'" "unparsed c' = unparsed c" "recvd w' = recvd w" "sent w' = sent w"
    "state c' = state c" "write_and_free c' = write_and_free c"
    using 1 2 3 by simp_all
qed

lemma serve_new_cmd:
  assumes sock: "sock_ok ops s recvd sent" and inv: "serving s answer pad reqs c (recvd w) (sent w)" and st: "state c = conn_new_cmd"
    and step: "step_new_cmd ops c nreqs w = Some (c', nreqs', stop, w')"
  shows "serving s answer pad reqs c' (recvd w') (sent w') \<and> recvd w' = recvd w"
proof (cases "0 \<le> nreqs - 1")
  case True
  then obtain c1 w1 where r: "conn_shrink ops (c\<lparr>cmd := - 1\<rparr>) w = Some (c1, w1)" and w': "w' = w1"
    and c': "c' = c1\<lparr>state := (if 0 < rbytes c1 then conn_parse_cmd else conn_waiting)\<rparr>"
    using step by (auto simp: step_new_cmd_def reset_cmd_handler_def Let_def Option.bind_eq_Some_conv split: if_splits)
  have "serving s answer pad reqs (c\<lparr>cmd := - 1\<rparr>) (recvd w) (sent w)"
    by (rule serving_idle(2) [OF inv, of conn_new_cmd]) (simp_all add: st)
  moreover from this have "conn_ok s pad (c\<lparr>cmd := - 1\<rparr>)" by (simp add: serving_def)
  ultimately show ?thesis
    using conn_shrink_ok [OF sock _ r] c' w' st
    by (auto simp: serving_def conn_ok_def out_room_def padding_def unparsed_def)
next
  case False
  show ?thesis
  proof (cases "0 < rbytes c")
    case True
    obtain b c1 w1 where e: "event_or_close ops c EV_WRITE_PERSIST w = (b, c1, w1)" by (metis prod_cases3)
    note e_ok = event_or_close_ok [OF sock e]
    have r: "c' = c1" "w' = w1" using step False True e by (auto simp: step_new_cmd_def Let_def)
    obtain g where g: "c1 = (if b then c\<lparr>ev_flags := g\<rparr> else c\<lparr>ev_flags := g, state := conn_closing\<rparr>)" using e_ok(3) by blast
    show ?thesis using serving_ev_flags [OF inv, of g] serving_closing [OF inv, of c1 g] e_ok(1,2) r g by (cases b) simp_all
  next
    case noBytes: False
    then show ?thesis using step False inv by (auto simp: step_new_cmd_def Let_def)
  qed
qed

end
