(* ===== verification/Srv_Reading.thy ===== *)
theory Srv_Reading
  imports Srv_Serve
begin

text \<open>The rounds that read: from the socket, a header, a body. They preserve the invariant.\<close>

section \<open>Reading from the socket\<close>

text \<open>What reading changes of a connection, and what it adds to the unparsed bytes.\<close>

definition received :: "int \<Rightarrow> bytes \<Rightarrow> conn \<Rightarrow> bytes \<Rightarrow> conn \<Rightarrow> bool" where
  "received s pad c new c' \<longleftrightarrow> conn_ok s pad c' \<and> unparsed c' = unparsed c @ new \<and> state c' = state c \<and>
     write_and_free c' = write_and_free c \<and> rlbytes c' = rlbytes c \<and> binary_header c' = binary_header c"

lemma received_trans: "received s pad a x b \<Longrightarrow> received s pad b y c \<Longrightarrow> received s pad a (x @ y) c"
  by (simp add: received_def)

lemma received_refl: "conn_ok s pad c \<Longrightarrow> received s pad c [] c"
  by (simp add: received_def)

lemma repack_ok:
  assumes ok: "conn_ok s pad c" and r: "repack c = Some c'"
  shows "received s pad c [] c'" "rcurr c' = 0" "length (rbuf c') = length (rbuf c)"
proof -
  have "\<exists>buf. c' = c\<lparr>rbuf := buf, rcurr := 0\<rparr> \<and> length buf = length (rbuf c) \<and> take (rbytes c) buf = unparsed c"
  proof (cases "rcurr c \<noteq> 0 \<and> rbytes c \<noteq> 0")
    case True
    then obtain buf where "mem_put (rbuf c) 0 (unparsed c) = Some buf" "c' = c\<lparr>rbuf := buf, rcurr := 0\<rparr>"
      using r mem_slice_unparsed [OF ok] by (auto simp: repack_def Option.bind_eq_Some_conv)
    then show ?thesis using mem_putE [of "rbuf c" 0 "unparsed c" buf] length_unparsed [OF ok] by auto
  next
    case False
    then have "c' = c\<lparr>rbuf := rbuf c, rcurr := 0\<rparr>" using r by (auto simp: repack_def split: if_splits)
    moreover have "take (rbytes c) (rbuf c) = unparsed c" using False by (auto simp: unparsed_def)
    ultimately show ?thesis by blast
  qed
  then show "received s pad c [] c'" "rcurr c' = 0" "length (rbuf c') = length (rbuf c)"
    using ok by (auto simp: received_def conn_ok_def out_room_def padding_def unparsed_def)
qed

text \<open>A larger buffer keeps the unparsed bytes.\<close>

lemma realloc_rbuf_ok:
  assumes sock: "sock_ok ops s recvd sent" and ok: "conn_ok s pad c"
    and r: "realloc_bytes ops (rbuf c) n w = (Some mem, w')" and n: "length (rbuf c) \<le> n" "m = int n" "m \<le> INT_MAX"
  shows "received s pad c [] (c\<lparr>rbuf := mem, rsize := m\<rparr>)" "recvd w' = recvd w" "sent w' = sent w"
proof -
  note r_ok = realloc_bytes_ok [OF sock r]
  have mem: "length mem = n" "take (rcurr c + rbytes c) mem = take (rcurr c + rbytes c) (rbuf c)"
    using r_ok(3) n ok by (auto simp: conn_ok_def)
  then have "take (rbytes c) (drop (rcurr c) mem) = unparsed c"
    by (simp add: unparsed_def take_drop add.commute)
  then show "received s pad c [] (c\<lparr>rbuf := mem, rsize := m\<rparr>)" using ok mem(1) n
    by (simp add: received_def conn_ok_def out_room_def padding_def) (simp add: unparsed_def)
qed (use realloc_bytes_ok [OF sock r] in simp_all)

lemma trn_room_ok:
  assumes sock: "sock_ok ops s recvd sent" and mem: "mem_avail ops" and ok: "conn_ok s pad c" "rcurr c = 0"
    and r: "trn_room ops left c w = Some (rm, left', c', w')"
  shows "rm \<noteq> No_memory" "received s pad c [] c'" "rcurr c' = 0" "recvd w' = recvd w" "sent w' = sent w"
proof -
  have "rm \<noteq> No_memory \<and> received s pad c [] c' \<and> rcurr c' = 0 \<and> recvd w' = recvd w \<and> sent w' = sent w"
  proof (cases "int (rbytes c) < rsize c \<or> left = 0")
    case True
    then show ?thesis using r ok received_refl by (auto simp: trn_room_def split: if_splits)
  next
    case False
    then have pos: "0 < rsize c" using r by (auto simp: trn_room_def split: if_splits)
    obtain m w1 where m: "sys_malloc ops (nat (rsize c * 2)) w = (Some m, w1)" using mem_availE [OF mem] .
    then obtain buf where re: "realloc_bytes ops (rbuf c) (nat (rsize c * 2)) w = (Some buf, w1)" by (auto simp: realloc_bytes_def)
    have c': "rm = Room" "c' = c\<lparr>rbuf := buf, rsize := rsize c * 2, rcurr := 0\<rparr>" "w' = w1"
      using r False re by (auto simp: trn_room_def split: if_splits)
    have "received s pad c [] (c\<lparr>rbuf := buf, rsize := rsize c * 2\<rparr>)" "recvd w1 = recvd w" "sent w1 = sent w"
      using realloc_rbuf_ok [OF sock ok(1) re, of "rsize c * 2"] ok pos r False by (auto simp: conn_ok_def trn_room_def split: if_splits)
    then show ?thesis using c' ok(2) by (simp add: received_def conn_ok_def out_room_def padding_def unparsed_def)
  qed
  then show "rm \<noteq> No_memory" "received s pad c [] c'" "rcurr c' = 0" "recvd w' = recvd w" "sent w' = sent w" by simp_all
qed

lemma trn_recv_ok:
  assumes sock: "sock_ok ops s recvd sent" and ok: "conn_ok s pad c" "rcurr c = 0"
    and r: "trn_recv ops c w = Some (q, c', w')"
  shows "\<exists>new. received s pad c new c' \<and> rcurr c' = 0 \<and> recvd w' = recvd w @ new \<and> sent w' = sent w"
proof -
  obtain q1 w1 where rd: "sys_read ops s (trn_avail c) w = (q1, w1)" by (metis prod.exhaust)
  note rd_ok = sock_okD(1) [OF sock rd]
  have s: "sfd c = s" using ok by (simp add: conn_ok_def)
  show ?thesis
  proof (cases q1)
    case (Read_bytes bs)
    then obtain buf where buf: "mem_put (rbuf c) (rbytes c) bs = Some buf" "w' = w1"
      "c' = c\<lparr>rbuf := buf, rbytes := rbytes c + length bs\<rparr>"
      using r rd s by (auto simp: trn_recv_def Option.bind_eq_Some_conv)
    note p = mem_putE [OF buf(1)]
    have "take (rbytes c + length bs) buf = take (rbytes c) buf @ take (length bs) (drop (rbytes c) buf)" by (rule take_add)
    then have "received s pad c bs c'"
      using ok buf(3) p by (simp add: received_def conn_ok_def out_room_def padding_def unparsed_def)
    then show ?thesis using rd_ok Read_bytes buf ok(2) by auto
  qed (use r rd s rd_ok ok received_refl in \<open>auto simp: trn_recv_def\<close>)
qed

lemma trn_loop_ok:
  "trn_loop ops left g c w = Some (r, c', w') \<Longrightarrow> sock_ok ops s recvd sent \<Longrightarrow> mem_avail ops \<Longrightarrow>
   conn_ok s pad c \<Longrightarrow> rcurr c = 0 \<Longrightarrow> g \<noteq> READ_MEMORY_ERROR \<Longrightarrow>
   r \<noteq> READ_MEMORY_ERROR \<and> (\<exists>new. received s pad c new c' \<and> recvd w' = recvd w @ new \<and> sent w' = sent w)"
proof (induction ops left g c w rule: trn_loop.induct)
  case (1 ops left g c w)
  obtain rm left' c1 w1 where rm: "trn_room ops left c w = Some (rm, left', c1, w1)"
    using 1(2) by (cases "trn_room ops left c w") auto
  note room = trn_room_ok [OF 1(3-6) rm]
  show ?case
  proof (cases rm)
    case Enough
    then have "r = g" "c' = c1" "w' = w1" using 1(2) rm by auto
    then show ?thesis using room 1(7) by (intro conjI exI [of _ "[]"]) auto
  next
    case Room
    obtain q c2 w2 where q: "trn_recv ops c1 w1 = Some (q, c2, w2)"
      using 1(2) rm Room by (cases "trn_recv ops c1 w1") auto
    have "conn_ok s pad c1" using room(2) by (simp add: received_def)
    then obtain new where new: "received s pad c1 new c2" "rcurr c2 = 0" "recvd w2 = recvd w1 @ new" "sent w2 = sent w1"
      using trn_recv_ok [OF 1(3) _ room(3) q] by blast
    have c2: "received s pad c new c2" using received_trans [OF room(2) new(1)] by simp
    show ?thesis
    proof (cases "\<exists>bs. q = Read_bytes bs \<and> length bs = trn_avail c1")
      case True
      then obtain bs where bs: "q = Read_bytes bs" "length bs = trn_avail c1" by blast
      have "trn_loop ops left' READ_DATA_RECEIVED c2 w2 = Some (r, c', w')"
        using 1(2) rm Room q bs by simp
      note IH = 1(1) [OF rm refl Room refl refl q refl bs(1) refl bs(2) this 1(3,4)]
      have "conn_ok s pad c2" using c2 by (simp add: received_def)
      then obtain new' where "r \<noteq> READ_MEMORY_ERROR" "received s pad c2 new' c'" "recvd w' = recvd w2 @ new'" "sent w' = sent w2"
        using IH new(2) by blast
      then show ?thesis using received_trans [OF c2] new room by (intro conjI exI [of _ "new @ new'"]) auto
    next
      case False
      then have "c' = c2" "w' = w2" "r \<in> {g, READ_DATA_RECEIVED, READ_ERROR}"
        using 1(2) rm Room q by (auto split: io_read.splits)
      then show ?thesis using c2 new room 1(7) by auto
    qed
  qed (use room(1) in simp)
qed

declare trn_loop.simps [simp del]

lemma serve_read:
  assumes sock: "sock_ok ops s recvd sent" "mem_avail ops" and inv: "serving s answer pad reqs c (recvd w) (sent w)"
    and st: "state c = conn_read" and step: "step_read ops c nreqs w = Some (c', nreqs', stop, w')"
  shows "serving s answer pad reqs c' (recvd w') (sent w') \<and> (\<exists>new. recvd w' = recvd w @ new)"
proof -
  obtain r c1 where t: "try_read_network ops c w = Some (r, c1, w')"
    and c': "c' = (case r of READ_NO_DATA_RECEIVED \<Rightarrow> c1\<lparr>state := conn_waiting\<rparr> | READ_DATA_RECEIVED \<Rightarrow> c1\<lparr>state := conn_parse_cmd\<rparr>
       | READ_ERROR \<Rightarrow> c1\<lparr>state := conn_closing\<rparr> | READ_MEMORY_ERROR \<Rightarrow> c1)"
    using step by (auto simp: step_read_def Option.bind_eq_Some_conv cong: try_read_result.case_cong)
  obtain c0 where r: "repack c = Some c0" "trn_loop ops 4 READ_NO_DATA_RECEIVED c0 w = Some (r, c1, w')"
    using t by (auto simp: try_read_network_def Option.bind_eq_Some_conv)
  have ok: "conn_ok s pad c" using inv by (simp add: serving_def)
  note rp = repack_ok [OF ok r(1)]
  have "conn_ok s pad c0" using rp(1) by (simp add: received_def)
  then obtain new where new: "r \<noteq> READ_MEMORY_ERROR" "received s pad c0 new c1" "recvd w' = recvd w @ new" "sent w' = sent w"
    using trn_loop_ok [OF r(2) sock _ rp(2)] by auto
  have n: "received s pad c new c1" using received_trans [OF rp(1) new(2)] by simp
  have base: "write_and_free c = None" "recvd w = stream reqs @ unparsed c" "replies answer pad reqs = Some (sent w)" "\<forall>r\<in>set reqs. good_req r"
    using inv st by (simp_all add: serving_def)
  have "serving s answer pad reqs (c1\<lparr>state := x\<rparr>) (recvd w') (sent w')" if "x \<in> {conn_waiting, conn_parse_cmd, conn_closing}" for x
    using that n base new(3,4) by (auto simp: serving_def received_def conn_ok_def out_room_def padding_def unparsed_def)
  then show ?thesis using c' new(1,3) by (cases r) auto
qed

section \<open>A header\<close>

lemma grow_size_ok:
  "0 < nsize \<Longrightarrow> size' \<le> 2 ^ 62 \<Longrightarrow>
   \<exists>r. grow_size size' nsize = Some r \<and> size' \<le> r \<and> nsize \<le> r \<and> (r = nsize \<or> r < 2 * size')"
proof (induction "size' - nsize" arbitrary: nsize rule: less_induct)
  case less
  show ?case
  proof (cases "nsize < size'")
    case True
    then have "nsize * 2 mod 2 ^ 64 = nsize * 2" using less.prems(2) by simp
    moreover obtain r where "grow_size size' (nsize * 2) = Some r" "size' \<le> r" "nsize * 2 \<le> r" "r = nsize * 2 \<or> r < 2 * size'"
    proof -
      have "\<exists>r. grow_size size' (nsize * 2) = Some r \<and> size' \<le> r \<and> nsize * 2 \<le> r \<and> (r = nsize * 2 \<or> r < 2 * size')"
        using less.hyps [of "nsize * 2"] less.prems True by simp
      then show ?thesis using that by blast
    qed
    ultimately show ?thesis using True by (intro exI [of _ r]) (auto simp: grow_size.simps [of size' nsize])
  qed (simp add: grow_size.simps [of size' nsize])
qed

lemma grow_rbuf_ok:
  assumes sock: "sock_ok ops s recvd sent" and mem: "mem_avail ops" and ok: "conn_ok s pad c"
    and n: "rlbytes c = int n" "n \<le> MAX_BODY" "sizeof_header \<le> rbytes c"
    and r: "grow_rbuf ops c w = Some (x, w')"
  obtains c' where "x = Inr c'" "received s pad c [] c'"
    "rcurr c' + sizeof_header + n \<le> length (rbuf c')" "recvd w' = recvd w" "sent w' = sent w"
proof (cases "rsize c - int (rcurr c + sizeof_header) < rlbytes c")
  case False
  then have "x = Inr c" "w' = w" using r by (auto simp: grow_rbuf_def)
  then show ?thesis using that [of c] False ok n(1) received_refl [OF ok] by (simp add: conn_ok_def)
next
  case True
  define size' where "size' = n + sizeof_header"
  have size': "size' \<le> 2 ^ 30" "nat ((rlbytes c + int sizeof_header) mod 2 ^ 64) = size'"
    using n(1,2) by (simp_all add: size'_def MAX_BODY_def sizeof_header_def nat_add_distrib)
  have rs: "rsize c = int (length (rbuf c))" "rsize c mod 2 ^ 64 = int (length (rbuf c))" "nat (rsize c mod 2 ^ 64) = length (rbuf c)"
    and pos: "0 < length (rbuf c)"
    using ok n(3) by (auto simp: conn_ok_def sizeof_header_def INT_MAX_def)
  obtain nsize where g: "grow_size size' (length (rbuf c)) = Some nsize" "size' \<le> nsize" "length (rbuf c) \<le> nsize"
    "nsize = length (rbuf c) \<or> nsize < 2 * size'"
    using grow_size_ok [OF pos, of size'] size'(1) by auto
  have int_max: "int nsize \<le> INT_MAX" using g(4) size'(1) ok rs(1) by (auto simp: conn_ok_def INT_MAX_def)
  obtain c1 c' where c1: "received s pad c [] c1" "length (rbuf c1) = nsize"
    "recvd w' = recvd w" "sent w' = sent w" and c': "repack c1 = Some c'" "x = Inr c'"
  proof (cases "nsize = length (rbuf c)")
    case eq: True
    then obtain c' where "repack c = Some c'" "x = Inr c'" "w' = w"
      using r True g(1) size'(2) rs(2,3) by (auto simp: grow_rbuf_def Let_def Option.bind_eq_Some_conv)
    then show ?thesis using that [of c c'] received_refl [OF ok] eq by simp
  next
    case ne: False
    obtain m w1 where "sys_malloc ops nsize w = (Some m, w1)" using mem_availE [OF mem] .
    then obtain buf where re: "realloc_bytes ops (rbuf c) nsize w = (Some buf, w1)" by (auto simp: realloc_bytes_def)
    have "as_int (int nsize) = int nsize" using int_max by (intro as_int_id) (simp_all add: INT_MAX_def)
    then obtain c' where c': "repack (c\<lparr>rbuf := buf, rsize := int nsize\<rparr>) = Some c'" "x = Inr c'" "w' = w1"
      using r True g(1) size'(2) rs(2,3) ne re by (auto simp: grow_rbuf_def Let_def Option.bind_eq_Some_conv)
    have "length buf = nsize" using realloc_bytes_ok(3) [OF sock re] by simp
    then show ?thesis
      using that [OF _ _ _ _ c'(1,2)] realloc_rbuf_ok [OF sock ok re g(3) refl int_max] c'(3) by auto
  qed
  have ok1: "conn_ok s pad c1" using c1(1) by (simp add: received_def)
  note rp = repack_ok [OF ok1 c'(1)]
  show ?thesis
  proof (rule that [OF c'(2)])
    show "received s pad c [] c'" using received_trans [OF c1(1) rp(1)] by simp
    show "rcurr c' + sizeof_header + n \<le> length (rbuf c')" using rp(2,3) c1(2) g(2) by (auto simp: size'_def)
  qed (use c1 in simp_all)
qed

text \<open>A whole header starts a body.\<close>

lemma add_msghdr_fresh:
  assumes "out_room c"
  shows "add_msghdr ops (reset_messages c) w = (True, c\<lparr>msgcurr := 0, iovused := 0, msgbytes := 0, msgused := 1,
      msglist := (msglist c)[0 := Some \<lparr>msg_iov = 0, msg_iovlen = 0, msg_namelen = request_addr_size c\<rparr>]\<rparr>, w)"
  using assms by (auto simp: add_msghdr_def reset_messages_def out_room_def)

lemma bin_read_key_ok:
  assumes sock: "sock_ok ops s recvd sent" and mem: "mem_avail ops" and ok: "conn_ok s pad c"
    and n: "n = unat (rq_bodylen (binary_header c))" "n \<le> MAX_BODY" "sizeof_header \<le> rbytes c"
    and r: "bin_read_key ops c w = Some (c', w')"
  shows "received s pad (c\<lparr>state := conn_nread, rlbytes := int n\<rparr>) [] c'" "rcurr c' + sizeof_header + n \<le> length (rbuf c')" "recvd w' = recvd w" "sent w' = sent w"
    "rlbytes c' = int n" "ritem c' = Some (rcurr c' + sizeof_header)" "binary_header c' = binary_header c"
proof -
  have "uint (rq_bodylen (binary_header c)) = int n" using n(1) by simp
  then have "as_int (uint (rq_bodylen (binary_header c))) = int n"
    using n(2) as_int_id [of "int n"] by (simp add: MAX_BODY_def)
  then obtain x y where xy: "grow_rbuf ops (c\<lparr>rlbytes := int n\<rparr>) w = Some (x, y)"
    using r by (cases "grow_rbuf ops (c\<lparr>rlbytes := int n\<rparr>) w") (auto simp: bin_read_key_def)
  with \<open>as_int _ = _\<close> have x: "grow_rbuf ops (c\<lparr>rlbytes := int n\<rparr>) w = Some (x, w')"
    and cx: "c' = (case x of Inl c \<Rightarrow> c | Inr c \<Rightarrow> c\<lparr>ritem := Some (rcurr c + sizeof_header), state := conn_nread\<rparr>)"
    using r by (auto simp: bin_read_key_def split: sum.splits)
  have "conn_ok s pad (c\<lparr>rlbytes := int n\<rparr>)" using ok by (simp add: conn_ok_def out_room_def padding_def)
  from grow_rbuf_ok [OF sock mem this _ n(2) _ x] n(3)
  obtain c1 where c1: "x = Inr c1" "received s pad (c\<lparr>rlbytes := int n\<rparr>) [] c1"
    "rcurr c1 + sizeof_header + n \<le> length (rbuf c1)" "recvd w' = recvd w" "sent w' = sent w" by auto
  then show "received s pad (c\<lparr>state := conn_nread, rlbytes := int n\<rparr>) [] c'" "rcurr c' + sizeof_header + n \<le> length (rbuf c')" "recvd w' = recvd w" "sent w' = sent w"
    "rlbytes c' = int n" "ritem c' = Some (rcurr c' + sizeof_header)" "binary_header c' = binary_header c"
    using cx by (auto simp: received_def conn_ok_def out_room_def padding_def unparsed_def)
qed

lemma read_header_total: "length h = sizeof_header \<Longrightarrow> \<exists>q. read_header h = Some q"
proof -
  assume "length h = sizeof_header"
  then have "length (rev (take 4 (drop 4 h))) = 4" "sizeof_header \<le> length h" by (simp_all add: sizeof_header_def)
  then show ?thesis
    by (cases "rev (take 4 (drop 4 h))" rule: read_le32.cases) (auto simp: read_header_def read_be32_def sizeof_header_def)
qed

lemma serve_parse_cmd:
  assumes sock: "sock_ok ops s recvd sent" "mem_avail ops" and inv: "serving s answer pad reqs c (recvd w) (sent w)"
    and st: "state c = conn_parse_cmd" and sizes: "sizes_ok (recvd w)"
    and step: "step_parse_cmd ops c nreqs w = Some (c', nreqs', stop, w')"
  shows "serving s answer pad reqs c' (recvd w') (sent w') \<and> recvd w' = recvd w"
proof -
  obtain r c1 where t: "try_read_command ops c w = Some (r, c1, w')" and c': "c' = (if r = 0 then c1\<lparr>state := conn_waiting\<rparr> else c1)"
    using step by (auto simp: step_parse_cmd_def Option.bind_eq_Some_conv)
  have ok: "conn_ok s pad c" using inv by (simp add: serving_def)
  have base: "write_and_free c = None" "recvd w = stream reqs @ unparsed c" "replies answer pad reqs = Some (sent w)" "\<forall>r\<in>set reqs. good_req r"
    using inv st by (simp_all add: serving_def)
  show ?thesis
  proof (cases "rbytes c < sizeof_header")
    case True
    then have "c' = c\<lparr>ev_flags := ev_flags c, state := conn_waiting\<rparr>" "w' = w" using t c' by (auto simp: try_read_command_def split: if_splits)
    then show ?thesis using serving_idle(1) [OF inv, of conn_waiting "ev_flags c"] st by simp
  next
    case False
    define h where "h = take sizeof_header (unparsed c)"
    have h: "mem_slice (rbuf c) (rcurr c) sizeof_header = Some h" "length h = sizeof_header" "unparsed c = h @ drop sizeof_header (unparsed c)"
      using ok False length_unparsed [OF ok] append_take_drop_id [of sizeof_header "unparsed c"]
      by (auto simp: h_def mem_slice_def unparsed_def conn_ok_def)
    then obtain q where q: "read_header h = Some q" using read_header_total by metis
    show ?thesis
    proof (cases "rq_magic q = REQ")
      case bad: False
      then have "c' = c\<lparr>ev_flags := ev_flags c, state := conn_closing\<rparr>" "w' = w"
        using t c' False h(1) q by (auto simp: try_read_command_def split: if_splits)
      then show ?thesis using serving_closing [OF inv, of c' "ev_flags c"] by simp
    next
      case magic: True
      define n where "n = unat (rq_bodylen q)"
      have "sizes_ok (unparsed c)" using sizes_ok_stream base(2,4) sizes by metis
      moreover have "read_header (unparsed c) = Some q" using h(2,3) q read_header_append by (metis order_refl)
      ultimately have n_max: "n \<le> MAX_BODY" using magic by (subst (asm) sizes_ok.simps) (simp add: n_def)
      let ?m = "\<lparr>msg_iov = 0, msg_iovlen = 0, msg_namelen = request_addr_size c\<rparr>"
      let ?c0 = "c\<lparr>binary_header := q\<rparr>"
      let ?c1 = "?c0\<lparr>msgcurr := 0, iovused := 0, msgbytes := 0, msgused := 1, msglist := (msglist c)[0 := Some ?m], cmd := uint (rq_opcode q)\<rparr>"
      have room: "out_room ?c0" using ok by (simp add: conn_ok_def out_room_def)
      obtain c2 where c2: "bin_read_key ops ?c1 w = Some (c2, w')" "r = 1"
        "c1 = c2\<lparr>rbytes := rbytes c2 - sizeof_header, rcurr := rcurr c2 + sizeof_header\<rparr>"
        using t False h(1) q magic add_msghdr_fresh [OF room, of ops w]
        by (auto simp: try_read_command_def dispatch_bin_command_def Option.bind_eq_Some_conv split: if_splits)
      have ok1: "conn_ok s pad ?c1" using ok by (simp add: conn_ok_def out_room_def padding_def)
      note key = bin_read_key_ok [OF sock ok1 _ n_max _ c2(1)]
      have k: "received s pad (?c1\<lparr>state := conn_nread, rlbytes := int n\<rparr>) [] c2" "rcurr c2 + sizeof_header + n \<le> length (rbuf c2)"
        "recvd w' = recvd w" "sent w' = sent w" "rlbytes c2 = int n" "ritem c2 = Some (rcurr c2 + sizeof_header)" "binary_header c2 = q"
        using key False by (simp_all add: n_def)
      have up: "unparsed c2 = unparsed c" "state c2 = conn_nread" "write_and_free c2 = None" "conn_ok s pad c2"
        using k(1) base(1) by (simp_all add: received_def unparsed_def)
      have rb: "rbytes c2 = rbytes c" using length_unparsed [OF up(4)] length_unparsed [OF ok] up(1) by simp
      have c1': "c' = c1" using c' c2(2) by simp
      have drop: "unparsed c1 = drop sizeof_header (unparsed c)"
      proof -
        have "unparsed c1 = drop sizeof_header (unparsed c2)" using c2(3) by (simp add: unparsed_def drop_take add.commute)
        then show ?thesis using up(1) by simp
      qed
      have "conn_ok s pad c1" using up(4) rb False c2(3) by (simp add: conn_ok_def out_room_def padding_def)
      moreover have "reading_body c1 h []"
      proof -
        have "uint (rq_bodylen q) = int n" by (simp add: n_def)
        then show ?thesis using h(2) q magic k(2,5-7) c2(3) by (simp add: reading_body_def)
      qed
      moreover have "recvd w' = stream reqs @ h @ [] @ unparsed c1" using base(2) k(3) h(3) drop by simp
      ultimately show ?thesis
        using base up(2,3) c2(3) k(3,4) unfolding c1' serving_def by auto
    qed
  qed
qed

end
