(* ===== verification/Srv_Answer.thy ===== *)
theory Srv_Answer
  imports Srv_Reading
begin

text \<open>The rounds that complete a body, answer it and send the answer. They preserve the invariant.\<close>

section \<open>The body\<close>

lemma leftovers_ok:
  assumes ok: "conn_ok s pad c" and rb: "reading_body c h got" and r: "take_leftovers c = Some c'"
  defines "k \<equiv> nat (min (rlbytes c) (int (rbytes c)))"
  shows "reading_body c' h (got @ take k (unparsed c))" "unparsed c' = drop k (unparsed c)" "conn_ok s pad c'"
    "state c' = state c" "write_and_free c' = write_and_free c" "rlbytes c' = rlbytes c - int k" "rbytes c' = rbytes c - k"
proof -
  have pos: "0 \<le> rlbytes c" "ritem c = Some (rcurr c)" and len: "length got \<le> rcurr c" and
    got: "take (length got) (drop (rcurr c - length got) (rbuf c)) = got"
    using rb by (auto simp: reading_body_def)
  have k: "(if rlbytes c < int (rbytes c) then rlbytes c else int (rbytes c)) = int k" "k \<le> rbytes c" "int k \<le> rlbytes c"
    using pos by (auto simp: k_def)
  have c': "c' = c\<lparr>rbuf := rbuf c, ritem := Some (rcurr c + k), rlbytes := rlbytes c - int k, rcurr := rcurr c + k, rbytes := rbytes c - k\<rparr>"
    using r pos(2) k by (simp add: take_leftovers_def Let_def nat_diff_distrib)
  have up: "take k (unparsed c) = take k (drop (rcurr c) (rbuf c))" using k(2) by (simp add: unparsed_def min_absorb1)
  have lk: "length (take k (unparsed c)) = k" using k(2) length_unparsed [OF ok] by simp
  have "take (length got + k) (drop (rcurr c - length got) (rbuf c)) = got @ take k (drop (rcurr c) (rbuf c))"
    using got len by (simp add: take_add)
  then show "reading_body c' h (got @ take k (unparsed c))"
    using rb c' up lk k len by (auto simp: reading_body_def)
  show "unparsed c' = drop k (unparsed c)" using c' k(2) by (simp add: unparsed_def drop_take add.commute)
  show "conn_ok s pad c'" using ok c' k by (simp add: conn_ok_def out_room_def padding_def)
qed (use assms in \<open>auto simp: take_leftovers_def Let_def Option.bind_eq_Some_conv reading_body_def split: if_splits\<close>)

lemma mem_put_append:
  assumes "mem_put buf d src = Some buf'" "l \<le> d"
  shows "take (l + length src) (drop (d - l) buf') = take l (drop (d - l) buf) @ src"
proof -
  note p = mem_putE [OF assms(1)]
  have "take (d + length src) buf' = take d buf @ src" using p(3,4) by (simp add: take_add)
  then have "drop (d - l) (take (d + length src) buf') = drop (d - l) (take d buf) @ src" using p(2) by simp
  then show ?thesis using assms(2) by (simp add: drop_take add.commute)
qed

lemma no_data_ok:
  assumes sock: "sock_ok ops s recvd sent" and inv: "serving s answer pad reqs c (recvd w) (sent w)"
    and r: "no_data ops q c nreqs w = (c', nreqs', stop, w')"
  shows "serving s answer pad reqs c' (recvd w') (sent w') \<and> recvd w' = recvd w"
proof (cases "q = Read_again")
  case True
  obtain b c1 w1 where e: "event_or_close ops c EV_READ_PERSIST w = (b, c1, w1)" by (metis prod_cases3)
  note e_ok = event_or_close_ok [OF sock e]
  obtain g where g: "c1 = (if b then c\<lparr>ev_flags := g\<rparr> else c\<lparr>ev_flags := g, state := conn_closing\<rparr>)" using e_ok(3) by blast
  have "c' = c1" "w' = w1" using r True e by (auto simp: no_data_def split: if_splits bool.splits)
  then show ?thesis using serving_ev_flags [OF inv, of g] serving_closing [OF inv, of c1 g] e_ok(1,2) g by (cases b) simp_all
next
  case False
  then show ?thesis using r serving_closing [OF inv, of c' "ev_flags c"] by (simp add: no_data_def)
qed

text \<open>A connection in the middle of a body.\<close>

lemma serving_nread:
  assumes "conn_ok s pad c" "\<forall>r\<in>set reqs. good_req r" "state c = conn_nread" "write_and_free c = None"
    "replies answer pad reqs = Some snt" "reading_body c h got" "rcv = stream reqs @ h @ got @ unparsed c"
  shows "serving s answer pad reqs c rcv snt"
  using assms by (auto simp: serving_def)

lemma read_body_ok:
  assumes sock: "sock_ok ops s recvd sent" and inv: "serving s answer pad reqs c (recvd w) (sent w)"
    and st: "state c = conn_nread" and nb: "rbytes c = 0" and pos: "0 < rlbytes c"
    and step: "read_body ops c nreqs w = Some (c', nreqs', stop, w')"
  shows "serving s answer pad reqs c' (recvd w') (sent w') \<and> (\<exists>new. recvd w' = recvd w @ new)"
proof -
  obtain h got where rb: "reading_body c h got" and rcv: "recvd w = stream reqs @ h @ got @ unparsed c"
    and base: "conn_ok s pad c" "\<forall>r\<in>set reqs. good_req r" "write_and_free c = None" "replies answer pad reqs = Some (sent w)"
    using inv st by (auto simp: serving_def)
  have item: "ritem c = Some (rcurr c)" and lg: "length got \<le> rcurr c" and room: "int (rcurr c) + rlbytes c \<le> int (length (rbuf c))"
    and got: "take (length got) (drop (rcurr c - length got) (rbuf c)) = got" using rb by (auto simp: reading_body_def)
  have "rlbytes c \<le> INT_MAX" using room base(1) by (simp add: conn_ok_def)
  then have n: "nat (rlbytes c mod 2 ^ 64) = nat (rlbytes c)" using pos by (simp add: INT_MAX_def)
  obtain q w1 where q: "sys_read ops s (nat (rlbytes c)) w = (q, w1)" by (metis prod.exhaust)
  note q_ok = sock_okD(1) [OF sock q]
  have sfd: "sfd c = s" using base(1) by (simp add: conn_ok_def)
  show ?thesis
  proof (cases "\<exists>bs. q = Read_bytes bs")
    case True
    then obtain bs buf where bs: "q = Read_bytes bs" "mem_put (rbuf c) (rcurr c) bs = Some buf" "w' = w1"
      "c' = c\<lparr>rbuf := buf, rcurr := rcurr c + length bs, ritem := Some (rcurr c + length bs), rlbytes := rlbytes c - int (length bs)\<rparr>"
      using step q n item sfd by (auto simp: read_body_def Option.bind_eq_Some_conv)
    have lb: "int (length bs) \<le> rlbytes c" using q_ok bs(1) pos by simp linarith
    have "reading_body c' h (got @ bs)"
      using rb bs(4) lb lg mem_put_append [OF bs(2) lg] got mem_putE(1) [OF bs(2)] by (simp add: reading_body_def)
    moreover have "conn_ok s pad c'" using base(1) bs(4) nb lb room mem_putE(1) [OF bs(2)] by (simp add: conn_ok_def out_room_def padding_def)
    moreover have "unparsed c = []" "unparsed c' = []" using nb bs(4) by (simp_all add: unparsed_def)
    ultimately show ?thesis
      using base bs(3,4) st rcv q_ok bs(1) by (intro conjI serving_nread [where h = h and got = "got @ bs"]) simp_all
  next
    case False
    have same: "recvd w1 = recvd w" "sent w1 = sent w" using q_ok False by (cases q; simp)+
    have nd: "no_data ops q c nreqs w1 = (c', nreqs', stop, w')"
      using step q n item sfd False by (cases q) (auto simp: read_body_def)
    show ?thesis using no_data_ok [OF sock _ nd, of answer pad reqs] by (auto simp: inv same)
  qed
qed

section \<open>The answer\<close>

lemma take_takeWhile: "take n (takeWhile P xs) = takeWhile P (take n xs)"
proof (induction xs arbitrary: n)
  case (Cons x xs)
  then show ?case by (cases n) simp_all
qed simp

lemma take_takeWhile_len: "take (min n (length (takeWhile P xs))) xs = take n (takeWhile P xs)"
  using takeWhile_eq_take [of P xs] by (metis take_take)

lemma request_key_ok:
  assumes "request_key buf (d + 4) n = Some key" "take n (drop d buf) = body" "length body = n" "4 \<le> n" "n < 2 ^ 64"
  shows "key = body_key body"
proof -
  let ?P = "\<lambda>b :: byte. b \<noteq> 0"
  have "nat ((int n - 4) mod 2 ^ 64) = n - 4" using assms(4,5) by (simp add: nat_diff_distrib)
  then have "key = take (n - 4) (takeWhile ?P (drop (d + 4) buf))"
    using assms(1) by (auto simp: request_key_def strlen_at_def Let_def take_takeWhile_len split: if_splits)
  also have "\<dots> = takeWhile ?P (take (n - 4) (drop (d + 4) buf))" by (rule take_takeWhile)
  also have "take (n - 4) (drop (d + 4) buf) = drop 4 (take n (drop d buf))" by (simp add: drop_take add.commute)
  finally show ?thesis using assms(2) by (simp add: body_key_def)
qed

lemma read_le32_take: "4 \<le> length b \<Longrightarrow> read_le32 (take 4 b) = read_le32 b"
  by (cases b rule: read_le32.cases) (auto simp: eval_nat_numeral)

lemma responded_frame:
  assumes "responded c c'"
  shows "sfd c' = sfd c" "rsize c' = rsize c" "rbuf c' = rbuf c" "rcurr c' = rcurr c" "rbytes c' = rbytes c"
    "state c' = conn_mwrite" "length (iov c') = length (iov c)" "length (msglist c') = length (msglist c)"
    "length (wbuf c') = length (wbuf c)" "padding c' = padding c"
proof -
  note r = assms [unfolded responded_def]
  have eq: "c' = c\<lparr>iov := iov c', msglist := msglist c', msgbytes := msgbytes c', iovused := iovused c',
       msgused := msgused c', msgcurr := 0, wbuf := wbuf c', state := conn_mwrite, write_and_go := conn_new_cmd\<rparr>" using r by blast
  show "sfd c' = sfd c" "rsize c' = rsize c" "rbuf c' = rbuf c" "rcurr c' = rcurr c" "rbytes c' = rbytes c" "state c' = conn_mwrite"
    by (subst eq, simp)+
qed (use assms in \<open>simp_all add: responded_def\<close>)

lemma reading_body_length: "reading_body c h got \<Longrightarrow> rlbytes c = 0 \<Longrightarrow> length got = unat (rq_bodylen (binary_header c))"
  unfolding reading_body_def by linarith

lemma complete_nread_ok:
  assumes sock: "sock_ok ops s recvd sent" "mem_avail ops" and ok: "conn_ok s pad c" "write_and_free c = None"
    and rb: "reading_body c h body" "rlbytes c = 0" and size: "4 \<le> length body"
    and r: "complete_nread ops answer c w = Some (c', w')"
  obtains p where "reply answer pad body = Some p" "pending c' = Some p" "out_ok c'" "conn_ok s pad c'" "unparsed c' = unparsed c"
    "state c' = conn_mwrite" "recvd w' = recvd w" "sent w' = sent w"
proof -
  define n where "n = unat (rq_bodylen (binary_header c))"
  have b: "length body = n" "ritem c = Some (rcurr c)" "n \<le> rcurr c" "take n (drop (rcurr c - n) (rbuf c)) = body"
    using rb(1) reading_body_length [OF rb] by (auto simp: reading_body_def n_def [symmetric])
  have n64: "n < 2 ^ 64" using unsigned_less [of "rq_bodylen (binary_header c)", where 'a = nat] by (simp add: n_def)
  have room: "out_room c" "padding c = pad" "rcurr c \<le> length (rbuf c)" using ok by (auto simp: conn_ok_def)
  let ?d = "rcurr c - n"
  have d: "ptr_add (rcurr c) (- int n) = Some ?d" using b(3) by (auto simp: ptr_add_def nat_diff_distrib)
  have nb: "mem_slice (rbuf c) ?d 4 = Some (take 4 body)"
  proof -
    have "take 4 (take n (drop ?d (rbuf c))) = take 4 (drop ?d (rbuf c))" using size b(1) by simp
    then show ?thesis using b size room(3) by (simp add: mem_slice_def)
  qed
  obtain number key ret vRes where num: "read_le32 body = Some number" and key: "request_key (rbuf c) (?d + 4) n = Some key"
    and ans: "answer key = Some (ret, vRes)"
    and res: "(if ret \<noteq> 0 then write_bin_error ops c RESPONSE_ENOMEM 0 w
         else
           let resp = reply_body (reply_number number vRes) vRes
           in if INT_MAX < int (length resp) then None
              else case sys_malloc ops (length resp + 1) w of
                (None, w') \<Rightarrow> write_bin_error ops c RESPONSE_ENOMEM 0 w'
              | (Some _, w') \<Rightarrow>
                  write_bin_response ops (c\<lparr>write_and_free := Some (resp @ [0])\<rparr>) (length resp) w') = Some (c', w')"
    using r b(2) d nb read_le32_take [OF size] unfolding complete_nread_def Let_def n_def [symmetric]
    by (auto simp: Option.bind_eq_Some_conv)
  have key': "answer (body_key body) = Some (ret, vRes)"
    using request_key_ok [OF key b(4) b(1)] size b(1) n64 ans by simp
  note answered = that
  have finish: thesis
    if c: "c1 = c \<or> (\<exists>m. c1 = c\<lparr>write_and_free := Some m\<rparr>)" "responded c1 c'" and p: "reply answer pad body = Some p" "pending c' = Some p"
      and o: "out_ok c'" "recvd w' = recvd w" "sent w' = sent w" for c1 p
    using responded_frame [OF c(2)] c(1) ok room
    by (intro answered [OF p o(1) _ _ _ o(2,3)]) (auto simp: conn_ok_def out_room_def unparsed_def padding_def)
  show ?thesis
  proof (cases "ret = 0")
    case False
    obtain c2 where "write_bin_error ops c RESPONSE_ENOMEM 0 w = Some (c2, w)" "responded c c2" "out_ok c2"
      "pending c2 = Some (header_image 0 (padding c) (length error_reply) @ error_reply)"
      using write_bin_error_ok [OF room(1)] by metis
    then show ?thesis using finish [of c] res False num key' room(2) by (auto simp: reply_def)
  next
    case True
    define resp where "resp = reply_body (reply_number number vRes) vRes"
    obtain m w1 where m: "sys_malloc ops (length resp + 1) w = (Some m, w1)" using mem_availE [OF sock(2)] .
    define d where "d = c\<lparr>write_and_free := Some (resp @ [0])\<rparr>"
    have d_room: "out_room d" "padding d = pad" "write_and_free d = Some (resp @ [0])"
      using room by (simp_all add: d_def out_room_def padding_def)
    obtain c2 where c2: "write_bin_response ops d (length resp) w1 = Some (c2, w1)" "responded d c2" "out_ok c2"
      "pending c2 = Some (header_image 0 (padding d) (length resp) @ take (length resp) (resp @ [0]))"
      using write_bin_response_ok [OF d_room(1,3), of "length resp" ops w1] by auto
    have eq: "c' = c2" "w' = w1"
      using res True m c2(1) by (simp_all add: Let_def resp_def [symmetric] d_def [symmetric] split: if_splits)
    have "reply answer pad body = Some (header_image 0 pad (length resp) @ resp)"
      using num key' True by (simp add: reply_def resp_def Let_def)
    then show ?thesis
      using c2 d_room(2) eq sock_okD(3) [OF sock(1) m] by (intro finish [of d]) (auto simp: d_def)
  qed
qed

lemma serve_body:
  assumes sock: "sock_ok ops s recvd sent" and inv: "serving s answer pad reqs c (recvd w) (sent w)"
    and st: "state c = conn_nread" and more: "rlbytes c \<noteq> 0"
    and step: "step_nread ops answer c nreqs w = Some (c', nreqs', stop, w')"
  shows "serving s answer pad reqs c' (recvd w') (sent w') \<and> (\<exists>new. recvd w' = recvd w @ new)"
proof -
  obtain h got where rb: "reading_body c h got" and rcv: "recvd w = stream reqs @ h @ got @ unparsed c"
    and base: "conn_ok s pad c" "\<forall>r\<in>set reqs. good_req r" "write_and_free c = None" "replies answer pad reqs = Some (sent w)"
    using inv st by (auto simp: serving_def)
  have pos: "0 < rlbytes c" using more rb by (simp add: reading_body_def)
  show ?thesis
  proof (cases "0 < rbytes c")
    case True
    then obtain c1 where c1: "take_leftovers c = Some c1"
      "(if rlbytes c1 = 0 then Some (c1, nreqs, False, w) else read_body ops c1 nreqs w) = Some (c', nreqs', stop, w')"
      using step more by (auto simp: step_nread_def Option.bind_eq_Some_conv)
    define k where "k = nat (min (rlbytes c) (int (rbytes c)))"
    note lo = leftovers_ok [OF base(1) rb c1(1), folded k_def]
    have inv1: "serving s answer pad reqs c1 (recvd w) (sent w)"
      using lo base st rcv by (intro serving_nread [OF lo(3) base(2) _ _ base(4) lo(1)]) simp_all
    show ?thesis
    proof (cases "rlbytes c1 = 0")
      case ne: False
      then have "0 < rlbytes c1" using lo(1) by (simp add: reading_body_def)
      moreover have "rbytes c1 = 0" using lo(6,7) ne pos by (auto simp: k_def min_def split: if_splits)
      ultimately show ?thesis using read_body_ok [OF sock inv1] lo(4) st c1(2) ne by simp
    qed (use inv1 c1(2) in simp)
  next
    case False
    then show ?thesis using read_body_ok [OF sock inv st _ pos] step more by (simp add: step_nread_def)
  qed
qed

lemma serve_nread:
  assumes sock: "sock_ok ops s recvd sent" "mem_avail ops" and inv: "serving s answer pad reqs c (recvd w) (sent w)"
    and st: "state c = conn_nread" and sizes: "sizes_ok (recvd w)"
    and step: "step_nread ops answer c nreqs w = Some (c', nreqs', stop, w')"
  shows "\<exists>new. serving s answer pad (reqs @ new) c' (recvd w') (sent w')"
proof (cases "rlbytes c = 0")
  case True
  obtain h got where rb: "reading_body c h got" and rcv: "recvd w = stream reqs @ h @ got @ unparsed c"
    and base: "conn_ok s pad c" "\<forall>r\<in>set reqs. good_req r" "write_and_free c = None" "replies answer pad reqs = Some (sent w)"
    using inv st by (auto simp: serving_def)
  have good: "good_req (h, got)" using rb reading_body_length [OF rb True] by (auto simp: good_req_def reading_body_def)
  have "sizes_ok (h @ got @ unparsed c)" using sizes_ok_stream [OF base(2)] sizes rcv by simp
  then have size: "4 \<le> length got" using sizes_ok_req(1) [OF good] by blast
  have "complete_nread ops answer c w = Some (c', w')" using step True by (auto simp: step_nread_def Option.bind_eq_Some_conv)
  then obtain p where p: "reply answer pad got = Some p" "pending c' = Some p" "out_ok c'" "conn_ok s pad c'" "unparsed c' = unparsed c"
    "state c' = conn_mwrite" "recvd w' = recvd w" "sent w' = sent w"
    using complete_nread_ok [OF sock base(1,3) rb True size] by metis
  have "replies answer pad (reqs @ [(h, got)]) = Some (sent w @ p)" by (rule replies_snoc [OF base(4) p(1)])
  then have "serving s answer pad (reqs @ [(h, got)]) c' (recvd w') (sent w')"
    using p base(2) good rcv by (simp add: serving_def stream_snoc)
  then show ?thesis by blast
next
  case False
  then show ?thesis using serve_body [OF sock(1) inv st False step] by (intro exI [of _ "[]"]) simp
qed

end
