(* ===== verification/Srv_Protocol.thy ===== *)
theory Srv_Protocol
  imports Srv_Answer
begin

text \<open>
  The protocol of a connection, over whole runs of \<^const>\<open>drive_step\<close>: the reachable connections
  and worlds, the invariant, and what it says of the bytes received and sent.
\<close>

section \<open>Sending\<close>

lemma transmitted_frame:
  assumes "transmitted c c'"
  shows "sfd c' = sfd c" "rsize c' = rsize c" "rbuf c' = rbuf c" "rcurr c' = rcurr c" "rbytes c' = rbytes c"
    "msgused c' = msgused c" "wbuf c' = wbuf c" "write_and_free c' = write_and_free c"
    "length (iov c') = length (iov c)" "length (msglist c') = length (msglist c)"
proof -
  have eq: "c' = c\<lparr>iov := iov c', msglist := msglist c', msgcurr := msgcurr c', ev_flags := ev_flags c', state := state c'\<rparr>"
    using assms unfolding transmitted_def by blast
  show "sfd c' = sfd c" "rsize c' = rsize c" "rbuf c' = rbuf c" "rcurr c' = rcurr c" "rbytes c' = rbytes c"
    "msgused c' = msgused c" "wbuf c' = wbuf c" "write_and_free c' = write_and_free c"
    by (subst eq, simp)+
qed (use assms in \<open>simp_all add: transmitted_def\<close>)

lemma transmitted_conn_ok:
  assumes "conn_ok s pad c" "transmitted c c'"
  shows "conn_ok s pad c'" "unparsed c' = unparsed c"
  using assms(1) transmitted_frame [OF assms(2)] by (simp_all add: conn_ok_def out_room_def padding_def unparsed_def)

text \<open>A connection in the middle of a reply.\<close>

lemma serving_mwrite:
  assumes "conn_ok s pad c" "\<forall>r\<in>set reqs. good_req r" "state c = conn_mwrite" "out_ok c" "pending c = Some p"
    "replies answer pad reqs = Some (snt @ p)" "rcv = stream reqs @ unparsed c"
  shows "serving s answer pad reqs c rcv snt"
  using assms by (auto simp: serving_def)

lemma transmit_complete_ok:
  assumes c: "conn_ok s pad c" "out_ok c" "msgcurr c = msgused c" "state c = conn_mwrite"
    and r: "\<forall>r\<in>set reqs. good_req r" "replies answer pad reqs = Some snt"
  shows "serving s answer pad reqs (transmit_complete c) (stream reqs @ unparsed c) snt"
proof (cases "write_and_free c")
  case None
  then have "transmit_complete c = c\<lparr>state := conn_new_cmd\<rparr>"
    using c(4) by (simp add: transmit_complete_def conn_set_state_def)
  then show ?thesis
    using c(1) r None by (simp add: serving_def conn_ok_def out_room_def padding_def unparsed_def)
next
  case (Some m)
  let ?c = "c\<lparr>write_and_free := None\<rparr>"
  have eq: "transmit_complete c = ?c" using Some c(4) by (simp add: transmit_complete_def)
  have "conn_ok s pad ?c" "out_ok ?c" "unparsed ?c = unparsed c"
    using c(1,2) by (simp_all add: conn_ok_def out_room_def padding_def unparsed_def out_ok_def)
  moreover have "pending ?c = Some []" using c(3) by (simp add: pending_def)
  ultimately show ?thesis
    unfolding eq using c(4) r by (intro serving_mwrite [where p = "[]"]) simp_all
qed

lemma serve_mwrite:
  assumes sock: "sock_ok ops s recvd sent" and inv: "serving s answer pad reqs c (recvd w) (sent w)"
    and st: "state c = conn_mwrite" and step: "step_mwrite ops c nreqs w = Some (c', nreqs', stop, w')"
  shows "serving s answer pad reqs c' (recvd w') (sent w') \<and> recvd w' = recvd w"
proof -
  obtain p where base: "conn_ok s pad c" "\<forall>r\<in>set reqs. good_req r" "out_ok c" "pending c = Some p"
    "replies answer pad reqs = Some (sent w @ p)" "recvd w = stream reqs @ unparsed c"
    using inv st by (auto simp: serving_def)
  have "sfd c = s" using base(1) by (simp add: conn_ok_def)
  then obtain r c1 w1 n where t: "transmit ops c w = Some (r, c1, w1)" "transmitted c c1" "out_ok c1"
    "n \<le> length p" "sent w1 = sent w @ take n p" "pending c1 = Some (drop n p)" "recvd w1 = recvd w"
    "r = TRANSMIT_COMPLETE \<Longrightarrow> p = [] \<and> msgcurr c1 = msgused c" "state c1 = (if r = TRANSMIT_HARD_ERROR then conn_closing else state c)"
    using transmit_ok [of ops c recvd sent p w] sock base(3,4) by metis
  note ok1 = transmitted_conn_ok [OF base(1) t(2)]
  have w': "w' = w1" and c': "c' = (if r = TRANSMIT_COMPLETE then transmit_complete c1 else c1)"
    using step t(1) by (cases r; simp add: step_mwrite_def)+
  have rep: "replies answer pad reqs = Some (sent w1 @ drop n p)" "recvd w1 = stream reqs @ unparsed c1"
    using base(5,6) t(5,7) ok1(2) by simp_all
  consider "r = TRANSMIT_COMPLETE" | "r = TRANSMIT_HARD_ERROR" | "r \<noteq> TRANSMIT_COMPLETE" "r \<noteq> TRANSMIT_HARD_ERROR" by blast
  then show ?thesis
  proof cases
    case 1
    then show ?thesis
      using transmit_complete_ok [OF ok1(1) t(3) _ _ base(2), of answer "sent w1"] t(7-9) st rep w' c' transmitted_frame(6) [OF t(2)]
      by simp
  next
    case 2
    then show ?thesis using ok1 base(2) rep t(7,9) w' c' by (auto simp: serving_def)
  next
    case 3
    then show ?thesis using serving_mwrite [OF ok1(1) base(2) _ t(3,6) rep] t(7,9) st w' c' by simp
  qed
qed

section \<open>Runs\<close>

text \<open>One round in any state.\<close>

lemma serve_step:
  assumes sock: "sock_ok ops s recvd sent" "mem_avail ops" and inv: "serving s answer pad reqs c (recvd w) (sent w)"
    and sizes: "sizes_ok (recvd w)" and step: "drive_step ops answer c nreqs w = Some (c', nreqs', stop, w')"
  shows "\<exists>new. serving s answer pad (reqs @ new) c' (recvd w') (sent w')"
proof (cases "state c")
  case conn_nread
  then show ?thesis using serve_nread [OF sock inv] sizes step by (simp add: drive_step_def)
next
  case conn_waiting
  then show ?thesis
    using serve_waiting [OF sock(1) inv, of nreqs c' nreqs' stop w'] step by (intro exI [of _ "[]"]) (auto simp: drive_step_def)
next
  case conn_read
  then show ?thesis
    using serve_read [OF sock inv, of nreqs c' nreqs' stop w'] step by (intro exI [of _ "[]"]) (auto simp: drive_step_def)
next
  case conn_parse_cmd
  then show ?thesis
    using serve_parse_cmd [OF sock inv _ sizes, of nreqs c' nreqs' stop w'] step by (intro exI [of _ "[]"]) (auto simp: drive_step_def)
next
  case conn_new_cmd
  then show ?thesis
    using serve_new_cmd [OF sock(1) inv, of nreqs c' nreqs' stop w'] step by (intro exI [of _ "[]"]) (auto simp: drive_step_def)
next
  case conn_mwrite
  then show ?thesis
    using serve_mwrite [OF sock(1) inv, of nreqs c' nreqs' stop w'] step by (intro exI [of _ "[]"]) (auto simp: drive_step_def)
qed (use inv step in \<open>auto simp: serving_def drive_step_def\<close>)

text \<open>
  The connections and worlds that a connection reaches. Between its rounds the world may
  change in any way that \<open>env\<close> allows, for instance by the rounds of other connections; the
  value of \<^verbatim>\<open>nreqs\<close> is arbitrary, so that a run may extend over many events. The rounds are
  those before which the client has kept to the sizes that \<^const>\<open>sizes_ok\<close> allows; what a
  larger size does is shown below.
\<close>

inductive conn_run :: "'w sys_ops \<Rightarrow> (bytes \<Rightarrow> (int \<times> bytes list) option) \<Rightarrow> ('w \<Rightarrow> 'w \<Rightarrow> bool) \<Rightarrow> ('w \<Rightarrow> bytes) \<Rightarrow>
    conn \<Rightarrow> 'w \<Rightarrow> conn \<Rightarrow> 'w \<Rightarrow> bool"
  for ops answer env recvd c0 w0 where
  start: "conn_run ops answer env recvd c0 w0 c0 w0"
| others: "conn_run ops answer env recvd c0 w0 c w \<Longrightarrow> env w w' \<Longrightarrow> conn_run ops answer env recvd c0 w0 c w'"
| round: "conn_run ops answer env recvd c0 w0 c w \<Longrightarrow> sizes_ok (recvd w) \<Longrightarrow>
    drive_step ops answer c nreqs w = Some (c', nreqs', stop, w') \<Longrightarrow> conn_run ops answer env recvd c0 w0 c' w'"

definition env_ok :: "('w \<Rightarrow> 'w \<Rightarrow> bool) \<Rightarrow> ('w \<Rightarrow> bytes) \<Rightarrow> ('w \<Rightarrow> bytes) \<Rightarrow> bool" where
  "env_ok env recvd sent \<longleftrightarrow> (\<forall>w w'. env w w' \<longrightarrow> recvd w' = recvd w \<and> sent w' = sent w)"

text \<open>A connection as \<^verbatim>\<open>conn_new\<close> hands it out.\<close>

definition conn_fresh :: "int \<Rightarrow> conn \<Rightarrow> bool" where
  "conn_fresh s c \<longleftrightarrow> state c = conn_new_cmd \<and> conn_ok s (padding c) c \<and> rbytes c = 0 \<and> write_and_free c = None"

lemma serving_fresh: "conn_fresh s c \<Longrightarrow> serving s answer (padding c) [] c [] []"
  by (simp add: conn_fresh_def serving_def stream_def unparsed_def)

lemma conn_run_serving:
  assumes run: "conn_run ops answer env recvd c0 w0 c w"
    and sock: "sock_ok ops s recvd sent" "mem_avail ops" "env_ok env recvd sent"
    and init: "conn_fresh s c0" "recvd w0 = []" "sent w0 = []"
  shows "\<exists>reqs. serving s answer (padding c0) reqs c (recvd w) (sent w)"
  using run
proof (induction rule: conn_run.induct)
  case start
  then show ?case using serving_fresh [OF init(1)] init(2,3) by auto
next
  case (others c w w')
  then show ?case using sock(3) unfolding env_ok_def by metis
next
  case (round c w nreqs c' nreqs' stop w')
  then show ?case using serve_step [OF sock(1,2) _ _ round.hyps(3)] by blast
qed

section \<open>The protocol\<close>

text \<open>What the replies are, whatever has been sent of them; the states a client's connection is in.\<close>

lemma serving_replies:
  assumes "serving s answer pad reqs c rcv snt"
  obtains rest unsent where "\<forall>r\<in>set reqs. good_req r" "rcv = stream reqs @ rest"
    "replies answer pad reqs = Some (snt @ unsent)"
    "state c \<in> {conn_new_cmd, conn_waiting, conn_read, conn_parse_cmd, conn_nread} \<Longrightarrow> unsent = []"
    "state c \<in> {conn_new_cmd, conn_waiting, conn_read, conn_parse_cmd, conn_nread, conn_mwrite, conn_closing}"
  using assms unfolding serving_def by (auto split: if_splits)

end
