(* ===== verification/Srv_Queue.thy ===== *)
theory Srv_Queue
  imports Srv_Conn
begin

text \<open>
  The queues of thread.cpp through which the dispatcher hands new connections to the
  worker threads, and the free list of their items. Items are addresses, and the
  \<^verbatim>\<open>next\<close> fields of all items are one map from addresses to pointers (\<^const>\<open>None\<close> is
  \<^verbatim>\<open>NULL\<close>), so that lists may share or corrupt each other. The laws of a queue and of a
  pool of items are locales, interpreted on the code's lists.
\<close>

section \<open>Lists of items\<close>

record cq_item =
  qi_sfd :: int
  qi_init_state :: conn_states
  qi_event_flags :: int
  qi_read_buffer_size :: int
  qi_transport :: network_transport

type_synonym links = "nat \<Rightarrow> nat option"

text \<open>The items from pointer \<open>p\<close> to pointer \<open>q\<close>.\<close>

primrec chain :: "links \<Rightarrow> nat option \<Rightarrow> nat list \<Rightarrow> nat option \<Rightarrow> bool" where
  "chain nx p [] q \<longleftrightarrow> p = q"
| "chain nx p (x # xs) q \<longleftrightarrow> p = Some x \<and> chain nx (nx x) xs q"

lemma chain_append: "chain nx p (xs @ ys) q \<longleftrightarrow> (\<exists>r. chain nx p xs r \<and> chain nx r ys q)"
  by (induction xs arbitrary: p) auto

lemma chain_cong: "(\<And>x. x \<in> set xs \<Longrightarrow> nx' x = nx x) \<Longrightarrow> chain nx' p xs q = chain nx p xs q"
  by (induction xs arbitrary: p) auto

lemma chain_upd [simp]: "a \<notin> set xs \<Longrightarrow> chain (nx(a := v)) p xs q = chain nx p xs q"
  by (rule chain_cong) auto

lemma chain_None [simp]: "chain nx None xs q \<longleftrightarrow> xs = [] \<and> q = None"
  by (cases xs) auto

section \<open>The connection queue\<close>

record cq =
  cq_head :: "nat option"
  cq_tail :: "nat option"

definition cq_init :: cq where
  "cq_init = \<lparr>cq_head = None, cq_tail = None\<rparr>"

definition cq_pop :: "links \<Rightarrow> cq \<Rightarrow> nat option \<times> cq" where
  "cq_pop nx q =
     (let item = cq_head q
      in (item,
          case item of None \<Rightarrow> q
          | Some i \<Rightarrow> (let q' = q\<lparr>cq_head := nx i\<rparr> in if cq_head q' = None then q'\<lparr>cq_tail := None\<rparr> else q')))"

definition cq_push :: "cq \<Rightarrow> nat \<Rightarrow> links \<Rightarrow> cq \<times> links" where
  "cq_push q item nx =
     (let nx1 = nx(item := None)
      in case cq_tail q of
           None \<Rightarrow> (q\<lparr>cq_head := Some item, cq_tail := Some item\<rparr>, nx1)
         | Some t \<Rightarrow> (q\<lparr>cq_tail := Some item\<rparr>, nx1(t := Some item)))"

definition cq_holds :: "links \<Rightarrow> cq \<Rightarrow> nat list \<Rightarrow> bool" where
  "cq_holds nx q xs \<longleftrightarrow> chain nx (cq_head q) xs None \<and> distinct xs \<and> cq_tail q = (if xs = [] then None else Some (last xs))"

text \<open>
  What the users of a queue rely on: it is first in, first out, and it depends on and changes
  only the links of its own items.
\<close>

locale item_queue =
  fixes holds :: "links \<Rightarrow> 'q \<Rightarrow> nat list \<Rightarrow> bool"
    and push :: "'q \<Rightarrow> nat \<Rightarrow> links \<Rightarrow> 'q \<times> links"
    and pop :: "links \<Rightarrow> 'q \<Rightarrow> nat option \<times> 'q"
  assumes push_holds: "holds nx q xs \<Longrightarrow> a \<notin> set xs \<Longrightarrow> push q a nx = (q', nx') \<Longrightarrow> holds nx' q' (xs @ [a])"
    and push_frame: "holds nx q xs \<Longrightarrow> push q a nx = (q', nx') \<Longrightarrow> b \<noteq> a \<Longrightarrow> b \<notin> set xs \<Longrightarrow> nx' b = nx b"
    and pop_empty: "holds nx q [] \<Longrightarrow> pop nx q = (None, q)"
    and pop_holds: "holds nx q (a # xs) \<Longrightarrow> \<exists>q'. pop nx q = (Some a, q') \<and> holds nx q' xs"
    and holds_cong: "holds nx q xs \<Longrightarrow> (\<And>b. b \<in> set xs \<Longrightarrow> nx' b = nx b) \<Longrightarrow> holds nx' q xs"
begin

text \<open>A push leaves the other queues alone; pops return what was pushed, in order.\<close>

lemma push_other:
  assumes "holds nx q xs" "push q a nx = (q', nx')" "holds nx p ys" "a \<notin> set ys" "set xs \<inter> set ys = {}"
  shows "holds nx' p ys"
  using assms by (intro holds_cong [OF assms(3)] push_frame [OF assms(1,2)]) auto

lemma pop_cases:
  assumes "holds nx q xs" "pop nx q = (r, q')"
  shows "r = (case xs of [] \<Rightarrow> None | a # _ \<Rightarrow> Some a) \<and> holds nx q' (case xs of [] \<Rightarrow> [] | _ # ys \<Rightarrow> ys)"
  using assms pop_empty pop_holds by (cases xs) fastforce+

lemma push_pop:
  assumes "holds nx q xs" "a \<notin> set xs" "push q a nx = (q1, nx1)"
  shows "\<exists>q2. pop nx1 q1 = (Some (hd (xs @ [a])), q2) \<and> holds nx1 q2 (tl (xs @ [a]))"
  using pop_holds [of nx1 q1 "hd (xs @ [a])" "tl (xs @ [a])"] push_holds [OF assms] by simp

end

interpretation cq: item_queue cq_holds cq_push cq_pop
proof
  fix nx nx' q q' xs a b
  assume "cq_holds nx q xs" "cq_push q a nx = (q', nx')" "b \<noteq> a" "b \<notin> set xs"
  then show "nx' b = nx b"
    by (auto simp: cq_push_def cq_holds_def Let_def split: option.splits if_splits)
next
  fix nx nx' q q' xs a
  assume h: "cq_holds nx q xs" "a \<notin> set xs" "cq_push q a nx = (q', nx')"
  show "cq_holds nx' q' (xs @ [a])"
  proof (cases xs rule: rev_cases)
    case Nil
    then show ?thesis using h by (auto simp: cq_push_def cq_holds_def Let_def)
  next
    case (snoc ys t)
    then show ?thesis using h by (auto simp: cq_push_def cq_holds_def Let_def chain_append)
  qed
next
  fix nx q a xs
  assume "cq_holds nx q (a # xs)"
  then show "\<exists>q'. cq_pop nx q = (Some a, q') \<and> cq_holds nx q' xs"
    by (auto simp: cq_pop_def cq_holds_def Let_def)
next
  fix nx nx' q xs
  assume "cq_holds nx q xs" "\<And>b. b \<in> set xs \<Longrightarrow> nx' b = nx b"
  then show "cq_holds nx' q xs" using chain_cong [of xs nx' nx] by (simp add: cq_holds_def)
qed (simp_all add: cq_pop_def cq_holds_def)

section \<open>The free list of items\<close>

definition ITEMS_PER_ALLOC :: nat where "ITEMS_PER_ALLOC = 64"

text \<open>
  \<^verbatim>\<open>cqi_new\<close> in its three parts, between which it does not hold the lock: the first item of the
  free list; linking the items of a new block (all but the first); putting them on the free list.
\<close>

definition cqi_take :: "nat option \<Rightarrow> links \<Rightarrow> nat option \<times> nat option" where
  "cqi_take fl nx = (case fl of None \<Rightarrow> (None, None) | Some i \<Rightarrow> (Some i, nx i))"

definition cqi_link :: "nat \<Rightarrow> links \<Rightarrow> links" where
  "cqi_link item nx = foldl (\<lambda>nx i. nx(item + i - 1 := Some (item + i))) nx [2..<ITEMS_PER_ALLOC]"

definition cqi_publish :: "nat \<Rightarrow> nat option \<Rightarrow> links \<Rightarrow> nat option \<times> links" where
  "cqi_publish item fl nx = (Some (item + 1), nx(item + ITEMS_PER_ALLOC - 1 := fl))"

definition cqi_new :: "nat option \<Rightarrow> nat option \<Rightarrow> links \<Rightarrow> nat option \<times> nat option \<times> links" where
  "cqi_new block fl nx =
     (case cqi_take fl nx of
        (Some i, fl') \<Rightarrow> (Some i, fl', nx)
      | (None, fl') \<Rightarrow>
          (case block of None \<Rightarrow> (None, fl', nx)
           | Some item \<Rightarrow> let (fl2, nx2) = cqi_publish item fl' (cqi_link item nx) in (Some item, fl2, nx2)))"

definition cqi_free :: "nat \<Rightarrow> nat option \<Rightarrow> links \<Rightarrow> nat option \<times> links" where
  "cqi_free item fl nx = (Some item, nx(item := fl))"

definition pool_holds :: "links \<Rightarrow> nat option \<Rightarrow> nat list \<Rightarrow> bool" where
  "pool_holds nx fl xs \<longleftrightarrow> chain nx fl xs None \<and> distinct xs"

text \<open>The laws of a pool: taking and returning items, and adding the items of a block.\<close>

locale item_pool =
  fixes holds :: "links \<Rightarrow> 'p \<Rightarrow> nat list \<Rightarrow> bool"
    and take_item :: "'p \<Rightarrow> links \<Rightarrow> nat option \<times> 'p"
    and free_item :: "nat \<Rightarrow> 'p \<Rightarrow> links \<Rightarrow> 'p \<times> links"
  assumes take_none: "holds nx p [] \<Longrightarrow> \<exists>p'. take_item p nx = (None, p') \<and> holds nx p' []"
    and take_some: "holds nx p (a # xs) \<Longrightarrow> \<exists>p'. take_item p nx = (Some a, p') \<and> holds nx p' xs"
    and free_holds: "holds nx p xs \<Longrightarrow> a \<notin> set xs \<Longrightarrow> free_item a p nx = (p', nx') \<Longrightarrow> holds nx' p' (a # xs)"
    and free_frame: "free_item a p nx = (p', nx') \<Longrightarrow> b \<noteq> a \<Longrightarrow> nx' b = nx b"
    and pool_cong: "holds nx p xs \<Longrightarrow> (\<And>b. b \<in> set xs \<Longrightarrow> nx' b = nx b) \<Longrightarrow> holds nx' p xs"
begin

lemma take_cases:
  assumes "holds nx p xs" "take_item p nx = (r, p')"
  shows "r = (case xs of [] \<Rightarrow> None | a # _ \<Rightarrow> Some a) \<and> holds nx p' (case xs of [] \<Rightarrow> [] | _ # ys \<Rightarrow> ys)"
  using assms take_none take_some by (cases xs) fastforce+

lemma free_take:
  assumes "holds nx p xs" "a \<notin> set xs" "free_item a p nx = (p1, nx1)"
  shows "\<exists>p2. take_item p1 nx1 = (Some a, p2) \<and> holds nx1 p2 xs"
  using take_some [OF free_holds [OF assms]] .

end

interpretation cqi: item_pool pool_holds cqi_take cqi_free
proof
  fix nx nx' p p' xs a
  assume h: "pool_holds nx p xs" "a \<notin> set xs" "cqi_free a p nx = (p', nx')"
  then show "pool_holds nx' p' (a # xs)"
    by (auto simp: pool_holds_def cqi_free_def)
next
  fix nx nx' p xs
  assume "pool_holds nx p xs" "\<And>b. b \<in> set xs \<Longrightarrow> nx' b = nx b"
  then show "pool_holds nx' p xs" using chain_cong [of xs nx' nx] by (simp add: pool_holds_def)
qed (auto simp: pool_holds_def cqi_take_def cqi_free_def)

text \<open>A new block: its links, and what its publication adds to the free list.\<close>

lemma cqi_link_eq:
  "cqi_link item nx = (\<lambda>a. if item + 1 \<le> a \<and> a + 1 < item + ITEMS_PER_ALLOC then Some (a + 1) else nx a)"
proof -
  have "2 \<le> n \<Longrightarrow> foldl (\<lambda>nx i. nx(item + i - 1 := Some (item + i))) nx [2..<n] =
      (\<lambda>a. if item + 1 \<le> a \<and> a + 1 < item + n then Some (a + 1) else nx a)" for n
  proof (induction n rule: nat_induct_at_least)
    case (Suc n)
    then show ?case by (auto simp: fun_eq_iff)
  qed (auto simp: fun_eq_iff)
  from this [of ITEMS_PER_ALLOC] show ?thesis by (simp only: cqi_link_def) (simp add: ITEMS_PER_ALLOC_def)
qed

lemma chain_block:
  assumes "\<And>a. lo \<le> a \<Longrightarrow> a + 1 < lo + n \<Longrightarrow> nx a = Some (a + 1)" "0 < n"
  shows "chain nx (Some lo) [lo..<lo + n] (nx (lo + n - 1))"
  using assms
proof (induction n arbitrary: lo)
  case (Suc n)
  show ?case
  proof (cases n)
    case 0
    then show ?thesis by simp
  next
    case (Suc m)
    have "chain nx (Some (lo + 1)) [lo + 1..<lo + 1 + n] (nx (lo + 1 + n - 1))"
      using Suc.prems Suc by (intro Suc.IH) auto
    moreover have "nx lo = Some (lo + 1)" using Suc.prems Suc by simp
    moreover have "[lo..<lo + Suc n] = lo # [lo + 1..<lo + 1 + n]" by (simp add: upt_conv_Cons)
    ultimately show ?thesis by simp
  qed
qed simp

lemma cqi_publish_holds:
  assumes "pool_holds nx fl xs" "\<And>a. item + 1 \<le> a \<Longrightarrow> a + 1 < item + ITEMS_PER_ALLOC \<Longrightarrow> nx a = Some (a + 1)"
    and "set xs \<inter> {item..<item + ITEMS_PER_ALLOC} = {}" "cqi_publish item fl nx = (fl', nx')"
  shows "pool_holds nx' fl' ([item + 1..<item + ITEMS_PER_ALLOC] @ xs)"
proof -
  let ?e = "item + ITEMS_PER_ALLOC - 1"
  have nx': "nx' = nx(?e := fl)" "fl' = Some (item + 1)" using assms(4) by (auto simp: cqi_publish_def)
  have "chain nx' (Some (item + 1)) [item + 1..<item + 1 + 63] (nx' (item + 1 + 63 - 1))"
    using assms(2) by (intro chain_block) (auto simp: nx' ITEMS_PER_ALLOC_def)
  moreover have "item + 1 + 63 = item + ITEMS_PER_ALLOC" by (simp add: ITEMS_PER_ALLOC_def)
  ultimately have block: "chain nx' fl' [item + 1..<item + ITEMS_PER_ALLOC] fl" by (simp only: nx') simp
  have "?e \<notin> set xs" using assms(3) by (auto simp: ITEMS_PER_ALLOC_def)
  then have "chain nx' fl xs None" using assms(1) by (simp add: nx'(1) pool_holds_def)
  then show ?thesis using block assms(1,3) by (auto simp: pool_holds_def chain_append)
qed

end
