(* ===== verification/Srv_Pool.thy ===== *)
theory Srv_Pool
  imports Srv_Protocol Srv_Queue
begin

text \<open>
  The life of a connection: the free list of connections and \<^verbatim>\<open>conn_new\<close>, \<^verbatim>\<open>conn_free\<close> and
  \<^verbatim>\<open>conn_close\<close> of conn.cpp, the listening connections of network.cpp, and the whole of
  \<^verbatim>\<open>drive_machine\<close> and \<^verbatim>\<open>event_handler\<close> on top of the rounds of a client's connection.
  A connection is owned by the thread that serves it or by the free list, so it is passed by value.
\<close>

section \<open>The free list\<close>

text \<open>\<open>pool_conns\<close> holds the entries in use, the last one first; \<open>pool_array\<close> is false when the array was not allocated.\<close>

record conn_pool =
  pool_array :: bool
  pool_total :: nat
  pool_conns :: "conn list"

definition conn_init :: "'w sys_ops \<Rightarrow> 'w \<Rightarrow> conn_pool \<times> 'w" where
  "conn_init ops w =
     (case sys_malloc ops (200 * 8) w of (mem, w') \<Rightarrow>
        (\<lparr>pool_array = (mem \<noteq> None), pool_total = 200, pool_conns = []\<rparr>, w'))"

definition conn_from_freelist :: "conn_pool \<Rightarrow> conn option \<times> conn_pool" where
  "conn_from_freelist p =
     (case pool_conns p of [] \<Rightarrow> (None, p) | c # cs \<Rightarrow> (Some c, p\<lparr>pool_conns := cs\<rparr>))"

text \<open>As in the code, the result is false for success.\<close>

definition conn_add_to_freelist :: "'w sys_ops \<Rightarrow> conn \<Rightarrow> conn_pool \<Rightarrow> 'w \<Rightarrow> (bool \<times> conn_pool \<times> 'w) option" where
  "conn_add_to_freelist ops c p w =
     (if length (pool_conns p) < pool_total p then
        if pool_array p then Some (False, p\<lparr>pool_conns := c # pool_conns p\<rparr>, w) else None
      else
        let newsize = pool_total p * 2
        in case sys_malloc ops (8 * newsize) w of
             (None, w') \<Rightarrow> Some (True, p, w')
           | (Some _, w') \<Rightarrow> Some (False, p\<lparr>pool_array := True, pool_total := newsize, pool_conns := c # pool_conns p\<rparr>, w'))"

text \<open>\<^verbatim>\<open>conn_free\<close> releases the buffers and the connection.\<close>

definition conn_free :: "conn option \<Rightarrow> conn option" where
  "conn_free c = None"

section \<open>New connections\<close>

text \<open>What \<^verbatim>\<open>calloc\<close> leaves in the fields that \<^verbatim>\<open>conn_new\<close> does not set.\<close>

definition zero_conn :: conn where
  "zero_conn =
     \<lparr>sfd = 0, state = conn_listening, ev_flags = 0, rbuf = [], rcurr = 0, rsize = 0, rbytes = 0, wbuf = [], wcurr = (Wbuf, 0),
      wbytes = 0, write_and_go = conn_listening, write_and_free = None, ritem = None, rlbytes = 0, sbytes = 0, iov = [],
      iovused = 0, msglist = [], msgused = 0, msgcurr = 0, msgbytes = 0, transport = local_transport, request_id = 0,
      request_addr_size = 0, binary_header = \<lparr>rq_magic = 0, rq_opcode = 0, rq_bodylen = 0\<rparr>, cmd = 0, conn_thread = None\<rparr>"

text \<open>
  The four buffers; all are asked for before the first is checked. The size of a connection, which
  contains a structure of libevent, is the argument \<open>csize\<close>.
\<close>

definition conn_alloc :: "'w sys_ops \<Rightarrow> nat \<Rightarrow> nat \<Rightarrow> 'w \<Rightarrow> conn option \<times> 'w" where
  "conn_alloc ops csize read_buffer_size w =
     (case sys_malloc ops csize w of
        (None, w0) \<Rightarrow> (None, w0)
      | (Some _, w0) \<Rightarrow>
         (case sys_malloc ops read_buffer_size w0 of (rb, w1) \<Rightarrow>
            case sys_malloc ops DATA_BUFFER_SIZE w1 of (wb, w2) \<Rightarrow>
              case sys_malloc ops (16 * IOV_LIST_INITIAL) w2 of (v, w3) \<Rightarrow>
                case sys_malloc ops (56 * MSG_LIST_INITIAL) w3 of (m, w4) \<Rightarrow>
                  (if rb = None \<or> wb = None \<or> v = None \<or> m = None then (conn_free (Some zero_conn), w4)
                   else (Some (zero_conn\<lparr>rbuf := the rb, rsize := int read_buffer_size, wbuf := the wb,
                           iov := replicate IOV_LIST_INITIAL None, msglist := replicate MSG_LIST_INITIAL None\<rparr>), w4))))"

definition conn_setup :: "int \<Rightarrow> conn_states \<Rightarrow> int \<Rightarrow> network_transport \<Rightarrow> bool \<Rightarrow> conn \<Rightarrow> conn" where
  "conn_setup s init_state event_flags tr unix c =
     c\<lparr>transport := tr, request_addr_size := (if \<not> unix then 16 else 0), sfd := s, state := init_state, rlbytes := 0, cmd := - 1,
       rbytes := 0, wbytes := 0, wcurr := (Wbuf, 0), rcurr := 0, ritem := None, iovused := 0, msgcurr := 0, msgused := 0,
       write_and_go := init_state, write_and_free := None, ev_flags := event_flags\<rparr>"

text \<open>\<open>None\<close> as the connection is the failure that the code reports by \<^verbatim>\<open>NULL\<close>.\<close>

definition conn_new :: "'w sys_ops \<Rightarrow> nat \<Rightarrow> bool \<Rightarrow> int \<Rightarrow> conn_states \<Rightarrow> int \<Rightarrow> nat \<Rightarrow> network_transport \<Rightarrow> conn_pool \<Rightarrow> 'w \<Rightarrow>
    (conn option \<times> conn_pool \<times> 'w) option" where
  "conn_new ops csize unix s init_state event_flags read_buffer_size tr p w =
     (case (case conn_from_freelist p of
              (Some c, p') \<Rightarrow> (Some c, p', w)
            | (None, p') \<Rightarrow> (case conn_alloc ops csize read_buffer_size w of (c, w') \<Rightarrow> (c, p', w'))) of
        (None, p1, w1) \<Rightarrow> Some (None, p1, w1)
      | (Some c0, p1, w1) \<Rightarrow>
          let c = conn_setup s init_state event_flags tr unix c0
          in case ev_add ops s event_flags w1 of
               (True, w2) \<Rightarrow> Some (Some c, p1, w2)
             | (False, w2) \<Rightarrow> do {
                 (full, p2, w3) \<leftarrow> conn_add_to_freelist ops c p1 w2;
                 Some (if full then conn_free (Some c) else None, p2, w3) })"

section \<open>Listening and closing\<close>

record server =
  sv_pool :: conn_pool
  sv_listen :: "conn list"

fun do_accept_new_conns :: "'w sys_ops \<Rightarrow> int \<Rightarrow> bool \<Rightarrow> conn list \<Rightarrow> 'w \<Rightarrow> conn list \<times> 'w" where
  "do_accept_new_conns ops backlog do_accept [] w = ([], w)"
| "do_accept_new_conns ops backlog do_accept (c # cs) w =
     (case update_event ops c (if do_accept then EV_READ_PERSIST else 0) w of (_, c', w1) \<Rightarrow>
        case sys_listen ops (sfd c') (if do_accept then backlog else 0) w1 of (_, w2) \<Rightarrow>
          case do_accept_new_conns ops backlog do_accept cs w2 of (cs', w3) \<Rightarrow> (c' # cs', w3))"

definition accept_new_conns :: "'w sys_ops \<Rightarrow> int \<Rightarrow> bool \<Rightarrow> server \<Rightarrow> 'w \<Rightarrow> server \<times> 'w" where
  "accept_new_conns ops backlog do_accept sv w =
     (case do_accept_new_conns ops backlog do_accept (sv_listen sv) w of (ls, w') \<Rightarrow> (sv\<lparr>sv_listen := ls\<rparr>, w'))"

definition conn_close :: "'w sys_ops \<Rightarrow> int \<Rightarrow> conn \<Rightarrow> server \<Rightarrow> 'w \<Rightarrow> (server \<times> 'w) option" where
  "conn_close ops backlog c sv w =
     (case ev_del ops (sfd c) w of (_, w1) \<Rightarrow>
        case accept_new_conns ops backlog True sv (sys_close ops (sfd c) w1) of (sv1, w2) \<Rightarrow>
          let c1 = conn_cleanup c
          in if int READ_BUFFER_HIGHWAT < rsize c1 then Some (sv1, w2)
             else do {
               (full, p, w3) \<leftarrow> conn_add_to_freelist ops c1 (sv_pool sv1) w2;
               Some (sv1\<lparr>sv_pool := p\<rparr>, w3) })"

text \<open>
  A round of a listening connection: what is left to do is \<open>None\<close>, or the item of a new
  connection for \<^verbatim>\<open>dispatch_conn_new\<close>; with it the flag \<^verbatim>\<open>stop\<close>.
\<close>

definition step_listening :: "'w sys_ops \<Rightarrow> int \<Rightarrow> int \<Rightarrow> server \<Rightarrow> 'w \<Rightarrow> cq_item option \<times> bool \<times> server \<times> 'w" where
  "step_listening ops backlog s sv w =
     (case sys_accept ops s w of
        (Accept_intr, w1) \<Rightarrow> (None, False, sv, w1)
      | (Accept_again, w1) \<Rightarrow> (None, True, sv, w1)
      | (Accept_emfile, w1) \<Rightarrow> (case accept_new_conns ops backlog False sv w1 of (sv', w2) \<Rightarrow> (None, True, sv', w2))
      | (Accept_error, w1) \<Rightarrow> (None, True, sv, w1)
      | (Accepted n, w1) \<Rightarrow>
          (case sys_nonblock ops n w1 of
             (False, w2) \<Rightarrow> (None, False, sv, sys_close ops n w2)
           | (True, w2) \<Rightarrow>
               (Some \<lparr>qi_sfd = n, qi_init_state = conn_new_cmd, qi_event_flags = EV_READ_PERSIST,
                      qi_read_buffer_size = int DATA_BUFFER_SIZE, qi_transport = tcp_transport\<rparr>, True, sv, w2)))"

section \<open>The machine\<close>

text \<open>
  \<^verbatim>\<open>drive_machine\<close> on the connection of a client: rounds until one stops. The connection is \<open>None\<close>
  when it has been closed. The loop need not end, so its value may be \<^const>\<open>None\<close>.
\<close>

partial_function (option) drive_loop :: "'w sys_ops \<Rightarrow> (bytes \<Rightarrow> (int \<times> bytes list) option) \<Rightarrow> int \<Rightarrow> int \<Rightarrow> conn \<Rightarrow> server \<Rightarrow> 'w \<Rightarrow>
    (conn option \<times> server \<times> 'w) option" where
  "drive_loop ops answer backlog nreqs c sv w =
     (if state c = conn_closing then do {
        (sv', w') \<leftarrow> conn_close ops backlog c sv w;
        Some (None, sv', w') }
      else do {
        (c', nreqs', stop, w') \<leftarrow> drive_step ops answer c nreqs w;
        (if stop then Some (Some c', sv, w') else drive_loop ops answer backlog nreqs' c' sv w') })"

declare drive_loop.simps [code]

definition drive_machine :: "'w sys_ops \<Rightarrow> (bytes \<Rightarrow> (int \<times> bytes list) option) \<Rightarrow> int \<Rightarrow> int \<Rightarrow> conn \<Rightarrow> server \<Rightarrow> 'w \<Rightarrow>
    (conn option \<times> server \<times> 'w) option" where
  "drive_machine ops answer backlog reqs_per_event c sv w = drive_loop ops answer backlog reqs_per_event c sv w"

text \<open>The same loop on a listening connection.\<close>

partial_function (option) listen_loop :: "'w sys_ops \<Rightarrow> int \<Rightarrow> int \<Rightarrow> server \<Rightarrow> 'w \<Rightarrow> (cq_item option \<times> server \<times> 'w) option" where
  "listen_loop ops backlog s sv w =
     (case step_listening ops backlog s sv w of (r, stop, sv', w') \<Rightarrow>
        if stop then Some (r, sv', w') else listen_loop ops backlog s sv' w')"

declare listen_loop.simps [code]

definition event_handler :: "'w sys_ops \<Rightarrow> (bytes \<Rightarrow> (int \<times> bytes list) option) \<Rightarrow> int \<Rightarrow> int \<Rightarrow> int \<Rightarrow> conn \<Rightarrow> server \<Rightarrow> 'w \<Rightarrow>
    (conn option \<times> server \<times> 'w) option" where
  "event_handler ops answer backlog reqs_per_event fd c sv w =
     (if fd \<noteq> sfd c then do {
        (sv', w') \<leftarrow> conn_close ops backlog c sv w;
        Some (None, sv', w') }
      else drive_machine ops answer backlog reqs_per_event c sv w)"

text \<open>What a worker does with an item: a connection, or the socket is closed.\<close>

definition serve_item :: "'w sys_ops \<Rightarrow> nat \<Rightarrow> bool \<Rightarrow> nat \<Rightarrow> cq_item \<Rightarrow> conn_pool \<Rightarrow> 'w \<Rightarrow> (conn option \<times> conn_pool \<times> 'w) option" where
  "serve_item ops csize unix me item p w = do {
     (c, p', w') \<leftarrow> conn_new ops csize unix (qi_sfd item) (qi_init_state item) (qi_event_flags item) (nat (qi_read_buffer_size item))
        (qi_transport item) p w;
     Some (case c of
         None \<Rightarrow> (None, p', sys_close ops (qi_sfd item) w')
       | Some c \<Rightarrow> (Some (c\<lparr>conn_thread := Some me\<rparr>), p', w')) }"

end
