(* ===== verification/Srv_Props.thy ===== *)
theory Srv_Props
  imports Srv_Protocol "HOL-Library.Code_Target_Nat"
begin

text \<open>
  The properties of a connection, with witnesses on a scripted client: its bytes arrive in the
  chunks of a list and the socket takes a few bytes at a time.
\<close>

section \<open>A scripted client\<close>

record script =
  scr_in :: "bytes list"
  scr_recvd :: bytes
  scr_sent :: bytes

definition script_read :: "nat \<Rightarrow> script \<Rightarrow> io_read \<times> script" where
  "script_read n w =
     (case scr_in w of
        [] \<Rightarrow> (Read_again, w)
      | b # bs \<Rightarrow>
          let d = take n b
          in if d = [] then (Read_again, w)
             else (Read_bytes d, w\<lparr>scr_in := (if length b \<le> n then bs else drop n b # bs), scr_recvd := scr_recvd w @ d\<rparr>))"

definition script_ops :: "script sys_ops" where
  "script_ops =
     \<lparr>sys_malloc = (\<lambda>n w. (Some (replicate n 0), w)), sys_read = (\<lambda>s. script_read),
      sys_sendmsg = (\<lambda>s bs w. (Sent (min 12 (length bs)), w\<lparr>scr_sent := scr_sent w @ take 12 bs\<rparr>)),
      sys_accept = (\<lambda>s w. (Accept_again, w)), sys_nonblock = (\<lambda>s w. (True, w)),
      sys_listen = (\<lambda>s n w. (True, w)), sys_close = (\<lambda>s w. w),
      ev_add = (\<lambda>s f w. (True, w)), ev_del = (\<lambda>s w. (True, w))\<rparr>"

lemma script_ok: "sock_ok script_ops s scr_recvd scr_sent" "mem_avail script_ops" "env_ok (=) scr_recvd scr_sent"
  by (auto simp: sock_ok_def sock_read_ok_def sock_send_ok_def quiet_ok_def mem_avail_def env_ok_def script_ops_def
      script_read_def Let_def min_def split: list.splits if_splits)

definition script_conn :: conn where
  "script_conn =
     \<lparr>sfd = 7, state = conn_new_cmd, ev_flags = EV_READ_PERSIST, rbuf = replicate 8 0, rcurr = 0, rsize = 8, rbytes = 0,
      wbuf = replicate 8 0, wcurr = (Wbuf, 0), wbytes = 0, write_and_go = conn_new_cmd, write_and_free = None, ritem = None,
      rlbytes = 0, sbytes = 0, iov = replicate 4 None, iovused = 0, msglist = replicate 2 None, msgused = 0, msgcurr = 0,
      msgbytes = 0, transport = tcp_transport, request_id = 0, request_addr_size = 0,
      binary_header = \<lparr>rq_magic = 0, rq_opcode = 0, rq_bodylen = 0\<rparr>, cmd = - 1, conn_thread = None\<rparr>"

text \<open>The rounds of a run, as long as its worlds pass a check.\<close>

fun rounds :: "'w sys_ops \<Rightarrow> (bytes \<Rightarrow> (int \<times> bytes list) option) \<Rightarrow> ('w \<Rightarrow> bool) \<Rightarrow> nat \<Rightarrow> conn \<Rightarrow> 'w \<Rightarrow> (conn \<times> 'w) option" where
  "rounds ops answer ok 0 c w = Some (c, w)"
| "rounds ops answer ok (Suc n) c w =
     (if ok w then
        case drive_step ops answer c 20 w of None \<Rightarrow> None
        | Some (c', _, _, w') \<Rightarrow> rounds ops answer ok n c' w'
      else None)"

lemma rounds_run:
  assumes "\<And>w. ok w \<Longrightarrow> sizes_ok (recvd w)"
  shows "rounds ops answer ok n c w = Some (c', w') \<Longrightarrow> conn_run ops answer env recvd c0 w0 c w \<Longrightarrow>
    conn_run ops answer env recvd c0 w0 c' w'"
proof (induction n arbitrary: c w)
  case (Suc n)
  then obtain c1 n1 b1 w1 where "drive_step ops answer c 20 w = Some (c1, n1, b1, w1)" "ok w"
    "rounds ops answer ok n c1 w1 = Some (c', w')"
    by (auto split: if_splits option.splits)
  then show ?case using Suc.IH conn_run.round [OF Suc.prems(2)] assms by blast
qed simp

text \<open>A request of two results for the key \<open>k\<close>, and the start of another.\<close>

definition script_world :: script where
  "script_world = \<lparr>scr_in = [[0x80, 0, 0, 0, 0, 0, 0, 6, 0, 0, 0, 0, 107, 0, 0x80]], scr_recvd = [], scr_sent = []\<rparr>"

definition script_good :: "script \<Rightarrow> bool" where
  "script_good w \<longleftrightarrow> scr_recvd w = [] \<or> scr_recvd w = [0x80, 0, 0, 0, 0, 0, 0, 6, 0, 0, 0, 0, 107, 0, 0x80]"

definition script_answer :: "bytes \<Rightarrow> (int \<times> bytes list) option" where
  "script_answer key = Some (0, [key, key @ [97]])"

definition script_conn1 :: conn where
  "script_conn1 =
     \<lparr>sfd = 7, state = conn_nread, ev_flags = 18, rbuf = [128, 0, 0, 0, 0, 0, 0, 6, 0, 0, 0, 0, 107, 0, 128,
     0], rcurr = 8, rsize = 16, rbytes = 7, wbuf = [0, 0, 0, 0, 0, 0, 0, 0], wcurr = (Wbuf, 0), wbytes = 0,
     write_and_go = conn_new_cmd, write_and_free = None, ritem = Some 8, rlbytes = 6, sbytes = 0, iov = [None, None,
     None, None], iovused = 0, msglist = [Some \<lparr>msg_iov = 0, msg_iovlen = 0, msg_namelen = 0\<rparr>, None],
     msgused = 1, msgcurr = 0, msgbytes = 0, transport = tcp_transport, request_id = 0, request_addr_size = 0,
     binary_header = \<lparr>rq_magic = 128, rq_opcode = 0, rq_bodylen = 6\<rparr>, cmd = 0, conn_thread =
     None\<rparr>"

definition script_world1 :: script where
  "script_world1 =
     \<lparr>scr_in = [], scr_recvd = [128, 0, 0, 0, 0, 0, 0, 6, 0, 0, 0, 0, 107, 0, 128], scr_sent = []\<rparr>"

definition script_conn2 :: conn where
  "script_conn2 =
     \<lparr>sfd = 7, state = conn_mwrite, ev_flags = 18, rbuf = [128, 0, 0, 0, 0, 0, 0, 6, 0, 0, 0, 0, 107, 0, 128,
     0], rcurr = 14, rsize = 16, rbytes = 1, wbuf = [129, 0, 0, 0, 0, 0, 0, 15], wcurr = (Wbuf, 0), wbytes = 0,
     write_and_go = conn_new_cmd, write_and_free = Some [2, 0, 0, 0, 1, 0, 0, 0, 107, 2, 0, 0, 0, 107, 97, 0], ritem =
     Some 14, rlbytes = 0, sbytes = 0, iov = [Some \<lparr>iov_base = (Wbuf, 0), iov_len = 8\<rparr>, Some
     \<lparr>iov_base = (Resp, 0), iov_len = 15\<rparr>, None, None], iovused = 2, msglist = [Some \<lparr>msg_iov =
     0, msg_iovlen = 2, msg_namelen = 0\<rparr>, None], msgused = 1, msgcurr = 0, msgbytes = 23, transport =
     tcp_transport, request_id = 0, request_addr_size = 0, binary_header = \<lparr>rq_magic = 128, rq_opcode = 0,
     rq_bodylen = 6\<rparr>, cmd = 0, conn_thread = None\<rparr>"

definition script_world2 :: script where
  "script_world2 =
     \<lparr>scr_in = [], scr_recvd = [128, 0, 0, 0, 0, 0, 0, 6, 0, 0, 0, 0, 107, 0, 128], scr_sent = []\<rparr>"

definition script_conn3 :: conn where
  "script_conn3 =
     \<lparr>sfd = 7, state = conn_new_cmd, ev_flags = 18, rbuf = [128, 0, 0, 0, 0, 0, 0, 6, 0, 0, 0, 0, 107, 0, 128,
     0], rcurr = 14, rsize = 16, rbytes = 1, wbuf = [129, 0, 0, 0, 0, 0, 0, 15], wcurr = (Wbuf, 0), wbytes = 0,
     write_and_go = conn_new_cmd, write_and_free = None, ritem = Some 14, rlbytes = 0, sbytes = 0, iov = [Some
     \<lparr>iov_base = (Wbuf, 0), iov_len = 8\<rparr>, Some \<lparr>iov_base = (Resp, 4), iov_len = 11\<rparr>, None,
     None], iovused = 2, msglist = [Some \<lparr>msg_iov = 2, msg_iovlen = 0, msg_namelen = 0\<rparr>, None], msgused
     = 1, msgcurr = 1, msgbytes = 23, transport = tcp_transport, request_id = 0, request_addr_size = 0, binary_header
     = \<lparr>rq_magic = 128, rq_opcode = 0, rq_bodylen = 6\<rparr>, cmd = 0, conn_thread = None\<rparr>"

definition script_world3 :: script where
  "script_world3 =
     \<lparr>scr_in = [], scr_recvd = [128, 0, 0, 0, 0, 0, 0, 6, 0, 0, 0, 0, 107, 0, 128], scr_sent = [129, 0, 0, 0,
     0, 0, 0, 15, 2, 0, 0, 0, 1, 0, 0, 0, 107, 2, 0, 0, 0, 107, 97]\<rparr>"

lemma script_rounds1: "rounds script_ops script_answer script_good 4 script_conn script_world = Some (script_conn1, script_world1)"
  unfolding script_conn1_def script_world1_def by code_simp

lemma script_rounds2: "rounds script_ops script_answer script_good 2 script_conn1 script_world1 = Some (script_conn2, script_world2)"
  unfolding script_conn2_def script_world2_def by code_simp

lemma script_rounds3: "rounds script_ops script_answer script_good 4 script_conn2 script_world2 = Some (script_conn3, script_world3)"
  unfolding script_conn3_def script_world3_def by code_simp

lemma script_fresh: "conn_fresh 7 script_conn" "scr_recvd script_world = []" "scr_sent script_world = []"
  by (simp_all add: conn_fresh_def conn_ok_def out_room_def script_conn_def script_world_def INT_MAX_def sizeof_header_def)

lemma script_good_sizes: "script_good w \<Longrightarrow> sizes_ok (scr_recvd w)"
proof -
  have "sizes_ok []" "sizes_ok [0x80, 0, 0, 0, 0, 0, 0, 6, 0, 0, 0, 0, 107, 0, 0x80]" by code_simp+
  then show "script_good w \<Longrightarrow> sizes_ok (scr_recvd w)" by (auto simp: script_good_def)
qed

lemma script_run: "conn_run script_ops script_answer (=) scr_recvd script_conn script_world script_conn3 script_world3"
proof -
  have go: "rounds script_ops script_answer script_good n c w = Some (c', w') \<Longrightarrow>
      conn_run script_ops script_answer (=) scr_recvd script_conn script_world c w \<Longrightarrow>
      conn_run script_ops script_answer (=) scr_recvd script_conn script_world c' w'" for n c w c' w'
    using rounds_run [of script_good scr_recvd] script_good_sizes by blast
  show ?thesis by (rule go [OF script_rounds3 go [OF script_rounds2 go [OF script_rounds1 conn_run.start]]])
qed

lemma script_padding: "padding script_conn = [0, 0]"
  by code_simp

section \<open>Properties\<close>

text \<open>C5: whatever the boundaries of the reads and writes, the bytes a connection has received are
  whole requests and a part of the next, and the bytes it has sent are a prefix of the
  replies to them, in order; all of them are sent unless it is writing or closing.\<close>

theorem conn_protocol:
  assumes "sock_ok ops s recvd sent" "mem_avail ops" "env_ok env recvd sent"
    and "conn_fresh s c0" "recvd w0 = []" "sent w0 = []"
    and "conn_run ops answer env recvd c0 w0 c w"
  shows "\<exists>reqs rest unsent. (\<forall>r\<in>set reqs. good_req r) \<and> recvd w = stream reqs @ rest \<and>
    replies answer (padding c0) reqs = Some (sent w @ unsent) \<and>
    (state c \<in> {conn_new_cmd, conn_waiting, conn_read, conn_parse_cmd, conn_nread} \<longrightarrow> unsent = [])"
proof -
  obtain reqs where "serving s answer (padding c0) reqs c (recvd w) (sent w)"
    using conn_run_serving [OF assms(7,1-6)] by blast
  then show ?thesis by (rule serving_replies) blast
qed

lemma conn_protocol_witness:
  "\<exists>reqs rest unsent. (\<forall>r\<in>set reqs. good_req r) \<and> [0x80, 0, 0, 0, 0, 0, 0, 6, 0, 0, 0, 0, 107, 0, 0x80] = stream reqs @ rest \<and>
    replies script_answer [0, 0] reqs = Some ([129, 0, 0, 0, 0, 0, 0, 15, 2, 0, 0, 0, 1, 0, 0, 0, 107, 2, 0, 0, 0, 107, 97] @ unsent) \<and> unsent = []"
  using conn_protocol [OF script_ok script_fresh script_run]
  by (simp add: script_conn3_def script_world3_def script_padding)

text \<open>A connection of a client is never in the states \<^verbatim>\<open>conn_swallow\<close> and
  \<^verbatim>\<open>conn_write\<close> when no allocation fails, though the code sets \<^verbatim>\<open>write_and_go\<close>.\<close>

theorem conn_states_reached:
  assumes "sock_ok ops s recvd sent" "mem_avail ops" "env_ok env recvd sent"
    and "conn_fresh s c0" "recvd w0 = []" "sent w0 = []"
    and "conn_run ops answer env recvd c0 w0 c w"
  shows "state c \<notin> {conn_listening, conn_write, conn_swallow, conn_max_state}"
proof -
  obtain reqs where "serving s answer (padding c0) reqs c (recvd w) (sent w)"
    using conn_run_serving [OF assms(7,1-6)] by blast
  then show ?thesis by (rule serving_replies) auto
qed

lemma conn_states_reached_witness: "state script_conn3 \<notin> {conn_listening, conn_write, conn_swallow, conn_max_state}"
  by (rule conn_states_reached [OF script_ok script_fresh script_run])

end
