(* ===== verification/Srv_Thread.thy ===== *)
theory Srv_Thread
  imports Srv_Queue
begin

text \<open>
  The dispatcher and the worker threads of thread.cpp: the state they share, the steps each of
  them takes between two lock operations, and their interleavings. A worker is woken by the bytes
  in its pipe. \<open>ds_log\<close> and \<open>w_served\<close> record the connections accepted and the arguments of the
  calls of \<^verbatim>\<open>conn_new\<close>; no step reads them.
\<close>

section \<open>State\<close>

datatype worker_pc = W_idle | W_have nat | W_done nat

record worker =
  w_queue :: cq
  w_notify :: nat
  w_pc :: worker_pc
  w_served :: "cq_item list"

text \<open>The dispatcher in \<^verbatim>\<open>dispatch_conn_new\<close>: no item free, a block linked, an item at hand.\<close>

datatype dispatcher_pc = D_idle | D_alloc cq_item | D_publish nat cq_item | D_have nat cq_item

record dispatch =
  ds_next :: links
  ds_data :: "nat \<Rightarrow> cq_item"
  ds_free :: "nat option"
  ds_owned :: "nat set"
  ds_workers :: "worker list"
  ds_last :: int
  ds_pc :: dispatcher_pc
  ds_log :: "cq_item list"
  ds_lost :: nat

definition setup_worker :: worker where
  "setup_worker = \<lparr>w_queue = cq_init, w_notify = 0, w_pc = W_idle, w_served = []\<rparr>"

definition thread_init :: "nat \<Rightarrow> links \<Rightarrow> (nat \<Rightarrow> cq_item) \<Rightarrow> dispatch" where
  "thread_init nthreads nx data =
     \<lparr>ds_next = nx, ds_data = data, ds_free = None, ds_owned = {}, ds_workers = replicate nthreads setup_worker,
      ds_last = - 1, ds_pc = D_idle, ds_log = [], ds_lost = 0\<rparr>"

section \<open>Steps\<close>

text \<open>\<^verbatim>\<open>dispatch_conn_new\<close> is called; \<^verbatim>\<open>cqi_new\<close> looks at the free list.\<close>

definition d_request :: "cq_item \<Rightarrow> dispatch \<Rightarrow> dispatch" where
  "d_request c d =
     (case cqi_take (ds_free d) (ds_next d) of
        (Some i, fl) \<Rightarrow> d\<lparr>ds_free := fl, ds_pc := D_have i c, ds_log := ds_log d @ [c]\<rparr>
      | (None, fl) \<Rightarrow> d\<lparr>ds_free := fl, ds_pc := D_alloc c, ds_log := ds_log d @ [c]\<rparr>)"

definition d_link :: "nat \<Rightarrow> cq_item \<Rightarrow> dispatch \<Rightarrow> dispatch" where
  "d_link item c d =
     d\<lparr>ds_next := cqi_link item (ds_next d), ds_owned := ds_owned d \<union> {item..<item + ITEMS_PER_ALLOC}, ds_pc := D_publish item c\<rparr>"

definition d_publish :: "nat \<Rightarrow> cq_item \<Rightarrow> dispatch \<Rightarrow> dispatch" where
  "d_publish item c d =
     (let (fl, nx) = cqi_publish item (ds_free d) (ds_next d) in d\<lparr>ds_free := fl, ds_next := nx, ds_pc := D_have item c\<rparr>)"

text \<open>
  The rest of \<^verbatim>\<open>dispatch_conn_new\<close>: the next thread in turn, the fields of the item, the push and the
  byte in the pipe. A failed \<^verbatim>\<open>write\<close> is only logged.
\<close>

definition d_push :: "bool \<Rightarrow> nat \<Rightarrow> cq_item \<Rightarrow> dispatch \<Rightarrow> dispatch" where
  "d_push written item c d =
     (let tid = (ds_last d + 1) mod int (length (ds_workers d));
          wk = ds_workers d ! nat tid;
          (q, nx) = cq_push (w_queue wk) item (ds_next d);
          wk' = wk\<lparr>w_queue := q, w_notify := (if written then w_notify wk + 1 else w_notify wk)\<rparr>
      in d\<lparr>ds_next := nx, ds_data := (ds_data d)(item := c), ds_workers := (ds_workers d)[nat tid := wk'], ds_last := tid,
           ds_pc := D_idle, ds_lost := (if written then ds_lost d else ds_lost d + 1)\<rparr>)"

text \<open>\<^verbatim>\<open>thread_libevent_process\<close>: the byte is read and an item popped; \<^verbatim>\<open>conn_new\<close>; \<^verbatim>\<open>cqi_free\<close>.\<close>

definition w_pop :: "nat \<Rightarrow> dispatch \<Rightarrow> dispatch" where
  "w_pop t d =
     (let wk = ds_workers d ! t; (item, q) = cq_pop (ds_next d) (w_queue wk)
      in d\<lparr>ds_workers := (ds_workers d)[t := wk\<lparr>w_queue := q, w_notify := w_notify wk - 1,
              w_pc := (case item of None \<Rightarrow> W_idle | Some i \<Rightarrow> W_have i)\<rparr>]\<rparr>)"

definition w_serve :: "nat \<Rightarrow> nat \<Rightarrow> dispatch \<Rightarrow> dispatch" where
  "w_serve t i d =
     (let wk = ds_workers d ! t
      in d\<lparr>ds_workers := (ds_workers d)[t := wk\<lparr>w_served := w_served wk @ [ds_data d i], w_pc := W_done i\<rparr>]\<rparr>)"

definition w_release :: "nat \<Rightarrow> nat \<Rightarrow> dispatch \<Rightarrow> dispatch" where
  "w_release t i d =
     (let wk = ds_workers d ! t; (fl, nx) = cqi_free i (ds_free d) (ds_next d)
      in d\<lparr>ds_free := fl, ds_next := nx, ds_workers := (ds_workers d)[t := wk\<lparr>w_pc := W_idle\<rparr>]\<rparr>)"

inductive thread_step :: "dispatch \<Rightarrow> dispatch \<Rightarrow> bool" where
  request: "ds_pc d = D_idle \<Longrightarrow> thread_step d (d_request c d)"
| alloc: "ds_pc d = D_alloc c \<Longrightarrow> {item..<item + ITEMS_PER_ALLOC} \<inter> ds_owned d = {} \<Longrightarrow> thread_step d (d_link item c d)"
| publish: "ds_pc d = D_publish item c \<Longrightarrow> thread_step d (d_publish item c d)"
| push: "ds_pc d = D_have item c \<Longrightarrow> thread_step d (d_push written item c d)"
| wake: "t < length (ds_workers d) \<Longrightarrow> 0 < w_notify (ds_workers d ! t) \<Longrightarrow> w_pc (ds_workers d ! t) = W_idle \<Longrightarrow>
    thread_step d (w_pop t d)"
| serve: "t < length (ds_workers d) \<Longrightarrow> w_pc (ds_workers d ! t) = W_have i \<Longrightarrow> thread_step d (w_serve t i d)"
| release: "t < length (ds_workers d) \<Longrightarrow> w_pc (ds_workers d ! t) = W_done i \<Longrightarrow> thread_step d (w_release t i d)"

inductive_cases thread_stepE: "thread_step d d'"

section \<open>What belongs to whom\<close>

text \<open>Every \<open>n\<close>-th element, from the \<open>t\<close>-th.\<close>

definition picks :: "nat \<Rightarrow> nat \<Rightarrow> 'a list \<Rightarrow> 'a list" where
  "picks n t xs = map ((!) xs) (filter (\<lambda>k. k mod n = t) [0..<length xs])"

lemma picks_Nil [simp]: "picks n t [] = []"
  by (simp add: picks_def)

lemma picks_snoc: "picks n t (xs @ [x]) = picks n t xs @ (if length xs mod n = t then [x] else [])"
proof -
  have "map ((!) (xs @ [x])) (filter (\<lambda>k. k mod n = t) [0..<length xs]) = picks n t xs"
    unfolding picks_def by (rule map_cong) (auto simp: nth_append)
  then show ?thesis by (simp add: picks_def)
qed

text \<open>The items outside the lists, and the requests not yet pushed.\<close>

fun d_items :: "dispatcher_pc \<Rightarrow> nat set" where
  "d_items (D_publish i c) = {i..<i + ITEMS_PER_ALLOC}"
| "d_items (D_have i c) = {i}"
| "d_items _ = {}"

fun w_items :: "worker_pc \<Rightarrow> nat set" where
  "w_items (W_have i) = {i}"
| "w_items (W_done i) = {i}"
| "w_items W_idle = {}"

fun d_pending :: "dispatcher_pc \<Rightarrow> cq_item list" where
  "d_pending D_idle = []"
| "d_pending (D_alloc c) = [c]"
| "d_pending (D_publish i c) = [c]"
| "d_pending (D_have i c) = [c]"

fun w_pending :: "(nat \<Rightarrow> cq_item) \<Rightarrow> worker_pc \<Rightarrow> cq_item list" where
  "w_pending data (W_have i) = [data i]"
| "w_pending data _ = []"

text \<open>One owner for every item.\<close>

datatype party = P_free | P_dispatcher | P_queue nat | P_thread nat

fun owns :: "nat list \<Rightarrow> nat list list \<Rightarrow> dispatch \<Rightarrow> party \<Rightarrow> nat set" where
  "owns free qs d P_free = set free"
| "owns free qs d P_dispatcher = d_items (ds_pc d)"
| "owns free qs d (P_queue t) = (if t < length qs then set (qs ! t) else {})"
| "owns free qs d (P_thread t) = (if t < length (ds_workers d) then w_items (w_pc (ds_workers d ! t)) else {})"

definition own_ok :: "nat list \<Rightarrow> nat list list \<Rightarrow> dispatch \<Rightarrow> bool" where
  "own_ok free qs d \<longleftrightarrow>
     (\<forall>x p q. x \<in> owns free qs d p \<longrightarrow> x \<in> owns free qs d q \<longrightarrow> p = q) \<and> (\<forall>p. owns free qs d p \<subseteq> ds_owned d)"

text \<open>Items that go from \<open>A\<close> to \<open>B\<close>.\<close>

lemma own_move:
  assumes ok: "own_ok free qs d" and x: "X \<subseteq> owns free qs d A"
    and kept: "\<And>p. p \<noteq> B \<Longrightarrow> owns free' qs' d' p \<subseteq> owns free qs d p" "owns free' qs' d' B \<subseteq> owns free qs d B \<union> X"
    and gone: "A \<noteq> B \<Longrightarrow> owns free' qs' d' A \<inter> X = {}" and owned: "ds_owned d \<subseteq> ds_owned d'"
  shows "own_ok free' qs' d'"
proof -
  have one: "x \<in> owns free qs d p \<Longrightarrow> x \<in> owns free qs d q \<Longrightarrow> p = q" and sub: "owns free qs d p \<subseteq> ds_owned d" for x p q
    using ok by (auto simp: own_ok_def)
  have B: "p = B" if "x \<in> X" "x \<in> owns free' qs' d' p" for x p
    using that one x kept(1) gone by (cases "p = B") blast+
  have "p = q" if "x \<in> owns free' qs' d' p" "x \<in> owns free' qs' d' q" for x p q
  proof (cases "x \<in> X")
    case True
    then show ?thesis using B that by metis
  next
    case False
    then have "x \<in> owns free qs d p" "x \<in> owns free qs d q"
      using that kept by (cases "p = B"; cases "q = B"; blast)+
    then show ?thesis by (rule one)
  qed
  moreover have "owns free' qs' d' p \<subseteq> ds_owned d'" for p
    using kept(1) [of p] kept(2) x sub owned by (cases "p = B") blast+
  ultimately show ?thesis unfolding own_ok_def by blast
qed

section \<open>The invariant\<close>

text \<open>
  The lists hold what they own; the connections with number \<open>t\<close> modulo the number of threads are,
  in order, those that thread \<open>t\<close> has served, the one it has at hand and those in its queue;
  unless a byte was lost, a thread with a queue will be woken.
\<close>

definition lists_ok :: "nat list \<Rightarrow> nat list list \<Rightarrow> dispatch \<Rightarrow> bool" where
  "lists_ok free qs d \<longleftrightarrow> length qs = length (ds_workers d) \<and> own_ok free qs d \<and> pool_holds (ds_next d) (ds_free d) free \<and>
     (\<forall>t<length qs. cq_holds (ds_next d) (w_queue (ds_workers d ! t)) (qs ! t)) \<and>
     (\<forall>item c a. ds_pc d = D_publish item c \<longrightarrow> item + 1 \<le> a \<longrightarrow> a + 1 < item + ITEMS_PER_ALLOC \<longrightarrow> ds_next d a = Some (a + 1))"

definition turns_ok :: "nat list list \<Rightarrow> dispatch \<Rightarrow> bool" where
  "turns_ok qs d \<longleftrightarrow> (\<exists>pushed. ds_log d = pushed @ d_pending (ds_pc d) \<and> 0 < length (ds_workers d) \<and>
     (ds_last d + 1) mod int (length (ds_workers d)) = int (length pushed mod length (ds_workers d)) \<and>
     (\<forall>t<length (ds_workers d). let wk = ds_workers d ! t in
        w_served wk @ w_pending (ds_data d) (w_pc wk) @ map (ds_data d) (qs ! t) = picks (length (ds_workers d)) t pushed \<and>
        length (qs ! t) \<le> w_notify wk + ds_lost d))"

definition thread_inv :: "dispatch \<Rightarrow> bool" where
  "thread_inv d \<longleftrightarrow> (\<exists>free qs. lists_ok free qs d \<and> turns_ok qs d)"

lemma thread_inv_init: "0 < n \<Longrightarrow> thread_inv (thread_init n nx data)"
proof -
  assume n: "0 < n"
  let ?d = "thread_init n nx data"
  have "owns [] (replicate n []) ?d p = {}" for p
    by (cases p) (simp_all add: thread_init_def setup_worker_def)
  then have "own_ok [] (replicate n []) ?d" by (simp add: own_ok_def)
  then have "lists_ok [] (replicate n []) ?d"
    by (simp add: lists_ok_def thread_init_def setup_worker_def cq_init_def cq_holds_def pool_holds_def)
  moreover have "turns_ok (replicate n []) ?d"
    using n by (simp add: turns_ok_def thread_init_def setup_worker_def)
  ultimately show ?thesis unfolding thread_inv_def by blast
qed

lemma d_request_inv:
  assumes inv: "lists_ok free qs d" "turns_ok qs d" and pc: "ds_pc d = D_idle"
  shows "thread_inv (d_request c d)"
proof -
  obtain r fl where t: "cqi_take (ds_free d) (ds_next d) = (r, fl)" by fastforce
  have ok: "own_ok free qs d" and h: "pool_holds (ds_next d) (ds_free d) free" using inv(1) by (auto simp: lists_ok_def)
  note take = cqi.take_cases [OF h t]
  let ?free = "case free of [] \<Rightarrow> [] | _ # xs \<Rightarrow> xs"
  have "own_ok ?free qs (d_request c d)"
  proof (rule own_move [OF ok, where A = P_free and B = P_dispatcher and X = "set (take 1 free)"])
    fix p assume "p \<noteq> P_dispatcher"
    then show "owns ?free qs (d_request c d) p \<subseteq> owns free qs d p"
      using take t pc by (cases p) (auto simp: d_request_def split: list.splits)
  qed (use take t pc h in \<open>auto simp: d_request_def pool_holds_def split: list.splits\<close>)
  then have "lists_ok ?free qs (d_request c d)"
    using inv(1) take t by (auto simp: lists_ok_def d_request_def split: list.splits)
  moreover have "turns_ok qs (d_request c d)"
    using inv(2) t take pc by (auto simp: turns_ok_def d_request_def split: option.splits list.splits)
  ultimately show ?thesis unfolding thread_inv_def by blast
qed

lemma lists_okD:
  assumes "lists_ok free qs d"
  shows "length qs = length (ds_workers d)" "own_ok free qs d" "pool_holds (ds_next d) (ds_free d) free"
    "t < length qs \<Longrightarrow> cq_holds (ds_next d) (w_queue (ds_workers d ! t)) (qs ! t)"
  using assms by (auto simp: lists_ok_def)

lemma owned_disjoint:
  assumes "own_ok free qs d"
  shows "set free \<inter> d_items (ds_pc d) = {}" "t < length qs \<Longrightarrow> set (qs ! t) \<inter> d_items (ds_pc d) = {}"
    "t < length (ds_workers d) \<Longrightarrow> w_items (w_pc (ds_workers d ! t)) \<inter> d_items (ds_pc d) = {}"
    "t < length (ds_workers d) \<Longrightarrow> w_items (w_pc (ds_workers d ! t)) \<inter> set free = {}"
    "t < length (ds_workers d) \<Longrightarrow> u < length qs \<Longrightarrow> w_items (w_pc (ds_workers d ! t)) \<inter> set (qs ! u) = {}"
    "t < length qs \<Longrightarrow> u < length qs \<Longrightarrow> t \<noteq> u \<Longrightarrow> set (qs ! t) \<inter> set (qs ! u) = {}"
    "t < length qs \<Longrightarrow> set (qs ! t) \<inter> set free = {}"
proof -
  have one: "x \<in> owns free qs d p \<Longrightarrow> x \<in> owns free qs d q \<Longrightarrow> p = q" for x p q
    using assms by (auto simp: own_ok_def)
  have sep: "p \<noteq> q \<Longrightarrow> owns free qs d p \<inter> owns free qs d q = {}" for p q using one by blast
  show "set free \<inter> d_items (ds_pc d) = {}" "t < length qs \<Longrightarrow> set (qs ! t) \<inter> d_items (ds_pc d) = {}"
    "t < length (ds_workers d) \<Longrightarrow> w_items (w_pc (ds_workers d ! t)) \<inter> d_items (ds_pc d) = {}"
    "t < length (ds_workers d) \<Longrightarrow> w_items (w_pc (ds_workers d ! t)) \<inter> set free = {}"
    "t < length (ds_workers d) \<Longrightarrow> u < length qs \<Longrightarrow> w_items (w_pc (ds_workers d ! t)) \<inter> set (qs ! u) = {}"
    "t < length qs \<Longrightarrow> u < length qs \<Longrightarrow> t \<noteq> u \<Longrightarrow> set (qs ! t) \<inter> set (qs ! u) = {}"
    "t < length qs \<Longrightarrow> set (qs ! t) \<inter> set free = {}"
    using sep [of P_free P_dispatcher] sep [of "P_queue t" P_dispatcher] sep [of "P_thread t" P_dispatcher]
      sep [of "P_thread t" P_free] sep [of "P_thread t" "P_queue u"] sep [of "P_queue t" "P_queue u"] sep [of "P_queue t" P_free]
    by simp_all
qed

lemma d_link_inv:
  assumes inv: "lists_ok free qs d" "turns_ok qs d" and pc: "ds_pc d = D_alloc c"
    and new: "{item..<item + ITEMS_PER_ALLOC} \<inter> ds_owned d = {}"
  shows "thread_inv (d_link item c d)"
proof -
  let ?d = "d_link item c d"
  note ok = lists_okD(2) [OF inv(1)]
  have sub: "owns free qs d p \<subseteq> ds_owned d" for p using ok by (simp add: own_ok_def)
  have owns': "owns free qs ?d p = (if p = P_dispatcher then {item..<item + ITEMS_PER_ALLOC} else owns free qs d p)" for p
    by (cases p) (simp_all add: d_link_def)
  have far: "x \<in> owns free qs d p \<Longrightarrow> x \<notin> {item..<item + ITEMS_PER_ALLOC}" for x p using sub new by blast
  have "own_ok free qs ?d"
    unfolding own_ok_def owns'
  proof (intro conjI allI impI)
    fix x p q
    assume "x \<in> (if p = P_dispatcher then {item..<item + ITEMS_PER_ALLOC} else owns free qs d p)"
      "x \<in> (if q = P_dispatcher then {item..<item + ITEMS_PER_ALLOC} else owns free qs d q)"
    then show "p = q" using far ok unfolding own_ok_def by (metis (full_types))
  next
    fix p show "(if p = P_dispatcher then {item..<item + ITEMS_PER_ALLOC} else owns free qs d p) \<subseteq> ds_owned ?d"
      using sub [of p] by (auto simp: d_link_def)
  qed
  moreover have keep: "ds_next ?d b = ds_next d b" if "b \<in> ds_owned d" for b
  proof -
    have "b \<notin> {item..<item + ITEMS_PER_ALLOC}" using that new by blast
    then show ?thesis by (auto simp: d_link_def cqi_link_eq)
  qed
  moreover have "pool_holds (ds_next ?d) (ds_free d) free"
    using keep sub [of P_free] by (intro cqi.pool_cong [OF lists_okD(3) [OF inv(1)]]) auto
  moreover have "cq_holds (ds_next ?d) (w_queue (ds_workers d ! t)) (qs ! t)" if "t < length qs" for t
    using keep sub [of "P_queue t"] that by (intro cq.holds_cong [OF lists_okD(4) [OF inv(1) that]]) auto
  ultimately have "lists_ok free qs ?d"
    using lists_okD(1) [OF inv(1)] by (auto simp: lists_ok_def d_link_def cqi_link_eq)
  moreover have "turns_ok qs ?d" using inv(2) pc by (auto simp: turns_ok_def d_link_def)
  ultimately show ?thesis unfolding thread_inv_def by blast
qed

lemma d_publish_inv:
  assumes inv: "lists_ok free qs d" "turns_ok qs d" and pc: "ds_pc d = D_publish item c"
  shows "thread_inv (d_publish item c d)"
proof -
  let ?d = "d_publish item c d" and ?free = "[item + 1..<item + ITEMS_PER_ALLOC] @ free"
  note ok = lists_okD(2) [OF inv(1)]
  obtain fl nx where p: "cqi_publish item (ds_free d) (ds_next d) = (fl, nx)" by fastforce
  have d': "?d = d\<lparr>ds_free := fl, ds_next := nx, ds_pc := D_have item c\<rparr>" by (simp add: d_publish_def p)
  have block: "d_items (ds_pc d) = {item..<item + ITEMS_PER_ALLOC}" by (simp add: pc)
  have "own_ok ?free qs ?d"
  proof (rule own_move [OF ok, where A = P_dispatcher and B = P_free and X = "{item + 1..<item + ITEMS_PER_ALLOC}"])
    fix p assume "p \<noteq> P_free"
    then show "owns ?free qs ?d p \<subseteq> owns free qs d p"
      using pc by (cases p) (auto simp: d' ITEMS_PER_ALLOC_def)
  qed (use pc in \<open>auto simp: d' ITEMS_PER_ALLOC_def\<close>)
  moreover have "pool_holds nx fl ?free"
    using inv(1) pc owned_disjoint(1) [OF ok] block
    by (intro cqi_publish_holds [OF lists_okD(3) [OF inv(1)] _ _ p]) (auto simp: lists_ok_def)
  moreover have "cq_holds nx (w_queue (ds_workers d ! t)) (qs ! t)" if "t < length qs" for t
  proof (rule cq.holds_cong [OF lists_okD(4) [OF inv(1) that]])
    fix b assume "b \<in> set (qs ! t)"
    then have "b \<notin> {item..<item + ITEMS_PER_ALLOC}" using owned_disjoint(2) [OF ok that] unfolding block by blast
    then show "nx b = ds_next d b" using p by (auto simp: cqi_publish_def ITEMS_PER_ALLOC_def)
  qed
  ultimately have "lists_ok ?free qs ?d"
    using lists_okD(1) [OF inv(1)] by (auto simp: lists_ok_def d')
  moreover have "turns_ok qs ?d" using inv(2) pc by (auto simp: turns_ok_def d')
  ultimately show ?thesis unfolding thread_inv_def by blast
qed

lemma d_push_inv:
  assumes inv: "lists_ok free qs d" "turns_ok qs d" and pc: "ds_pc d = D_have item c"
  shows "thread_inv (d_push written item c d)"
proof -
  let ?d = "d_push written item c d" and ?n = "length (ds_workers d)"
  note ok = lists_okD(2) [OF inv(1)] and len = lists_okD(1) [OF inv(1)]
  obtain pushed where log: "ds_log d = pushed @ [c]" and n: "0 < ?n"
    and last: "(ds_last d + 1) mod int ?n = int (length pushed mod ?n)"
    and turn: "\<And>t. t < ?n \<Longrightarrow> w_served (ds_workers d ! t) @ w_pending (ds_data d) (w_pc (ds_workers d ! t)) @ map (ds_data d) (qs ! t) =
        picks ?n t pushed \<and> length (qs ! t) \<le> w_notify (ds_workers d ! t) + ds_lost d"
    using inv(2) pc by (auto simp: turns_ok_def Let_def)
  define tid where "tid = length pushed mod ?n"
  have tid: "tid < ?n" "(ds_last d + 1) mod int ?n = int tid" using n last by (auto simp: tid_def)
  let ?wk = "ds_workers d ! tid"
  obtain q nx where p: "cq_push (w_queue ?wk) item (ds_next d) = (q, nx)" by fastforce
  let ?wk' = "?wk\<lparr>w_queue := q, w_notify := (if written then w_notify ?wk + 1 else w_notify ?wk)\<rparr>"
  have d': "?d = d\<lparr>ds_next := nx, ds_data := (ds_data d)(item := c), ds_workers := (ds_workers d)[tid := ?wk'], ds_last := int tid,
     ds_pc := D_idle, ds_lost := (if written then ds_lost d else ds_lost d + 1)\<rparr>"
    using p by (simp add: d_push_def Let_def tid(2))
  let ?qs = "qs[tid := qs ! tid @ [item]]"
  have mine: "item \<notin> set free" "t < length qs \<Longrightarrow> item \<notin> set (qs ! t)" "t < ?n \<Longrightarrow> item \<notin> w_items (w_pc (ds_workers d ! t))" for t
    using owned_disjoint(1,2,3) [OF ok] pc by auto
  have "own_ok free ?qs ?d"
  proof (rule own_move [OF ok, where A = P_dispatcher and B = "P_queue tid" and X = "{item}"])
    fix p assume "p \<noteq> P_queue tid"
    then show "owns free ?qs ?d p \<subseteq> owns free qs d p"
      using pc tid(1) len by (cases p) (auto simp: d' nth_list_update split: if_splits)
  qed (use pc tid(1) len in \<open>auto simp: d'\<close>)
  moreover have "pool_holds nx (ds_free d) free"
    using owned_disjoint(7) [OF ok, of tid] mine(1) tid(1) len
    by (intro cqi.pool_cong [OF lists_okD(3) [OF inv(1)]] cq.push_frame [OF lists_okD(4) [OF inv(1), of tid] p]) auto
  moreover have "cq_holds nx (w_queue ((ds_workers d)[tid := ?wk'] ! t)) (?qs ! t)" if "t < ?n" for t
  proof (cases "t = tid")
    case True
    then show ?thesis using cq.push_holds [OF lists_okD(4) [OF inv(1)] _ p] mine(2) tid(1) len by simp
  next
    case False
    then show ?thesis
      using cq.push_other [OF lists_okD(4) [OF inv(1)] p lists_okD(4) [OF inv(1)]] mine(2) tid(1) len that
        owned_disjoint(6) [OF ok, of tid t] by simp
  qed
  ultimately have "lists_ok free ?qs ?d"
    using len by (auto simp: lists_ok_def d')
  moreover have "turns_ok ?qs ?d"
  proof -
    have same: "w_pending ((ds_data d)(item := c)) (w_pc (ds_workers d ! t)) = w_pending (ds_data d) (w_pc (ds_workers d ! t))"
      "map ((ds_data d)(item := c)) (qs ! t) = map (ds_data d) (qs ! t)" if "t < ?n" for t
      using that len by (cases "w_pc (ds_workers d ! t)"; auto simp: mine dest: mine(3))+
    have "(int tid + 1) mod int ?n = int (length (pushed @ [c]) mod ?n)"
      by (simp add: tid_def zmod_int mod_simps add.commute)
    moreover have "w_served w2 @ w_pending ((ds_data d)(item := c)) (w_pc w2) @ map ((ds_data d)(item := c)) (?qs ! t) =
          picks ?n t (pushed @ [c]) \<and> length (?qs ! t) \<le> w_notify w2 + (if written then ds_lost d else ds_lost d + 1)"
      if t: "t < ?n" and w2: "w2 = (ds_workers d)[tid := ?wk'] ! t" for t w2
    proof -
      have "w_served w2 = w_served (ds_workers d ! t)" "w_pc w2 = w_pc (ds_workers d ! t)"
        using t w2 tid(1) by (simp_all add: nth_list_update)
      moreover have "?qs ! t = qs ! t @ (if t = tid then [item] else [])" using t len by simp
      moreover have "w_notify w2 = w_notify (ds_workers d ! t) + (if t = tid \<and> written then 1 else 0)"
        using t w2 tid(1) by (simp add: nth_list_update)
      moreover have "picks ?n t (pushed @ [c]) = picks ?n t pushed @ (if t = tid then [c] else [])"
        by (simp add: picks_snoc tid_def)
      ultimately show ?thesis using turn [OF t] same [OF t] by (auto simp del: map_eq_conv simp flip: append_assoc)
    qed
    ultimately show ?thesis
      unfolding turns_ok_def using n len log by (intro exI [of _ "pushed @ [c]"]) (simp add: d' Let_def)
  qed
  ultimately show ?thesis unfolding thread_inv_def by blast
qed

text \<open>The steps of a thread change only that thread.\<close>

lemma turns_okE:
  assumes "turns_ok qs d"
  obtains pushed where "ds_log d = pushed @ d_pending (ds_pc d)" "0 < length (ds_workers d)"
    "(ds_last d + 1) mod int (length (ds_workers d)) = int (length pushed mod length (ds_workers d))"
    "\<And>t. t < length (ds_workers d) \<Longrightarrow>
       w_served (ds_workers d ! t) @ w_pending (ds_data d) (w_pc (ds_workers d ! t)) @ map (ds_data d) (qs ! t) =
         picks (length (ds_workers d)) t pushed \<and> length (qs ! t) \<le> w_notify (ds_workers d ! t) + ds_lost d"
  using assms by (auto simp: turns_ok_def Let_def)

lemma turns_ok_notify:
  "turns_ok qs d \<Longrightarrow> t < length (ds_workers d) \<Longrightarrow> length (qs ! t) \<le> w_notify (ds_workers d ! t) + ds_lost d"
  by (erule turns_okE) blast

lemma turns_ok_worker:
  assumes ok: "turns_ok qs d" and t: "t < length (ds_workers d)" and len: "length qs = length (ds_workers d)"
    and d': "ds_log d' = ds_log d" "ds_pc d' = ds_pc d" "ds_last d' = ds_last d" "ds_data d' = ds_data d" "ds_lost d' = ds_lost d"
      "ds_workers d' = (ds_workers d)[t := wk]"
    and wk: "w_served wk @ w_pending (ds_data d) (w_pc wk) @ map (ds_data d) xs =
        w_served (ds_workers d ! t) @ w_pending (ds_data d) (w_pc (ds_workers d ! t)) @ map (ds_data d) (qs ! t)"
      "length xs \<le> w_notify wk + ds_lost d"
  shows "turns_ok (qs[t := xs]) d'"
proof (rule turns_okE [OF ok])
  fix pushed
  assume "ds_log d = pushed @ d_pending (ds_pc d)" "0 < length (ds_workers d)"
    "(ds_last d + 1) mod int (length (ds_workers d)) = int (length pushed mod length (ds_workers d))"
    "\<And>t. t < length (ds_workers d) \<Longrightarrow>
       w_served (ds_workers d ! t) @ w_pending (ds_data d) (w_pc (ds_workers d ! t)) @ map (ds_data d) (qs ! t) =
         picks (length (ds_workers d)) t pushed \<and> length (qs ! t) \<le> w_notify (ds_workers d ! t) + ds_lost d"
  then show ?thesis
    unfolding turns_ok_def d' using t len wk by (intro exI [of _ pushed]) (auto simp: Let_def nth_list_update)
qed

lemma w_pop_inv:
  assumes inv: "lists_ok free qs d" "turns_ok qs d" and t: "t < length (ds_workers d)"
    and go: "0 < w_notify (ds_workers d ! t)" "w_pc (ds_workers d ! t) = W_idle"
  shows "thread_inv (w_pop t d)"
proof -
  let ?d = "w_pop t d" and ?wk = "ds_workers d ! t"
  note ok = lists_okD(2) [OF inv(1)] and len = lists_okD(1) [OF inv(1)]
  obtain r q where p: "cq_pop (ds_next d) (w_queue ?wk) = (r, q)" by fastforce
  have r: "r = (case qs ! t of [] \<Rightarrow> None | a # _ \<Rightarrow> Some a)"
    and h: "cq_holds (ds_next d) q (case qs ! t of [] \<Rightarrow> [] | _ # ys \<Rightarrow> ys)"
    using cq.pop_cases [OF lists_okD(4) [OF inv(1)] p] t len by auto
  let ?xs = "case qs ! t of [] \<Rightarrow> [] | _ # ys \<Rightarrow> ys"
  let ?wk' = "?wk\<lparr>w_queue := q, w_notify := w_notify ?wk - 1, w_pc := (case r of None \<Rightarrow> W_idle | Some i \<Rightarrow> W_have i)\<rparr>"
  have d': "?d = d\<lparr>ds_workers := (ds_workers d)[t := ?wk']\<rparr>" by (simp add: w_pop_def Let_def p)
  have dist: "distinct (qs ! t)" using lists_okD(4) [OF inv(1)] t len by (simp add: cq_holds_def)
  have sub: "set ?xs \<subseteq> set (qs ! t)" by (cases "qs ! t") auto
  have "own_ok free (qs[t := ?xs]) ?d"
  proof (rule own_move [OF ok, where A = "P_queue t" and B = "P_thread t" and X = "set (take 1 (qs ! t))"])
    fix p assume "p \<noteq> P_thread t"
    then show "owns free (qs[t := ?xs]) ?d p \<subseteq> owns free qs d p"
      using t len sub by (cases p) (auto simp: d' nth_list_update split: if_splits)
  qed (use go t len r dist in \<open>auto simp: d' split: list.splits\<close>)
  then have "lists_ok free (qs[t := ?xs]) ?d"
    using inv(1) h t by (auto simp: lists_ok_def d' nth_list_update)
  moreover have "turns_ok (qs[t := ?xs]) ?d"
  proof (rule turns_ok_worker [OF inv(2) t len, where wk = ?wk'])
    show "length ?xs \<le> w_notify ?wk' + ds_lost d" using turns_ok_notify [OF inv(2) t] go(1) by (auto split: list.splits)
  qed (use r go in \<open>simp_all add: d' split: list.splits\<close>)
  ultimately show ?thesis unfolding thread_inv_def by blast
qed

lemma w_serve_inv:
  assumes inv: "lists_ok free qs d" "turns_ok qs d" and t: "t < length (ds_workers d)" and pc: "w_pc (ds_workers d ! t) = W_have i"
  shows "thread_inv (w_serve t i d)"
proof -
  let ?d = "w_serve t i d" and ?wk = "ds_workers d ! t"
  note ok = lists_okD(2) [OF inv(1)] and len = lists_okD(1) [OF inv(1)]
  let ?wk' = "?wk\<lparr>w_served := w_served ?wk @ [ds_data d i], w_pc := W_done i\<rparr>"
  have d': "?d = d\<lparr>ds_workers := (ds_workers d)[t := ?wk']\<rparr>" by (simp add: w_serve_def Let_def)
  have "owns free qs ?d p = owns free qs d p" for p
    using t pc by (cases p) (auto simp: d' nth_list_update)
  then have "own_ok free qs ?d" using ok by (simp add: own_ok_def d')
  then have "lists_ok free qs ?d" using inv(1) t by (auto simp: lists_ok_def d' nth_list_update)
  moreover have "turns_ok (qs[t := qs ! t]) ?d"
    using turns_ok_notify [OF inv(2) t] t pc by (intro turns_ok_worker [OF inv(2) t len, where wk = ?wk']) (simp_all add: d')
  then have "turns_ok qs ?d" by simp
  ultimately show ?thesis unfolding thread_inv_def by blast
qed

lemma w_release_inv:
  assumes inv: "lists_ok free qs d" "turns_ok qs d" and t: "t < length (ds_workers d)" and pc: "w_pc (ds_workers d ! t) = W_done i"
  shows "thread_inv (w_release t i d)"
proof -
  let ?d = "w_release t i d" and ?wk = "ds_workers d ! t"
  note ok = lists_okD(2) [OF inv(1)] and len = lists_okD(1) [OF inv(1)]
  obtain fl nx where p: "cqi_free i (ds_free d) (ds_next d) = (fl, nx)" by fastforce
  let ?wk' = "?wk\<lparr>w_pc := W_idle\<rparr>"
  have d': "?d = d\<lparr>ds_free := fl, ds_next := nx, ds_workers := (ds_workers d)[t := ?wk']\<rparr>"
    by (simp add: w_release_def Let_def p)
  have mine: "i \<notin> set free" "u < length qs \<Longrightarrow> i \<notin> set (qs ! u)" "i \<notin> d_items (ds_pc d)" for u
    using owned_disjoint(3,4,5) [OF ok t] pc by auto
  have "own_ok (i # free) qs ?d"
  proof (rule own_move [OF ok, where A = "P_thread t" and B = P_free and X = "{i}"])
    fix p assume "p \<noteq> P_free"
    then show "owns (i # free) qs ?d p \<subseteq> owns free qs d p"
      using t by (cases p) (auto simp: d' nth_list_update split: if_splits)
  qed (use t pc in \<open>auto simp: d'\<close>)
  moreover have "pool_holds nx fl (i # free)" by (rule cqi.free_holds [OF lists_okD(3) [OF inv(1)] mine(1) p])
  moreover have "cq_holds nx (w_queue (ds_workers d ! u)) (qs ! u)" if "u < length qs" for u
    using mine(2) [OF that] by (intro cq.holds_cong [OF lists_okD(4) [OF inv(1) that]] cqi.free_frame [OF p]) auto
  moreover have "nx a = ds_next d a" if "a \<noteq> i" for a using cqi.free_frame [OF p that] .
  ultimately have "lists_ok (i # free) qs ?d"
    using inv(1) t mine(3) by (auto simp: lists_ok_def d' nth_list_update)
  moreover have "turns_ok (qs[t := qs ! t]) ?d"
    using turns_ok_notify [OF inv(2) t] t pc by (intro turns_ok_worker [OF inv(2) t len, where wk = ?wk']) (simp_all add: d')
  then have "turns_ok qs ?d" by simp
  ultimately show ?thesis unfolding thread_inv_def by blast
qed

section \<open>Runs\<close>

inductive thread_run :: "nat \<Rightarrow> links \<Rightarrow> (nat \<Rightarrow> cq_item) \<Rightarrow> dispatch \<Rightarrow> bool" for n nx data where
  thread_start: "thread_run n nx data (thread_init n nx data)"
| thread_next: "thread_run n nx data d \<Longrightarrow> thread_step d d' \<Longrightarrow> thread_run n nx data d'"

lemma thread_step_inv:
  assumes "thread_step d d'" "thread_inv d"
  shows "thread_inv d'"
proof -
  obtain free qs where inv: "lists_ok free qs d" "turns_ok qs d" using assms(2) by (auto simp: thread_inv_def)
  from assms(1) show ?thesis
    by (rule thread_stepE)
      (use d_request_inv [OF inv] d_link_inv [OF inv] d_publish_inv [OF inv] d_push_inv [OF inv] w_pop_inv [OF inv]
        w_serve_inv [OF inv] w_release_inv [OF inv] in \<open>simp_all\<close>)
qed

lemma thread_run_inv: "thread_run n nx data d \<Longrightarrow> 0 < n \<Longrightarrow> thread_inv d \<and> length (ds_workers d) = n"
proof (induction rule: thread_run.induct)
  case thread_start
  then show ?case using thread_inv_init by (simp add: thread_init_def)
next
  case (thread_next d d')
  moreover have "length (ds_workers d') = length (ds_workers d)"
    using thread_next(2)
    by (cases rule: thread_step.cases)
      (auto simp: d_request_def d_link_def d_publish_def d_push_def w_pop_def w_serve_def w_release_def Let_def
        split: prod.splits option.splits)
  ultimately show ?case using thread_step_inv by simp
qed

text \<open>A run of two threads in which the first serves a connection.\<close>

definition demo_item :: cq_item where
  "demo_item = \<lparr>qi_sfd = 7, qi_init_state = conn_new_cmd, qi_event_flags = EV_READ_PERSIST, qi_read_buffer_size = 2048, qi_transport = tcp_transport\<rparr>"

definition demo_ready :: dispatch where
  "demo_ready = d_publish 100 demo_item (d_link 100 demo_item (d_request demo_item (thread_init 2 (\<lambda>_. None) (\<lambda>_. demo_item))))"

definition demo_served :: dispatch where
  "demo_served = w_serve 0 100 (w_pop 0 (d_push True 100 demo_item demo_ready))"

lemma demo_run: "thread_run 2 (\<lambda>_. None) (\<lambda>_. demo_item) demo_served"
proof -
  let ?i = "thread_init 2 (\<lambda>_. None) (\<lambda>_. demo_item)"
  have "thread_run 2 (\<lambda>_. None) (\<lambda>_. demo_item) (d_request demo_item ?i)"
    by (rule thread_next [OF thread_start request]) (simp add: thread_init_def)
  then have "thread_run 2 (\<lambda>_. None) (\<lambda>_. demo_item) (d_link 100 demo_item (d_request demo_item ?i))"
    by (rule thread_next [OF _ alloc]) (simp_all add: thread_init_def d_request_def cqi_take_def)
  then have "thread_run 2 (\<lambda>_. None) (\<lambda>_. demo_item) demo_ready"
    unfolding demo_ready_def by (rule thread_next [OF _ publish]) (simp add: d_link_def)
  then have "thread_run 2 (\<lambda>_. None) (\<lambda>_. demo_item) (d_push True 100 demo_item demo_ready)"
    by (rule thread_next [OF _ push]) (simp add: demo_ready_def d_publish_def split: prod.split)
  then have "thread_run 2 (\<lambda>_. None) (\<lambda>_. demo_item) (w_pop 0 (d_push True 100 demo_item demo_ready))"
    by (rule thread_next [OF _ wake]) (code_simp+)
  then show ?thesis
    unfolding demo_served_def by (rule thread_next [OF _ serve]) (code_simp+)
qed

section \<open>Properties\<close>

text \<open>C10: in every interleaving, the connections handed to thread \<open>t\<close> are those with number \<open>t\<close> modulo the
  number of threads; it calls \<^verbatim>\<open>conn_new\<close> for each of them once, in the order in which they were accepted.\<close>

theorem dispatch_round_robin:
  assumes "thread_run n nx data d" "t < n"
  shows "\<exists>waiting pushed. ds_log d = pushed @ d_pending (ds_pc d) \<and> w_served (ds_workers d ! t) @ waiting = picks n t pushed"
proof -
  obtain free qs where inv: "lists_ok free qs d" "turns_ok qs d" and n: "length (ds_workers d) = n"
    using thread_run_inv [OF assms(1)] assms(2) unfolding thread_inv_def by auto
  show ?thesis using turns_okE [OF inv(2)] assms(2) n by metis
qed

lemma dispatch_round_robin_witness:
  "\<exists>waiting pushed. [demo_item] = pushed @ [] \<and> [demo_item] @ waiting = picks 2 0 pushed"
proof -
  have "ds_log demo_served = [demo_item]" "d_pending (ds_pc demo_served) = []" "w_served (ds_workers demo_served ! 0) = [demo_item]"
    by code_simp+
  then show ?thesis using dispatch_round_robin [OF demo_run, of 0] by simp
qed

text \<open>C21: no item is lost or shared: the items of a queue, of the free list and at hand are
  different, and a thread has an item in its queue only if a byte waits in its pipe or a write of one failed.\<close>

theorem dispatch_items_safe:
  assumes "thread_run n nx data d" "t < n"
  shows "\<exists>items free. cq_holds (ds_next d) (w_queue (ds_workers d ! t)) items \<and> pool_holds (ds_next d) (ds_free d) free \<and>
    set items \<inter> set free = {} \<and> (set items \<union> set free) \<inter> (d_items (ds_pc d) \<union> w_items (w_pc (ds_workers d ! t))) = {} \<and>
    length items \<le> w_notify (ds_workers d ! t) + ds_lost d"
proof -
  obtain free qs where inv: "lists_ok free qs d" "turns_ok qs d" and n: "length (ds_workers d) = n"
    using thread_run_inv [OF assms(1)] assms(2) unfolding thread_inv_def by auto
  note ok = lists_okD [OF inv(1)]
  have t: "t < length qs" "t < length (ds_workers d)" using ok(1) n assms(2) by auto
  show ?thesis
    using ok(4) [OF t(1)] ok(3) owned_disjoint(1) [OF ok(2)] owned_disjoint(2) [OF ok(2) t(1)] owned_disjoint(4) [OF ok(2) t(2)]
      owned_disjoint(5) [OF ok(2) t(2) t(1)] owned_disjoint(7) [OF ok(2) t(1)] turns_ok_notify [OF inv(2) t(2)]
    by (intro exI [of _ "qs ! t"] exI [of _ free]) auto
qed

lemma dispatch_items_safe_witness:
  "\<exists>items free. cq_holds (ds_next demo_served) (w_queue (ds_workers demo_served ! 0)) items \<and>
    pool_holds (ds_next demo_served) (ds_free demo_served) free \<and> set items \<inter> set free = {} \<and> 100 \<notin> set items \<union> set free"
proof -
  have "w_pc (ds_workers demo_served ! 0) = W_done 100" by code_simp
  then show ?thesis using dispatch_items_safe [OF demo_run, of 0] by auto
qed

end
