(* ===== verification/Srv_Life.thy ===== *)
theory Srv_Life
  imports Srv_Pool Srv_Props Srv_Thread
begin

text \<open>
  The life of a connection as a whole: what \<^const>\<open>conn_new\<close> hands out is what the protocol
  starts from, an event is a run of rounds, and what is closed may be used again.
\<close>

section \<open>The free list\<close>

definition malloc_ok :: "'w sys_ops \<Rightarrow> bool" where
  "malloc_ok ops \<longleftrightarrow> (\<forall>n w mem w'. sys_malloc ops n w = (Some mem, w') \<longrightarrow> length mem = n)"

lemma malloc_okD: "malloc_ok ops \<Longrightarrow> sys_malloc ops n w = (Some mem, w') \<Longrightarrow> length mem = n"
  by (auto simp: malloc_ok_def)

definition reusable :: "conn \<Rightarrow> bool" where
  "reusable c \<longleftrightarrow> out_room c \<and> rsize c = int (length (rbuf c)) \<and> rsize c \<le> int READ_BUFFER_HIGHWAT"

definition pool_ok :: "conn_pool \<Rightarrow> bool" where
  "pool_ok p \<longleftrightarrow> 0 < pool_total p \<and> length (pool_conns p) \<le> pool_total p \<and> (\<forall>c\<in>set (pool_conns p). reusable c)"

lemma pool_ok_init: "pool_ok (fst (conn_init ops w))"
  by (simp add: pool_ok_def conn_init_def split: prod.split)

lemma pool_ok_add:
  assumes "pool_ok p" "reusable c" "conn_add_to_freelist ops c p w = Some (full, p', w')"
  shows "pool_ok p'" "\<not> full \<Longrightarrow> pool_conns p' = c # pool_conns p"
  using assms by (auto simp: conn_add_to_freelist_def pool_ok_def Let_def split: if_splits prod.splits option.splits)

lemma conn_alloc_reusable:
  assumes "malloc_ok ops" "n \<le> READ_BUFFER_HIGHWAT" "conn_alloc ops csize n w = (Some c, w')"
  shows "reusable c"
proof -
  obtain a w0 rb w1 wb w2 v w3 m w4 where q: "sys_malloc ops csize w = (a, w0)" "sys_malloc ops n w0 = (rb, w1)"
    "sys_malloc ops DATA_BUFFER_SIZE w1 = (wb, w2)" "sys_malloc ops (16 * IOV_LIST_INITIAL) w2 = (v, w3)"
    "sys_malloc ops (56 * MSG_LIST_INITIAL) w3 = (m, w4)"
    by (metis prod.exhaust)
  have r: "rb \<noteq> None" "wb \<noteq> None" "c = zero_conn\<lparr>rbuf := the rb, rsize := int n, wbuf := the wb,
      iov := replicate IOV_LIST_INITIAL None, msglist := replicate MSG_LIST_INITIAL None\<rparr>"
    using assms(3) by (simp_all add: conn_alloc_def conn_free_def q split: option.splits if_splits)
  have "length (the rb) = n" "length (the wb) = DATA_BUFFER_SIZE"
    using malloc_okD [OF assms(1)] q(2,3) r(1,2) by auto
  then show ?thesis
    using r(3) assms(2) by (simp add: reusable_def out_room_def srv_consts sizeof_header_def)
qed

lemma reusable_setup [simp]: "reusable (conn_setup s st f tr u c) = reusable c"
  by (simp add: reusable_def out_room_def conn_setup_def)

lemma conn_setup_fresh:
  "reusable c \<Longrightarrow> conn_fresh s (conn_setup s conn_new_cmd f tr u c)"
  by (auto simp: conn_fresh_def conn_ok_def reusable_def out_room_def padding_def conn_setup_def READ_BUFFER_HIGHWAT_def INT_MAX_def)

lemma conn_new_ok:
  assumes "malloc_ok ops" "pool_ok p" "n \<le> READ_BUFFER_HIGHWAT"
    and new: "conn_new ops csize u s st f n tr p w = Some (r, p', w')"
  shows "pool_ok p'" "r = Some c \<Longrightarrow> \<exists>c0. reusable c0 \<and> c = conn_setup s st f tr u c0"
proof -
  obtain c0 p1 w1 where c0: "(case conn_from_freelist p of (Some c, p') \<Rightarrow> (Some c, p', w)
      | (None, p') \<Rightarrow> (case conn_alloc ops csize n w of (c, w') \<Rightarrow> (c, p', w'))) = (c0, p1, w1)"
    by (rule prod_cases3)
  have p1: "pool_ok p1 \<and> (\<forall>c. c0 = Some c \<longrightarrow> reusable c)"
  proof (cases "pool_conns p")
    case Nil
    then show ?thesis
      using c0 assms(2) conn_alloc_reusable [OF assms(1,3)] by (auto simp: conn_from_freelist_def split: prod.splits)
  next
    case (Cons d ds)
    then have "c0 = Some d" "p1 = p\<lparr>pool_conns := ds\<rparr>" using c0 by (simp_all add: conn_from_freelist_def)
    then show ?thesis using assms(2) Cons by (simp add: pool_ok_def)
  qed
  have "pool_ok p' \<and> (\<forall>c. r = Some c \<longrightarrow> (\<exists>c0. reusable c0 \<and> c = conn_setup s st f tr u c0))"
  proof (cases c0)
    case None
    then show ?thesis using new c0 p1 by (simp add: conn_new_def)
  next
    case (Some d)
    let ?c = "conn_setup s st f tr u d"
    obtain b w2 where e: "ev_add ops s f w1 = (b, w2)" by fastforce
    show ?thesis
    proof (cases b)
      case True
      then have "r = Some ?c" "p' = p1" using new c0 Some e by (simp_all add: conn_new_def Let_def)
      then show ?thesis using p1 Some by blast
    next
      case False
      then obtain full w3 where "conn_add_to_freelist ops ?c p1 w2 = Some (full, p', w3)" "r = None"
        using new c0 Some e by (auto simp: conn_new_def Let_def conn_free_def Option.bind_eq_Some_conv)
      then show ?thesis using pool_ok_add(1) [of p1 ?c] p1 Some by auto
    qed
  qed
  then show "pool_ok p'" "r = Some c \<Longrightarrow> \<exists>c0. reusable c0 \<and> c = conn_setup s st f tr u c0" by auto
qed

lemma conn_close_ok:
  assumes "pool_ok (sv_pool sv)" "conn_ok s pad c" "conn_close ops backlog c sv w = Some (sv', w')"
  shows "pool_ok (sv_pool sv')"
proof -
  have "int READ_BUFFER_HIGHWAT < rsize (conn_cleanup c) \<or> reusable (conn_cleanup c)"
    using assms(2) by (auto simp: reusable_def conn_ok_def conn_cleanup_def out_room_def)
  then show ?thesis
    using assms(1,3) pool_ok_add(1) [OF assms(1)]
    by (auto simp: conn_close_def accept_new_conns_def Let_def Option.bind_eq_Some_conv split: prod.splits if_splits)
qed

section \<open>Events\<close>

lemma drive_loop_run:
  assumes polite: "\<And>w. sizes_ok (recvd w)"
  shows "drive_loop ops answer backlog nreqs c sv w = Some (r, sv', w') \<Longrightarrow> conn_run ops answer env recvd c0 w0 c w \<Longrightarrow>
    (case r of Some c' \<Rightarrow> sv' = sv \<and> conn_run ops answer env recvd c0 w0 c' w'
     | None \<Rightarrow> \<exists>c1 w1. conn_run ops answer env recvd c0 w0 c1 w1 \<and> conn_close ops backlog c1 sv w1 = Some (sv', w'))"
proof -
  assume run: "conn_run ops answer env recvd c0 w0 c w"
  assume y: "drive_loop ops answer backlog nreqs c sv w = Some (r, sv', w')"
  let ?P = "\<lambda>ops' answer' backlog' nreqs c (sv :: server) w (y :: conn option \<times> server \<times> 'a).
      ops' = ops \<longrightarrow> answer' = answer \<longrightarrow> backlog' = backlog \<longrightarrow> conn_run ops answer env recvd c0 w0 c w \<longrightarrow>
      (case y of (r, sv', w') \<Rightarrow> case r of Some c' \<Rightarrow> sv' = sv \<and> conn_run ops answer env recvd c0 w0 c' w'
        | None \<Rightarrow> \<exists>c1 w1. conn_run ops answer env recvd c0 w0 c1 w1 \<and> conn_close ops backlog c1 sv w1 = Some (sv', w'))"
  have "?P ops answer backlog nreqs c sv w (r, sv', w')"
  proof (rule drive_loop.raw_induct [where P = ?P, OF _ y])
    fix loop ops' answer' backlog' nreqs c sv w and y :: "conn option \<times> server \<times> 'a"
    assume IH: "\<And>ops answer backlog nreqs c sv w y. loop ops answer backlog nreqs c sv w = Some y \<Longrightarrow> ?P ops answer backlog nreqs c sv w y"
      and y: "(if state c = conn_closing then do {
            (sv', w') \<leftarrow> conn_close ops' backlog' c sv w;
            Some (None, sv', w') }
          else do {
            (c', nreqs', stop, w') \<leftarrow> drive_step ops' answer' c nreqs w;
            (if stop then Some (Some c', sv, w') else loop ops' answer' backlog' nreqs' c' sv w') }) = Some y"
    show "?P ops' answer' backlog' nreqs c sv w y"
    proof (intro impI)
      assume eq: "ops' = ops" "answer' = answer" "backlog' = backlog" and run: "conn_run ops answer env recvd c0 w0 c w"
      show "case y of (r, sv', w') \<Rightarrow> case r of Some c' \<Rightarrow> sv' = sv \<and> conn_run ops answer env recvd c0 w0 c' w'
        | None \<Rightarrow> \<exists>c1 w1. conn_run ops answer env recvd c0 w0 c1 w1 \<and> conn_close ops backlog c1 sv w1 = Some (sv', w')"
      proof (cases "state c = conn_closing")
        case True
        then obtain sv' w' where "conn_close ops backlog c sv w = Some (sv', w')" "y = (None, sv', w')"
          using y eq by (auto simp: Option.bind_eq_Some_conv)
        moreover from this(1) run have "\<exists>c1 w1. conn_run ops answer env recvd c0 w0 c1 w1 \<and> conn_close ops backlog c1 sv w1 = Some (sv', w')"
          by blast
        ultimately show ?thesis by simp
      next
        case False
        then obtain c' nreqs' stop w' where st: "drive_step ops answer c nreqs w = Some (c', nreqs', stop, w')"
          "(if stop then Some (Some c', sv, w') else loop ops' answer' backlog' nreqs' c' sv w') = Some y"
          using y eq by (auto simp: Option.bind_eq_Some_conv)
        have run': "conn_run ops answer env recvd c0 w0 c' w'" by (rule conn_run.round [OF run polite st(1)])
        show ?thesis
        proof (cases stop)
          case True
          then show ?thesis using st(2) run' by auto
        next
          case False
          then show ?thesis using IH [of ops' answer' backlog' nreqs' c' sv w' y] st(2) run' eq by simp
        qed
      qed
    qed
  qed
  then show ?thesis using run by simp
qed

section \<open>Properties\<close>

text \<open>C26: a connection that \<^verbatim>\<open>conn_new\<close> hands out, from the allocator or from the free list, is one the protocol
  can start on, and the free list keeps connections with buffers of a bounded size.\<close>

theorem conn_new_starts:
  assumes "malloc_ok ops" "pool_ok p" "n \<le> READ_BUFFER_HIGHWAT"
    and "conn_new ops csize u s conn_new_cmd f n tr p w = Some (Some c, p', w')"
  shows "conn_fresh s c \<and> pool_ok p'"
  using conn_new_ok(1) [OF assms] conn_new_ok(2) [OF assms, of c] conn_setup_fresh by auto

definition demo_pool :: conn_pool where
  "demo_pool = \<lparr>pool_array = True, pool_total = 200, pool_conns = [script_conn3]\<rparr>"

lemma conn_new_starts_witness:
  "\<exists>c p w. conn_new script_ops 0 False 9 conn_new_cmd EV_READ_PERSIST 2048 tcp_transport demo_pool script_world = Some (Some c, p, w) \<and>
     conn_fresh 9 c \<and> pool_ok p"
proof -
  have m: "malloc_ok script_ops" by (simp add: malloc_ok_def script_ops_def)
  have p: "pool_ok demo_pool"
    by (simp add: pool_ok_def demo_pool_def reusable_def out_room_def script_conn3_def sizeof_header_def READ_BUFFER_HIGHWAT_def)
  have n: "2048 \<le> READ_BUFFER_HIGHWAT" by (simp add: READ_BUFFER_HIGHWAT_def)
  have "\<exists>c p w. conn_new script_ops 0 False 9 conn_new_cmd EV_READ_PERSIST 2048 tcp_transport demo_pool script_world = Some (Some c, p, w)"
    by (simp add: conn_new_def conn_from_freelist_def demo_pool_def script_ops_def Let_def)
  then show ?thesis using conn_new_starts [OF m p n] by blast
qed

text \<open>An event on the socket of a connection is a run of rounds; when it closes the connection, its
  buffers go back to the free list or are released, and what goes back can be handed out again.\<close>

theorem event_is_a_run:
  assumes "sock_ok ops s recvd sent" "mem_avail ops" "env_ok env recvd sent" "\<forall>w. sizes_ok (recvd w)"
    and "conn_fresh s c0" "recvd w0 = []" "sent w0 = []" "conn_run ops answer env recvd c0 w0 c w"
    and "pool_ok (sv_pool sv)" "event_handler ops answer backlog reqs_per_event s c sv w = Some (r, sv', w')"
  shows "pool_ok (sv_pool sv') \<and> (\<forall>c'. r = Some c' \<longrightarrow> conn_run ops answer env recvd c0 w0 c' w')"
proof -
  have reach: "\<exists>reqs. serving s answer (padding c0) reqs c (recvd w) (sent w)" if "conn_run ops answer env recvd c0 w0 c w" for c w
    using conn_run_serving [OF that assms(1-3,5-7)] .
  then have ok: "conn_ok s (padding c0) c" if "conn_run ops answer env recvd c0 w0 c w" for c w
    using that unfolding serving_def by blast
  have "sfd c = s" using ok [OF assms(8)] by (simp add: conn_ok_def)
  then have "drive_loop ops answer backlog reqs_per_event c sv w = Some (r, sv', w')"
    using assms(10) by (simp add: event_handler_def drive_machine_def)
  note run = drive_loop_run [OF _ this assms(8)]
  show ?thesis
  proof (cases r)
    case None
    then obtain c1 w1 where "conn_run ops answer env recvd c0 w0 c1 w1" "conn_close ops backlog c1 sv w1 = Some (sv', w')"
      using run assms(4) by auto
    then have "pool_ok (sv_pool sv')" by (intro conn_close_ok [OF assms(9) ok])
    then show ?thesis using None by simp
  next
    case (Some c')
    then show ?thesis using run assms(4,9) by auto
  qed
qed

text \<open>A client that sends a fixed stream; the world is how much has arrived, and what has been sent.\<close>

definition demo_stream :: bytes where
  "demo_stream = [0x80, 0, 0, 0, 0, 0, 0, 6, 0, 0, 0, 0, 107, 0, 0x80]"

definition stream_ops :: "(nat \<times> bytes) sys_ops" where
  "stream_ops =
     \<lparr>sys_malloc = (\<lambda>n w. (Some (replicate n 0), w)),
      sys_read = (\<lambda>s n w. let d = take n (drop (fst w) demo_stream)
         in if d = [] then (Read_again, w) else (Read_bytes d, (fst w + length d, snd w))),
      sys_sendmsg = (\<lambda>s bs w. (Sent (length bs), (fst w, snd w @ bs))),
      sys_accept = (\<lambda>s w. (Accept_again, w)), sys_nonblock = (\<lambda>s w. (True, w)),
      sys_listen = (\<lambda>s n w. (True, w)), sys_close = (\<lambda>s w. w), ev_add = (\<lambda>s f w. (True, w)), ev_del = (\<lambda>s w. (True, w))\<rparr>"

lemma stream_ok: "sock_ok stream_ops s (\<lambda>w. take (fst w) demo_stream) snd" "mem_avail stream_ops"
  "env_ok (=) (\<lambda>w. take (fst w) demo_stream) snd" "\<forall>w. sizes_ok (take (fst w) demo_stream)"
proof -
  have grow: "take k demo_stream @ take n (drop k demo_stream) = take (k + length (take n (drop k demo_stream))) demo_stream" for k n
    by (simp add: take_add min_def split: if_splits)
  then show "sock_ok stream_ops s (\<lambda>w. take (fst w) demo_stream) snd" "mem_avail stream_ops" "env_ok (=) (\<lambda>w. take (fst w) demo_stream) snd"
    by (auto simp: sock_ok_def sock_read_ok_def sock_send_ok_def quiet_ok_def mem_avail_def env_ok_def stream_ops_def Let_def)
  have "sizes_ok demo_stream" by code_simp
  then have "sizes_ok (take k demo_stream)" for k using sizes_ok_prefix [of "take k demo_stream" "drop k demo_stream"] by simp
  then show "\<forall>w. sizes_ok (take (fst w) demo_stream)" by blast
qed

lemma event_is_a_run_witness:
  "\<exists>c sv w. event_handler stream_ops script_answer 1024 20 7 script_conn \<lparr>sv_pool = demo_pool, sv_listen = []\<rparr> (0, []) = Some (Some c, sv, w) \<and>
     state c = conn_read \<and> conn_run stream_ops script_answer (=) (\<lambda>w. take (fst w) demo_stream) script_conn (0, []) c w"
proof -
  let ?sv = "\<lparr>sv_pool = demo_pool, sv_listen = []\<rparr>"
  have "map_option (\<lambda>(r, sv, w). map_option state r) (event_handler stream_ops script_answer 1024 20 7 script_conn ?sv (0, [])) = Some (Some conn_read)"
    by code_simp
  then obtain c sv w where e: "event_handler stream_ops script_answer 1024 20 7 script_conn ?sv (0, []) = Some (Some c, sv, w)" "state c = conn_read"
    by auto
  have p: "pool_ok (sv_pool ?sv)"
    by (simp add: pool_ok_def demo_pool_def reusable_def out_room_def script_conn3_def sizeof_header_def READ_BUFFER_HIGHWAT_def)
  have z: "take (fst (0, [])) demo_stream = []" "snd (0 :: nat, []) = ([] :: bytes)" by simp_all
  show ?thesis
    using event_is_a_run [OF stream_ok script_fresh(1) z conn_run.start p e(1)] e by blast
qed

text \<open>Opening and closing the doors: all listening connections get the same events, unless an event cannot be deleted.\<close>

theorem do_accept_all:
  assumes "\<forall>s w. fst (ev_del ops s w)" "do_accept_new_conns ops backlog do_accept cs w = (cs', w')"
  shows "(\<forall>c\<in>set cs'. ev_flags c = (if do_accept then EV_READ_PERSIST else 0)) \<and> map sfd cs' = map sfd cs"
  using assms(2)
proof (induction cs arbitrary: w cs')
  case (Cons c cs)
  obtain r c1 w1 where u: "update_event ops c (if do_accept then EV_READ_PERSIST else 0) w = (r, c1, w1)" by (metis prod_cases3)
  obtain r2 w2 where l: "sys_listen ops (sfd c1) (if do_accept then backlog else 0) w1 = (r2, w2)" by fastforce
  obtain cs1 w3 where d: "do_accept_new_conns ops backlog do_accept cs w2 = (cs1, w3)" by fastforce
  have "ev_flags c1 = (if do_accept then EV_READ_PERSIST else 0)" "sfd c1 = sfd c"
    using u assms(1) by (auto simp: update_event_def split: prod.splits if_splits) (metis fst_conv)+
  moreover have "cs' = c1 # cs1" "w' = w3" using Cons.prems u l d by simp_all
  ultimately show ?case using Cons.IH [of w2 cs1] d by simp
qed simp

lemma do_accept_all_witness:
  "\<exists>cs w. do_accept_new_conns script_ops 1024 False [script_conn] script_world = (cs, w) \<and> (\<forall>c\<in>set cs. ev_flags c = 0) \<and> map sfd cs = [7]"
proof -
  obtain cs w where r: "do_accept_new_conns script_ops 1024 False [script_conn] script_world = (cs, w)" by fastforce
  have "\<forall>s w. fst (ev_del script_ops s w)" by (simp add: script_ops_def)
  from do_accept_all [OF this r] show ?thesis using r by (simp add: script_conn_def)
qed

end
