(* ===== verification/Srv_Faults.thy ===== *)
theory Srv_Faults
  imports Srv_Life
begin

text \<open>
  Properties of single operations of the server: what a response holds, when every request has
  been answered, how far a buffer grows, and what requests outside the limits of the protocol do.
\<close>

section \<open>Responses\<close>

text \<open>A client's reading of the results: strings with their lengths, to the end.\<close>

function get_results :: "bytes \<Rightarrow> bytes list option" where
  "get_results bs =
     (if bs = [] then Some []
      else case read_le32 bs of None \<Rightarrow> None
        | Some n \<Rightarrow>
            if length bs < 4 + unat n then None
            else map_option ((#) (take (unat n) (drop 4 bs))) (get_results (drop (4 + unat n) bs)))"
  by pat_completeness auto
termination
  by (relation "measure length") auto

declare get_results.simps [simp del]

lemma get_results_cons:
  "length s < 2 ^ 32 \<Longrightarrow> get_results (le32 (of_nat (length s)) @ s @ rest) = map_option ((#) s) (get_results rest)"
proof -
  assume "length s < 2 ^ 32"
  then have "unat (of_nat (length s) :: u32) = length s" by (simp add: unat_of_nat take_bit_nat_eq_self)
  moreover have "le32 (of_nat (length s)) \<noteq> []" using length_le32 [of "of_nat (length s)"] by fastforce
  ultimately show ?thesis by (subst get_results.simps) simp
qed

lemma get_results_concat:
  "\<forall>s\<in>set vs. length s < 2 ^ 32 \<Longrightarrow> get_results (concat (map (\<lambda>s. le32 (of_nat (length s)) @ s) vs)) = Some vs"
proof (induction vs)
  case (Cons s vs)
  then show ?case using get_results_cons [of s "concat (map (\<lambda>s. le32 (of_nat (length s)) @ s) vs)"] by simp
qed (simp add: get_results.simps)

text \<open>A response holds a number and every result of \<^verbatim>\<open>Get\<close>; the number is at most that of the results, and it is
  smaller when the client asked for fewer.\<close>

theorem reply_body_round_trip:
  assumes "\<forall>s\<in>set vRes. length s < 2 ^ 32" "length vRes < 2 ^ 32"
  shows "read_le32 (reply_body (reply_number number vRes) vRes) = Some (reply_number number vRes) \<and>
    get_results (drop 4 (reply_body (reply_number number vRes) vRes)) = Some vRes \<and>
    unat (reply_number number vRes) = min (length vRes) (if number = 0 then 10 else unat number)"
proof -
  have "unat (of_nat (length vRes) :: u32) = length vRes" using assms(2) by (simp add: unat_of_nat take_bit_nat_eq_self)
  then have "unat (reply_number number vRes) = min (length vRes) (if number = 0 then 10 else unat number)"
    by (simp add: reply_number_def DEFAULT_GET_NUMBER_def Let_def)
  then show ?thesis using get_results_concat [OF assms(1)] by (simp add: reply_body_def)
qed

lemma reply_body_round_trip_witness:
  "get_results (drop 4 (reply_body (reply_number 1 [[97], [98, 99]]) [[97], [98, 99]])) = Some [[97], [98, 99]] \<and>
   unat (reply_number 1 [[97], [98, 99 :: byte]]) = 1"
  using reply_body_round_trip [of "[[97], [98, 99]]" 1] by simp

text \<open>C31: an error reply is the reply to a successful request with the result ``Out of memory'': its status byte is 0.\<close>

theorem error_reply_is_success:
  assumes "out_room c" "write_and_free c = Some error_reply"
  shows "\<exists>c1 c2. write_bin_error ops c RESPONSE_ENOMEM 0 w = Some (c1, w) \<and> write_bin_response ops c (length error_reply) w = Some (c2, w) \<and>
    pending c1 = Some (header_image 0 (padding c) (length error_reply) @ error_reply) \<and> pending c2 = pending c1"
proof -
  obtain c1 where "write_bin_error ops c RESPONSE_ENOMEM 0 w = Some (c1, w)"
    "pending c1 = Some (header_image 0 (padding c) (length error_reply) @ error_reply)"
    using write_bin_error_ok [OF assms(1)] by metis
  moreover obtain c2 where "write_bin_response ops c (length error_reply) w = Some (c2, w)"
    "pending c2 = Some (header_image 0 (padding c) (length error_reply) @ take (length error_reply) error_reply)"
    using write_bin_response_ok [OF assms, of "length error_reply"] by (metis order_refl)
  ultimately show ?thesis by simp
qed

lemma error_reply_is_success_witness:
  "\<exists>c1 c2. write_bin_error script_ops (script_conn\<lparr>write_and_free := Some error_reply\<rparr>) RESPONSE_ENOMEM 0 script_world = Some (c1, script_world) \<and>
    write_bin_response script_ops (script_conn\<lparr>write_and_free := Some error_reply\<rparr>) (length error_reply) script_world = Some (c2, script_world) \<and>
    pending c2 = pending c1"
proof -
  have "out_room (script_conn\<lparr>write_and_free := Some error_reply\<rparr>)"
    by (simp add: out_room_def script_conn_def sizeof_header_def)
  from error_reply_is_success [OF this, of script_ops script_world] show ?thesis by auto
qed

text \<open>C27: \<^verbatim>\<open>transmit\<close> sends a prefix of what is pending and keeps the rest, wherever the socket cuts it; it reports
  completion only when nothing is left.\<close>

theorem transmit_sends_pending:
  assumes "sock_ok ops (sfd c) recvd sent" "out_ok c" "pending c = Some p"
  shows "\<exists>r c' w' n. transmit ops c w = Some (r, c', w') \<and> n \<le> length p \<and> sent w' = sent w @ take n p \<and>
    pending c' = Some (drop n p) \<and> recvd w' = recvd w \<and> (r = TRANSMIT_COMPLETE \<longrightarrow> p = []) \<and>
    (state c' = conn_closing \<longleftrightarrow> r = TRANSMIT_HARD_ERROR \<or> state c = conn_closing)"
proof -
  obtain r c' w' n where t: "transmit ops c w = Some (r, c', w')" "n \<le> length p" "sent w' = sent w @ take n p"
    "pending c' = Some (drop n p)" "recvd w' = recvd w" "r = TRANSMIT_COMPLETE \<Longrightarrow> p = []"
    "state c' = (if r = TRANSMIT_HARD_ERROR then conn_closing else state c)"
    using transmit_ok [OF assms, of w] by metis
  then show ?thesis by (intro exI [of _ r] exI [of _ c'] exI [of _ w'] exI [of _ n]) simp
qed

lemma transmit_sends_pending_witness:
  "\<exists>c p r c' w' n. pending c = Some p \<and> length p = 21 \<and> transmit script_ops c script_world = Some (r, c', w') \<and>
    scr_sent w' = take n p \<and> pending c' = Some (drop n p)"
proof -
  have "out_room script_conn" by (simp add: out_room_def script_conn_def sizeof_header_def)
  then obtain c where c: "out_ok c" "pending c = Some (header_image 0 (padding script_conn) (length error_reply) @ error_reply)"
    using write_bin_error_ok [of script_conn script_ops script_world] by metis
  define p where "p = header_image 0 (padding script_conn) (length error_reply) @ error_reply"
  have p: "pending c = Some p" "length p = 21" "scr_sent script_world = []"
    using c(2) by (simp_all add: p_def script_padding header_image_def error_reply_def lit_def script_world_def)
  obtain r c' w' n where "transmit script_ops c script_world = Some (r, c', w')" "scr_sent w' = scr_sent script_world @ take n p"
    "pending c' = Some (drop n p)"
    using transmit_sends_pending [OF script_ok(1) c(1) p(1), of script_world] by blast
  then show ?thesis using p by (intro exI [of _ c] exI [of _ p] exI [of _ r] exI [of _ c'] exI [of _ w'] exI [of _ n]) simp
qed

section \<open>Buffers\<close>

lemma out_string_rsize: "out_string ops c str w = Some (c', w') \<Longrightarrow> rsize c' = rsize c"
  by (auto simp: out_string_def add_msghdr_def reset_messages_def Let_def Option.bind_eq_Some_conv
      split: prod.splits if_splits option.splits)

lemma trn_room_rsize:
  assumes "trn_room ops left c w = Some (m, left', c', w')"
  shows "rsize c' = rsize c \<and> left' \<le> left \<or> rsize c' = 2 * rsize c \<and> left = Suc left' \<and> 0 < rsize c"
  using assms out_string_rsize
  by (auto simp: trn_room_def Option.bind_eq_Some_conv split: if_splits prod.splits option.splits) force+

lemma trn_loop_rsize:
  "trn_loop ops left g c w = Some (r, c', w') \<Longrightarrow> 0 \<le> rsize c \<Longrightarrow> rsize c' \<le> rsize c * 2 ^ left"
proof (induction ops left g c w rule: trn_loop.induct)
  case (1 ops left g c w)
  obtain m left' c1 w1 where rm: "trn_room ops left c w = Some (m, left', c1, w1)"
    using 1(2) by (subst (asm) trn_loop.simps) (auto split: option.splits)
  have room: "rsize c1 * 2 ^ left' \<le> rsize c * 2 ^ left \<and> 0 \<le> rsize c1 \<and> rsize c1 \<le> rsize c * 2 ^ left"
    using trn_room_rsize [OF rm]
  proof
    assume a: "rsize c1 = rsize c \<and> left' \<le> left"
    then have "rsize c * 2 ^ left' \<le> rsize c * 2 ^ left" using 1(3) by (intro mult_left_mono power_increasing) auto
    moreover have "rsize c * 1 \<le> rsize c * 2 ^ left" using 1(3) by (intro mult_left_mono) auto
    ultimately show ?thesis using a 1(3) by simp
  next
    assume a: "rsize c1 = 2 * rsize c \<and> left = Suc left' \<and> 0 < rsize c"
    then have "rsize c * 2 * 1 \<le> rsize c * 2 * 2 ^ left'" by (intro mult_left_mono) auto
    then show ?thesis using a by simp
  qed
  show ?case
  proof (cases m)
    case Room
    obtain q c2 w2 where q: "trn_recv ops c1 w1 = Some (q, c2, w2)"
      using 1(2) rm Room by (subst (asm) trn_loop.simps) (auto split: option.splits)
    have size: "rsize c2 = rsize c1"
      using q by (auto simp: trn_recv_def Option.bind_eq_Some_conv split: prod.splits io_read.splits)
    show ?thesis
    proof (cases "\<exists>bs. q = Read_bytes bs \<and> length bs = trn_avail c1")
      case True
      then obtain bs where bs: "q = Read_bytes bs" "length bs = trn_avail c1" by blast
      have "trn_loop ops left' READ_DATA_RECEIVED c2 w2 = Some (r, c', w')"
        using 1(2) rm Room q bs by (subst (asm) trn_loop.simps) simp
      from 1(1) [OF rm refl Room refl refl q refl bs(1) refl bs(2) this] show ?thesis using room size by simp
    next
      case False
      then have "c' = c2" using 1(2) rm Room q by (subst (asm) trn_loop.simps) (auto split: io_read.splits)
      then show ?thesis using room size by simp
    qed
  qed (use 1(2) rm room in \<open>subst (asm) trn_loop.simps, simp\<close>)+
qed

text \<open>C28: one call of \<^verbatim>\<open>try_read_network\<close> grows the buffer at most sixteen times.\<close>

theorem read_growth_bounded:
  assumes "try_read_network ops c w = Some (r, c', w')" "0 \<le> rsize c"
  shows "rsize c' \<le> 16 * rsize c"
proof -
  obtain c1 where "repack c = Some c1" "trn_loop ops 4 READ_NO_DATA_RECEIVED c1 w = Some (r, c', w')"
    using assms(1) by (auto simp: try_read_network_def Option.bind_eq_Some_conv)
  moreover from this(1) have "rsize c1 = rsize c"
    by (auto simp: repack_def Option.bind_eq_Some_conv split: if_splits)
  ultimately show ?thesis using trn_loop_rsize [of ops 4 READ_NO_DATA_RECEIVED c1 w r c' w'] assms(2) by simp
qed

lemma read_growth_bounded_witness:
  "\<exists>r c' w'. try_read_network script_ops script_conn script_world = Some (r, c', w') \<and> rsize c' = 16 \<and> rsize c' \<le> 16 * 8"
proof -
  have "map_option (\<lambda>(r, c, w). rsize c) (try_read_network script_ops script_conn script_world) = Some 16" by code_simp
  then obtain r c' w' where t: "try_read_network script_ops script_conn script_world = Some (r, c', w')" "rsize c' = 16" by auto
  have "rsize script_conn = 8" by (simp add: script_conn_def)
  then show ?thesis using read_growth_bounded [OF t(1)] t by auto
qed

section \<open>Requests outside the limits\<close>

text \<open>C30: a key that has no terminator between it and the end of the buffer is read beyond the buffer, although the length
  of the body says where it ends; the client of the repository sends such keys.\<close>

theorem unterminated_key_undefined:
  assumes "ritem c = Some item" "unat (rq_bodylen (binary_header c)) \<le> item"
    and "0 \<notin> set (drop (item - unat (rq_bodylen (binary_header c)) + 4) (rbuf c))"
  shows "complete_nread ops answer c w = None"
proof -
  define n where "n = unat (rq_bodylen (binary_header c))"
  have n: "n \<le> item" "0 \<notin> set (drop (item - n + 4) (rbuf c))" using assms(2,3) by (simp_all add: n_def)
  have d: "ptr_add item (- int n) = Some (item - n)" using n(1) by (auto simp: ptr_add_def nat_diff_distrib)
  have "takeWhile (\<lambda>b. b \<noteq> 0) (drop (item - n + 4) (rbuf c)) = drop (item - n + 4) (rbuf c)"
    using n(2) by (auto simp: takeWhile_eq_all_conv)
  then have "strlen_at (rbuf c) (item - n + 4) = None" by (simp only: strlen_at_def Let_def) simp
  then have k: "request_key (rbuf c) (item - n + 4) n = None" by (simp add: request_key_def)
  show ?thesis unfolding complete_nread_def Let_def assms(1) n_def [symmetric] by (simp add: d k)
qed

lemma unterminated_key_undefined_witness:
  "complete_nread script_ops script_answer
     (script_conn\<lparr>rbuf := [0x80, 0, 0, 0, 0, 0, 0, 5, 0, 0, 0, 0, 107], rsize := 13, rcurr := 13, ritem := Some 13,
        binary_header := \<lparr>rq_magic = 0x80, rq_opcode = 0, rq_bodylen = 5\<rparr>\<rparr>) script_world = None"
  by (rule unterminated_key_undefined [where item = 13]) code_simp+

lemma negative_leftovers:
  assumes "rlbytes c < 0" "0 < rbytes c" "ritem c = Some (rcurr c)" "int (rcurr c) < int (unat (rq_bodylen (binary_header c)))"
    and "state c = conn_nread" "drive_step ops answer c nreqs w = Some (c1, nreqs1, stop, w1)"
  shows "drive_step ops answer c1 nreqs1 w1 = None"
proof -
  let ?n = "unat (rq_bodylen (binary_header c))"
  have lt: "rlbytes c < int (rbytes c)" using assms(1) by simp
  have "take_leftovers c = (case ptr_add (rcurr c) (rlbytes c) of None \<Rightarrow> None
    | Some p \<Rightarrow> Some (c\<lparr>rbuf := rbuf c, ritem := Some p, rlbytes := 0, rcurr := p, rbytes := nat (int (rbytes c) - rlbytes c)\<rparr>))"
    using lt assms(3) by (simp add: take_leftovers_def Let_def split: option.split)
  then obtain p where p: "ptr_add (rcurr c) (rlbytes c) = Some p"
    "c1 = c\<lparr>rbuf := rbuf c, ritem := Some p, rlbytes := 0, rcurr := p, rbytes := nat (int (rbytes c) - rlbytes c)\<rparr>"
    using assms by (auto simp: drive_step_def step_nread_def Option.bind_eq_Some_conv split: option.splits)
  have "int p < int ?n" using p(1) assms(1,4) by (auto simp: ptr_add_def split: if_splits)
  then have "ptr_add p (- int ?n) = None" by (simp add: ptr_add_def)
  moreover have "unat (rq_bodylen (binary_header c1)) = ?n" "ritem c1 = Some p" "state c1 = conn_nread" "rlbytes c1 = 0"
    using p(2) assms(5) by simp_all
  ultimately show ?thesis by (simp add: drive_step_def step_nread_def complete_nread_def Let_def)
qed

text \<open>C29: a body that is announced as 2 GB or more makes the count of missing bytes negative; when a byte of it has
  arrived, the behaviour of the machine is undefined within two rounds.\<close>

theorem huge_body_undefined:
  assumes "conn_ok s pad c" "state c = conn_parse_cmd" "sizeof_header < rbytes c"
    and "read_header (unparsed c) = Some q" "rq_magic q = REQ" "2 ^ 31 \<le> unat (rq_bodylen q)"
    and "drive_step ops answer c nreqs w = Some (c1, nreqs1, stop1, w1)"
    and "drive_step ops answer c1 nreqs1 w1 = Some (c2, nreqs2, stop2, w2)"
  shows "drive_step ops answer c2 nreqs2 w2 = None"
proof -
  define h where "h = take sizeof_header (unparsed c)"
  have len: "length (unparsed c) = rbytes c" by (rule length_unparsed [OF assms(1)])
  have h: "mem_slice (rbuf c) (rcurr c) sizeof_header = Some h" "length h = sizeof_header" "unparsed c = h @ drop sizeof_header (unparsed c)"
    using assms(1,3) len append_take_drop_id [of sizeof_header "unparsed c"] by (auto simp: h_def mem_slice_def unparsed_def conn_ok_def)
  then have q: "read_header h = Some q" using assms(4) read_header_append by (metis order_refl)
  define L where "L = as_int (uint (rq_bodylen q))"
  define N where "N = unat (rq_bodylen q)"
  have N: "uint (rq_bodylen q) = int N" "N < 2 ^ 32" "2 ^ 31 \<le> N"
    using unsigned_less [of "rq_bodylen q", where 'a = nat] assms(6) by (simp_all add: N_def)
  have "int N div 2 ^ 31 = 1" by (rule int_div_pos_eq [where r = "int N - 2 ^ 31"]) (use N in simp_all)
  then have "bit (int N) 31" by (simp only: bit_iff_odd odd_one not_False_eq_True)
  moreover have "take_bit 32 (int N) = int N" using N(2) by (intro take_bit_int_eq_self) simp_all
  ultimately have L: "L = int N - 2 ^ 32"
    unfolding L_def as_int_def N(1) by (simp add: signed_take_bit_eq_take_bit_minus)
  let ?m = "\<lparr>msg_iov = 0, msg_iovlen = 0, msg_namelen = request_addr_size c\<rparr>"
  let ?c0 = "c\<lparr>binary_header := q\<rparr>"
  let ?c1 = "?c0\<lparr>msgcurr := 0, iovused := 0, msgbytes := 0, msgused := 1, msglist := (msglist c)[0 := Some ?m], cmd := uint (rq_opcode q)\<rparr>"
  have "out_room ?c0" using assms(1) by (simp add: conn_ok_def out_room_def)
  note fresh = add_msghdr_fresh [OF this, of ops w]
  have "bin_read_key ops ?c1 w = Some (?c1\<lparr>rlbytes := L, ritem := Some (rcurr c + sizeof_header), state := conn_nread\<rparr>, w)"
  proof -
    have "L < 0" using L N(2) by simp
    moreover have "0 \<le> rsize c - int (rcurr c + sizeof_header)" using assms(1,3) by (simp add: conn_ok_def)
    ultimately have "\<not> rsize c - int (rcurr c + sizeof_header) < L" by linarith
    then show ?thesis by (simp add: bin_read_key_def grow_rbuf_def Let_def L_def)
  qed
  then have "c1 = ?c1\<lparr>rlbytes := L, ritem := Some (rcurr c + sizeof_header), state := conn_nread, rbytes := rbytes c - sizeof_header, rcurr := rcurr c + sizeof_header\<rparr>"
    using assms(2,3,5,7) h(1) q fresh
    by (simp add: drive_step_def step_parse_cmd_def try_read_command_def dispatch_bin_command_def split: if_splits)
  then have c1: "rlbytes c1 = L" "rbytes c1 = rbytes c - sizeof_header" "ritem c1 = Some (rcurr c1)" "state c1 = conn_nread"
    "binary_header c1 = q" "rcurr c1 = rcurr c + sizeof_header"
    by simp_all
  have "int (rcurr c1) < int N" using assms(1,3) c1(6) N(3) by (simp add: conn_ok_def INT_MAX_def)
  then have "int (rcurr c1) < int (unat (rq_bodylen (binary_header c1)))" unfolding c1(5) N_def .
  moreover have "rlbytes c1 < 0" "0 < rbytes c1" using c1(1,2) L N(2) assms(3) by simp_all
  ultimately show ?thesis using c1(3,4) assms(8) by (intro negative_leftovers)
qed

lemma huge_body_undefined_witness:
  "\<exists>c1 n1 b1 w1. drive_step script_ops script_answer
       (script_conn\<lparr>state := conn_parse_cmd, rbuf := [0x80, 0, 0, 0, 0xff, 0xff, 0xff, 0xff, 1], rsize := 9, rbytes := 9\<rparr>) 20 script_world = Some (c1, n1, b1, w1) \<and>
     (\<forall>c2 n2 b2 w2. drive_step script_ops script_answer c1 n1 w1 = Some (c2, n2, b2, w2) \<longrightarrow> drive_step script_ops script_answer c2 n2 w2 = None)"
proof -
  let ?c = "script_conn\<lparr>state := conn_parse_cmd, rbuf := [0x80, 0, 0, 0, 0xff, 0xff, 0xff, 0xff, 1], rsize := 9, rbytes := 9\<rparr>"
  have ok: "conn_ok 7 (padding ?c) ?c"
    by (simp add: conn_ok_def out_room_def script_conn_def sizeof_header_def INT_MAX_def)
  have st: "state ?c = conn_parse_cmd" "sizeof_header < rbytes ?c" by (simp_all add: sizeof_header_def)
  have hd: "read_header (unparsed ?c) = Some \<lparr>rq_magic = 0x80, rq_opcode = 0, rq_bodylen = 0xffffffff\<rparr>" by code_simp
  have "drive_step script_ops script_answer ?c 20 script_world \<noteq> None" unfolding Option.is_none_def [symmetric] by code_simp
  then obtain c1 n1 b1 w1 where one: "drive_step script_ops script_answer ?c 20 script_world = Some (c1, n1, b1, w1)" by auto
  have "drive_step script_ops script_answer c2 n2 w2 = None" if "drive_step script_ops script_answer c1 n1 w1 = Some (c2, n2, b2, w2)" for c2 n2 b2 w2
    by (rule huge_body_undefined [OF ok st hd _ _ one that]) (simp_all add: REQ_def)
  with one show ?thesis by blast
qed

end
