(* ===== verification/Srv_Log.thy ===== *)
theory Srv_Log
  imports Pm_Util Srv_Sys
begin

unbundle bit_operations_syntax

text \<open>
  log.cpp: the levels, the log file, the two buffers and the composition of a line. What the logger
  asks of the system is a record of operations over a world. \<^const>\<open>None\<close> is undefined behaviour, or a
  write that is interrupted for ever. Messages for the terminal are left out.
\<close>

section \<open>State\<close>

datatype write_result = Wrote nat | Interrupted | Write_failed

record 'w log_ops =
  lo_fs :: "'w fs_ops"
  lo_writable :: "bytes \<Rightarrow> 'w \<Rightarrow> bool"
  lo_open :: "bytes \<Rightarrow> bool \<Rightarrow> 'w \<Rightarrow> int \<times> 'w" \<comment> \<open>for appending; creating the file or not\<close>
  lo_close :: "int \<Rightarrow> 'w \<Rightarrow> 'w"
  lo_write :: "int \<Rightarrow> bytes \<Rightarrow> 'w \<Rightarrow> write_result \<times> 'w"
  lo_calloc :: "nat \<Rightarrow> 'w \<Rightarrow> bytes option \<times> 'w"
  lo_thread :: "'w \<Rightarrow> int \<times> 'w"

record log_buffer =
  lb_mem :: "bytes option"
  lb_wpos :: nat

record logger =
  lg_level :: int
  lg_nerror :: int
  lg_type :: int
  lg_inited :: int
  lg_name :: "bytes option"
  lg_fd :: int
  lg_max_buffer_size :: nat
  lg_write_interval :: int
  lg_buffer_index :: nat
  lg_buffer :: "log_buffer list"

definition log_levels :: "(bytes \<times> int) list" where
  "log_levels = [(lit ''LOG_EMERG'', 0), (lit ''LOG_ALERT'', 1), (lit ''LOG_CRIT'', 2), (lit ''LOG_ERR'', 3), (lit ''LOG_WARN'', 4),
     (lit ''LOG_NOTICE'', 5), (lit ''LOG_INFO'', 6), (lit ''LOG_DEBUG'', 7)]"

definition LOG_EMERG :: int where "LOG_EMERG = 0"
definition LOG_DEBUG :: int where "LOG_DEBUG = 7"
definition GENERIC_FILE :: int where "GENERIC_FILE = 1"
definition STDERR_FILENO :: int where "STDERR_FILENO = 2"
definition LOG_MAX_LEN :: nat where "LOG_MAX_LEN = 1024"

lemmas log_consts = LOG_EMERG_def LOG_DEBUG_def GENERIC_FILE_def STDERR_FILENO_def LOG_MAX_LEN_def

text \<open>The global, zero before anything is initialised.\<close>

definition zero_logger :: logger where
  "zero_logger = \<lparr>lg_level = 0, lg_nerror = 0, lg_type = 0, lg_inited = 0, lg_name = None, lg_fd = 0, lg_max_buffer_size = 0,
     lg_write_interval = 0, lg_buffer_index = 0, lg_buffer = [\<lparr>lb_mem = None, lb_wpos = 0\<rparr>, \<lparr>lb_mem = None, lb_wpos = 0\<rparr>]\<rparr>"

section \<open>Levels\<close>

definition ascii_lower :: "byte \<Rightarrow> byte" where
  "ascii_lower b = (if 65 \<le> b \<and> b \<le> 90 then b + 32 else b)"

text \<open>\<^verbatim>\<open>strcasestr(hay, needle) != NULL\<close>\<close>

fun strcasestr :: "bytes \<Rightarrow> bytes \<Rightarrow> bool" where
  "strcasestr [] needle = (needle = [])"
| "strcasestr (b # hay) needle =
     (map ascii_lower (take (length needle) (b # hay)) = map ascii_lower needle \<or> strcasestr hay needle)"

fun first_level :: "(bytes \<times> int) list \<Rightarrow> bytes \<Rightarrow> int" where
  "first_level [] s = - 1"
| "first_level ((key, lev) # rest) s = (if strcasestr s key then lev else first_level rest s)"

definition parse_loglevel :: "bytes \<Rightarrow> int" where
  "parse_loglevel loglevel = first_level log_levels loglevel"

definition log_level_up :: "logger \<Rightarrow> logger" where
  "log_level_up l = (if lg_level l < LOG_DEBUG then l\<lparr>lg_level := lg_level l + 1\<rparr> else l)"

definition log_level_down :: "logger \<Rightarrow> logger" where
  "log_level_down l = (if LOG_EMERG < lg_level l then l\<lparr>lg_level := lg_level l - 1\<rparr> else l)"

definition log_level_set :: "int \<Rightarrow> logger \<Rightarrow> logger" where
  "log_level_set lev l = l\<lparr>lg_level := max LOG_EMERG (min lev LOG_DEBUG)\<rparr>"

definition log_loggable :: "int \<Rightarrow> logger \<Rightarrow> bool" where
  "log_loggable lev l \<longleftrightarrow> \<not> lg_level l < lev"

section \<open>The file\<close>

text \<open>
  The result and the name, which \<^verbatim>\<open>strrchr\<close> and a zero byte shorten to its directory while the
  directories are made, and for good when that fails.
\<close>

definition strrchr :: "bytes \<Rightarrow> byte \<Rightarrow> nat option" where
  "strrchr s c = (let after = takeWhile (\<lambda>b. b \<noteq> c) (rev s) in if length after = length s then None else Some (length s - 1 - length after))"

definition log_open_file :: "'w log_ops \<Rightarrow> bytes \<Rightarrow> 'w \<Rightarrow> int \<times> bytes \<times> 'w" where
  "log_open_file ops name w =
     (if lo_writable ops name w then
        (case lo_open ops name False w of (fd, w1) \<Rightarrow> (if fd < 0 then - 1 else fd, name, w1))
      else
        (case lo_open ops name True w of (fd, w1) \<Rightarrow>
           if 0 < fd then (fd, name, w1)
           else case strrchr name 47 of
               None \<Rightarrow> (- 1, name, w1)
             | Some d \<Rightarrow>
                 (case mkdir_recursive (lo_fs ops) (take d name) w1 of (made, w2) \<Rightarrow>
                    if \<not> made then (- 1, take d name, w2)
                    else (case lo_open ops name True w2 of (fd2, w3) \<Rightarrow> (if fd2 < 0 then - 1 else fd2, name, w3)))))"

text \<open>A write that was taken in part counts as done.\<close>

partial_function (option) my_write :: "'w log_ops \<Rightarrow> int \<Rightarrow> bytes \<Rightarrow> 'w \<Rightarrow> (int \<times> 'w) option" where
  "my_write ops fd buffer w =
     (case lo_write ops fd buffer w of
        (Interrupted, w') \<Rightarrow> my_write ops fd buffer w'
      | (Write_failed, w') \<Rightarrow> Some (- 1, w')
      | (Wrote n, w') \<Rightarrow> Some (0, w'))"

declare my_write.simps [code]

section \<open>Initialisation\<close>

text \<open>The two buffers; an allocation that fails leaves the rest as it was.\<close>

fun init_buffers :: "'w log_ops \<Rightarrow> nat \<Rightarrow> nat \<Rightarrow> log_buffer list \<Rightarrow> 'w \<Rightarrow> bool \<times> log_buffer list \<times> 'w" where
  "init_buffers ops sz 0 bufs w = (True, bufs, w)"
| "init_buffers ops sz (Suc n) bufs w =
     (case lo_calloc ops sz w of
        (None, w') \<Rightarrow> (False, bufs, w')
      | (Some m, w') \<Rightarrow> init_buffers ops sz n (bufs[length bufs - Suc n := \<lparr>lb_mem = Some m, lb_wpos = 0\<rparr>]) w')"

text \<open>The name is copied before it is compared with \<^verbatim>\<open>NULL\<close>; memory of the two buffers that was released is \<^const>\<open>None\<close> here.\<close>

definition log_init_file :: "'w log_ops \<Rightarrow> bytes option \<Rightarrow> logger \<Rightarrow> 'w \<Rightarrow> (int \<times> logger \<times> 'w) option" where
  "log_init_file ops name l w = do {
     nm \<leftarrow> name;
     let l1 = l\<lparr>lg_max_buffer_size := 1024 * 1024 * 10, lg_write_interval := 100, lg_buffer_index := 0, lg_name := Some nm\<rparr>;
     (if nm = [] then Some (0, l1\<lparr>lg_fd := STDERR_FILENO\<rparr>, w)
      else case log_open_file ops nm w of (fd, _, w1) \<Rightarrow>
        if fd < 0 then Some (0, l1\<lparr>lg_fd := STDERR_FILENO\<rparr>, w1)
        else case init_buffers ops (lg_max_buffer_size l1) 2 (lg_buffer l1) w1 of (ok, bufs, w2) \<Rightarrow>
          let freed = l1\<lparr>lg_fd := fd, lg_buffer := map (\<lambda>b. b\<lparr>lb_mem := None\<rparr>) bufs\<rparr>
          in if \<not> ok then Some (- 1, freed, w2)
             else case lo_thread ops w2 of (r, w3) \<Rightarrow>
               if r < 0 then Some (- 1, freed, w3)
               else Some (0, l1\<lparr>lg_fd := fd, lg_buffer := bufs, lg_inited := 1\<rparr>, w3)) }"

text \<open>\<^verbatim>\<open>type & GENERIC_FILE\<close>. Only files are implemented; the other two kinds of logger do nothing.\<close>

definition to_file :: "int \<Rightarrow> bool" where "to_file type \<longleftrightarrow> type AND GENERIC_FILE \<noteq> 0"

definition log_init :: "'w log_ops \<Rightarrow> int \<Rightarrow> bytes option \<Rightarrow> bytes option \<Rightarrow> logger \<Rightarrow> 'w \<Rightarrow> (int \<times> logger \<times> 'w) option" where
  "log_init ops type level name l w = do {
     lev \<leftarrow> level;
     let l1 = l\<lparr>lg_level := max LOG_EMERG (min (parse_loglevel lev) LOG_DEBUG), lg_type := type, lg_nerror := 0\<rparr>;
     (if to_file type then log_init_file ops name l1 w else Some (0, l1, w)) }"

text \<open>\<^verbatim>\<open>log_deinit\<close> calls the initialisation.\<close>

definition log_deinit :: "'w log_ops \<Rightarrow> logger \<Rightarrow> 'w \<Rightarrow> (logger \<times> 'w) option" where
  "log_deinit ops l w =
     (if to_file (lg_type l) then do { (_, l', w') \<leftarrow> log_init_file ops (lg_name l) l w; Some (l', w') } else Some (l, w))"

definition log_deinit_file :: "'w log_ops \<Rightarrow> logger \<Rightarrow> 'w \<Rightarrow> int \<times> logger \<times> 'w" where
  "log_deinit_file ops l w =
     (let l1 = l\<lparr>lg_buffer := map (\<lambda>b. b\<lparr>lb_mem := None\<rparr>) (lg_buffer l), lg_name := None\<rparr>
      in (0, l1, if lg_fd l < 0 \<or> lg_fd l = STDERR_FILENO then w else lo_close ops (lg_fd l) w))"

definition log_reopen :: "'w log_ops \<Rightarrow> logger \<Rightarrow> 'w \<Rightarrow> (logger \<times> 'w) option" where
  "log_reopen ops l w =
     (if to_file (lg_type l) then do {
        nm \<leftarrow> lg_name l;
        let (fd, nm', w') = log_open_file ops nm (lo_close ops (lg_fd l) w);
        Some (l\<lparr>lg_fd := fd, lg_name := Some nm'\<rparr>, w') }
      else Some (l, w))"

section \<open>Lines\<close>

text \<open>
  \<^verbatim>\<open>_log\<close>: the header and the formatted message in a buffer of \<^const>\<open>LOG_MAX_LEN\<close> bytes. \<^verbatim>\<open>snprintf\<close> returns
  the length it would have liked to write, so that a long line makes \<^verbatim>\<open>buf[len - 1]\<close>, \<^verbatim>\<open>buf[len]\<close> or the
  size passed to \<^verbatim>\<open>vsnprintf\<close> leave the buffer.
\<close>

definition log_line :: "bytes \<Rightarrow> bytes \<Rightarrow> bytes option" where
  "log_line header body =
     (let len1 = length header; len = len1 + length body; buf = take (LOG_MAX_LEN - 1) (header @ body)
      in if LOG_MAX_LEN < len1 \<or> LOG_MAX_LEN < len \<or> len = 0 then None
         else let at_end = (if len - 1 < length buf then buf ! (len - 1) else 0)
              in if at_end = 10 then Some buf
                 else if LOG_MAX_LEN \<le> len + 1 then None
                 else Some (buf @ [10]))"

text \<open>\<^verbatim>\<open>strncpy(dst, src, n)\<close>: what is stored.\<close>

definition strncpy_bytes :: "bytes \<Rightarrow> nat \<Rightarrow> bytes" where
  "strncpy_bytes src n = (let s = take n (takeWhile (\<lambda>b. b \<noteq> 0) src) in s @ replicate (n - length s) 0)"

text \<open>
  What \<^verbatim>\<open>_log_internal\<close> does to its buffer once it has read the write position; the flag is whether a
  write failed.
\<close>

definition log_append :: "'w log_ops \<Rightarrow> int \<Rightarrow> nat \<Rightarrow> bytes \<Rightarrow> nat \<Rightarrow> log_buffer \<Rightarrow> 'w \<Rightarrow> (log_buffer \<times> bool \<times> 'w) option" where
  "log_append ops fd max_size str wpos b w = do {
     m \<leftarrow> lb_mem b;
     (if wpos + length str < max_size then do {
        m' \<leftarrow> mem_put m wpos (strncpy_bytes str (length str));
        Some (b\<lparr>lb_mem := Some m', lb_wpos := lb_wpos b + length str\<rparr>, False, w) }
      else do {
        (r, w') \<leftarrow> (if 0 < wpos then my_write ops fd (take wpos m) w else Some (0, w));
        m' \<leftarrow> mem_put m 0 (strncpy_bytes str (length str));
        Some (b\<lparr>lb_mem := Some m', lb_wpos := length str\<rparr>, r < 0, w') }) }"

text \<open>What \<^verbatim>\<open>async_write\<close> does to a buffer once it has read the write position.\<close>

definition log_flush :: "'w log_ops \<Rightarrow> int \<Rightarrow> nat \<Rightarrow> log_buffer \<Rightarrow> 'w \<Rightarrow> (log_buffer \<times> bool \<times> 'w) option" where
  "log_flush ops fd wpos b w = do {
     m \<leftarrow> lb_mem b;
     (r, w') \<leftarrow> (if 0 < wpos then my_write ops fd (take wpos m) w else Some (0, w));
     Some (b\<lparr>lb_wpos := 0\<rparr>, r < 0, w') }"

end
