(* ===== verification/Srv_Logging.thy ===== *)
theory Srv_Logging
  imports Srv_Log "HOL-Library.Multiset"
begin

text \<open>
  The threads that log and the thread that writes the buffers to the file, as an interleaving of
  their accesses to what they share. \<open>lc_logged\<close> records the lines that were copied into a buffer; no
  step reads it.
\<close>

section \<open>State\<close>

text \<open>
  A thread in \<^verbatim>\<open>_log_internal\<close>: with a line, with the index of a buffer, with its lock, with the write
  position, before the unlock. The writer: asleep, awake, and the same with a buffer.
\<close>

datatype log_pc = L_idle | L_pick bytes | L_lock nat bytes | L_have nat bytes | L_put nat nat bytes | L_unlock nat

datatype writer_pc = A_sleep | A_pick | A_lock nat | A_have nat | A_put nat nat | A_unlock nat

record 'w logging =
  lc_logger :: logger
  lc_locks :: "bool list"
  lc_threads :: "log_pc list"
  lc_writer :: writer_pc
  lc_world :: 'w
  lc_logged :: "bytes list"

definition logging_init :: "nat \<Rightarrow> logger \<Rightarrow> 'w \<Rightarrow> 'w logging" where
  "logging_init n l w = \<lparr>lc_logger = l, lc_locks = [False, False], lc_threads = replicate n L_idle, lc_writer = A_sleep,
     lc_world = w, lc_logged = []\<rparr>"

abbreviation set_thread :: "nat \<Rightarrow> log_pc \<Rightarrow> 'w logging \<Rightarrow> 'w logging" where
  "set_thread t pc s \<equiv> s\<lparr>lc_threads := (lc_threads s)[t := pc]\<rparr>"

abbreviation set_lock :: "nat \<Rightarrow> bool \<Rightarrow> 'w logging \<Rightarrow> 'w logging" where
  "set_lock i held s \<equiv> s\<lparr>lc_locks := (lc_locks s)[i := held]\<rparr>"

text \<open>The outcome of work on buffer \<open>i\<close>.\<close>

definition set_buffer :: "nat \<Rightarrow> log_buffer \<times> bool \<times> 'w \<Rightarrow> 'w logging \<Rightarrow> 'w logging" where
  "set_buffer i r s = (case r of (b, failed, w) \<Rightarrow>
     s\<lparr>lc_logger := (lc_logger s)\<lparr>lg_buffer := (lg_buffer (lc_logger s))[i := b],
          lg_nerror := (if failed then 1 else lg_nerror (lc_logger s))\<rparr>, lc_world := w\<rparr>)"

section \<open>Steps\<close>

text \<open>\<^verbatim>\<open>_log\<close> when the logger is initialised: nothing without a file, else the line.\<close>

definition l_call :: "nat \<Rightarrow> bytes \<Rightarrow> bytes \<Rightarrow> 'w logging \<Rightarrow> 'w logging option" where
  "l_call t header body s =
     (if lg_fd (lc_logger s) < 0 then Some s
      else do { line \<leftarrow> log_line header body; Some (set_thread t (if line = [] then L_idle else L_pick line) s) })"

definition l_put :: "'w log_ops \<Rightarrow> nat \<Rightarrow> nat \<Rightarrow> nat \<Rightarrow> bytes \<Rightarrow> 'w logging \<Rightarrow> 'w logging option" where
  "l_put ops t i wpos line s = do {
     r \<leftarrow> log_append ops (lg_fd (lc_logger s)) (lg_max_buffer_size (lc_logger s)) line wpos (lg_buffer (lc_logger s) ! i) (lc_world s);
     Some (set_thread t (L_unlock i) ((set_buffer i r s)\<lparr>lc_logged := lc_logged s @ [line]\<rparr>)) }"

text \<open>
  The writer wakes up. After an error it closes the file, and drops the descriptor that
  \<^verbatim>\<open>log_open_file\<close> returns.
\<close>

definition a_wake :: "'w log_ops \<Rightarrow> 'w logging \<Rightarrow> 'w logging option" where
  "a_wake ops s =
     (let l = lc_logger s
      in if lg_nerror l = 1 then do {
           nm \<leftarrow> lg_name l;
           let (fd, nm', w') = log_open_file ops nm (lo_close ops (lg_fd l) (lc_world s));
           Some (s\<lparr>lc_logger := l\<lparr>lg_fd := - 1, lg_name := Some nm'\<rparr>, lc_world := w', lc_writer := (if fd < 0 then A_sleep else A_pick)\<rparr>) }
         else Some (s\<lparr>lc_writer := A_pick\<rparr>))"

definition a_pick :: "'w logging \<Rightarrow> 'w logging" where
  "a_pick s =
     (let i = lg_buffer_index (lc_logger s)
      in s\<lparr>lc_logger := (lc_logger s)\<lparr>lg_buffer_index := (i + 1) mod 2\<rparr>, lc_writer := A_lock i\<rparr>)"

definition a_put :: "'w log_ops \<Rightarrow> nat \<Rightarrow> nat \<Rightarrow> 'w logging \<Rightarrow> 'w logging option" where
  "a_put ops i wpos s = do {
     r \<leftarrow> log_flush ops (lg_fd (lc_logger s)) wpos (lg_buffer (lc_logger s) ! i) (lc_world s);
     Some ((set_buffer i r s)\<lparr>lc_writer := A_unlock i\<rparr>) }"

inductive log_thread_step :: "'w log_ops \<Rightarrow> nat \<Rightarrow> log_pc \<Rightarrow> 'w logging \<Rightarrow> 'w logging \<Rightarrow> bool" for ops t where
  l_call: "nul_free (header @ body) \<Longrightarrow> l_call t header body s = Some s' \<Longrightarrow> log_thread_step ops t L_idle s s'"
| l_pick: "log_thread_step ops t (L_pick line) s (set_thread t (L_lock (lg_buffer_index (lc_logger s)) line) s)"
| l_lock: "\<not> lc_locks s ! i \<Longrightarrow> log_thread_step ops t (L_lock i line) s (set_thread t (L_have i line) (set_lock i True s))"
| l_wpos: "log_thread_step ops t (L_have i line) s (set_thread t (L_put i (lb_wpos (lg_buffer (lc_logger s) ! i)) line) s)"
| l_put: "l_put ops t i wpos line s = Some s' \<Longrightarrow> log_thread_step ops t (L_put i wpos line) s s'"
| l_unlock: "log_thread_step ops t (L_unlock i) s (set_thread t L_idle (set_lock i False s))"

inductive log_writer_step :: "'w log_ops \<Rightarrow> writer_pc \<Rightarrow> 'w logging \<Rightarrow> 'w logging \<Rightarrow> bool" for ops where
  a_wake: "a_wake ops s = Some s' \<Longrightarrow> log_writer_step ops A_sleep s s'"
| a_pick: "log_writer_step ops A_pick s (a_pick s)"
| a_lock: "\<not> lc_locks s ! i \<Longrightarrow> log_writer_step ops (A_lock i) s ((set_lock i True s)\<lparr>lc_writer := A_have i\<rparr>)"
| a_wpos: "log_writer_step ops (A_have i) s (s\<lparr>lc_writer := A_put i (lb_wpos (lg_buffer (lc_logger s) ! i))\<rparr>)"
| a_put: "a_put ops i wpos s = Some s' \<Longrightarrow> log_writer_step ops (A_put i wpos) s s'"
| a_unlock: "log_writer_step ops (A_unlock i) s ((set_lock i False s)\<lparr>lc_writer := A_sleep\<rparr>)"

inductive log_run :: "'w log_ops \<Rightarrow> 'w logging \<Rightarrow> 'w logging \<Rightarrow> bool" for ops s0 where
  log_start: "log_run ops s0 s0"
| log_thread: "log_run ops s0 s \<Longrightarrow> t < length (lc_threads s) \<Longrightarrow> log_thread_step ops t (lc_threads s ! t) s s' \<Longrightarrow> log_run ops s0 s'"
| log_writer: "log_run ops s0 s \<Longrightarrow> log_writer_step ops (lc_writer s) s s' \<Longrightarrow> log_run ops s0 s'"

inductive_cases log_thread_stepE: "log_thread_step ops t pc s s'"
inductive_cases log_writer_stepE: "log_writer_step ops pc s s'"

section \<open>One buffer\<close>

text \<open>A file system on which every write is taken whole, or interrupted and repeated.\<close>

definition writes_ok :: "'w log_ops \<Rightarrow> ('w \<Rightarrow> bytes) \<Rightarrow> bool" where
  "writes_ok ops content \<longleftrightarrow>
     (\<forall>fd buf w r w'. 0 \<le> fd \<longrightarrow> lo_write ops fd buf w = (r, w') \<longrightarrow>
        r = Wrote (length buf) \<and> content w' = content w @ buf \<or> r = Interrupted \<and> content w' = content w)"

lemma my_write_ok:
  assumes "my_write ops fd buf w = Some (r, w')" "writes_ok ops content" "0 \<le> fd"
  shows "r = 0 \<and> content w' = content w @ buf"
proof -
  let ?P = "\<lambda>(ops :: 'a log_ops) fd buf w (y :: int \<times> 'a).
    writes_ok ops content \<longrightarrow> 0 \<le> fd \<longrightarrow> fst y = 0 \<and> content (snd y) = content w @ buf"
  have "?P ops fd buf w (r, w')"
  proof (rule my_write.raw_induct [where P = ?P, OF _ assms(1)])
    fix f and ops :: "'a log_ops" and fd buf w and y :: "int \<times> 'a"
    assume IH: "\<And>ops fd buf w y. f ops fd buf w = Some y \<Longrightarrow> ?P ops fd buf w y"
      and body: "(case lo_write ops fd buf w of (Interrupted, w') \<Rightarrow> f ops fd buf w' | (Write_failed, w') \<Rightarrow> Some (- 1, w')
        | (Wrote n, w') \<Rightarrow> Some (0, w')) = Some y"
    show "?P ops fd buf w y"
    proof (intro impI)
      assume ok: "writes_ok ops content" "0 \<le> fd"
      obtain r w' where r: "lo_write ops fd buf w = (r, w')" by (cases "lo_write ops fd buf w")
      consider "r = Wrote (length buf)" "content w' = content w @ buf" | "r = Interrupted" "content w' = content w"
        using ok r unfolding writes_ok_def by blast
      then show "fst y = 0 \<and> content (snd y) = content w @ buf"
      proof cases
        case 2
        then show ?thesis using body r IH [of ops fd buf w' y] ok by simp
      qed (use body r in auto)
    qed
  qed
  then show ?thesis using assms by simp
qed

definition line_ok :: "bytes \<Rightarrow> bool" where
  "line_ok line \<longleftrightarrow> line \<noteq> [] \<and> nul_free line \<and> length line \<le> LOG_MAX_LEN"

lemma log_line_ok:
  assumes "nul_free (header @ body)" "log_line header body = Some line" "line \<noteq> []"
  shows "line_ok line"
proof -
  let ?buf = "take (LOG_MAX_LEN - 1) (header @ body)"
  have "nul_free ?buf" "length ?buf < LOG_MAX_LEN" using assms(1) by (auto simp: log_consts simp del: nul_free_simps take_append)
  moreover have "line = ?buf \<or> line = ?buf @ [10]" using assms(2) by (simp add: log_line_def Let_def split: if_splits)
  ultimately show ?thesis using assms(3) by (elim disjE) (simp_all add: line_ok_def del: take_append)
qed

lemma strncpy_line: "line_ok line \<Longrightarrow> strncpy_bytes line (length line) = line"
  by (simp add: line_ok_def strncpy_bytes_def takeWhile_nul_free_self)

text \<open>A buffer of \<open>max\<close> bytes holds the lines \<open>M\<close>.\<close>

definition buf_holds :: "nat \<Rightarrow> log_buffer \<Rightarrow> bytes list \<Rightarrow> bool" where
  "buf_holds max_size b M \<longleftrightarrow> (\<exists>m. lb_mem b = Some m \<and> length m = max_size \<and> lb_wpos b \<le> max_size \<and> take (lb_wpos b) m = concat M)"

lemma log_append_ok:
  assumes res: "log_append ops fd max_size line (lb_wpos b) b w = Some (b', failed, w')" and b: "buf_holds max_size b M"
    and line: "line_ok line" and ok: "writes_ok ops content" "0 \<le> fd"
  shows "\<not> failed \<and> (\<exists>F. content w' = content w @ concat F \<and>
    (F = [] \<and> buf_holds max_size b' (M @ [line]) \<or> F = M \<and> buf_holds max_size b' [line]))"
proof -
  obtain m where m: "lb_mem b = Some m" "length m = max_size" "lb_wpos b \<le> max_size" "take (lb_wpos b) m = concat M"
    using b by (auto simp: buf_holds_def)
  show ?thesis
  proof (cases "lb_wpos b + length line < max_size")
    case True
    then have b': "b' = b\<lparr>lb_mem := Some (concat M @ line @ drop (lb_wpos b + length line) m), lb_wpos := lb_wpos b + length line\<rparr>"
        "\<not> failed" "w' = w"
      using res m by (auto simp: log_append_def strncpy_line [OF line] mem_put_def split: Option.bind_splits if_splits)
    moreover have "length (concat M) = lb_wpos b" using m(2,3) by (simp flip: m(4))
    ultimately have "buf_holds max_size b' (M @ [line])" using m(2) True by (simp add: buf_holds_def)
    then show ?thesis using b'(2,3) by (intro conjI exI [of _ "[]"]) simp_all
  next
    case False
    then obtain r where r: "(if 0 < lb_wpos b then my_write ops fd (take (lb_wpos b) m) w else Some (0, w)) = Some (r, w')"
        "failed = (r < 0)" "b' = b\<lparr>lb_mem := Some (line @ drop (length line) m), lb_wpos := length line\<rparr>" "length line \<le> length m"
      using res m by (auto simp: log_append_def strncpy_line [OF line] mem_put_def split: Option.bind_splits if_splits)
    have "r = 0 \<and> content w' = content w @ concat M"
      using r(1) my_write_ok [OF _ ok] m(4) by (auto split: if_splits)
    then show ?thesis using r m by (auto simp: buf_holds_def)
  qed
qed

lemma log_flush_ok:
  assumes res: "log_flush ops fd (lb_wpos b) b w = Some (b', failed, w')" and b: "buf_holds max_size b M"
    and ok: "writes_ok ops content" "0 \<le> fd"
  shows "\<not> failed \<and> content w' = content w @ concat M \<and> buf_holds max_size b' []"
proof -
  obtain m r where m: "lb_mem b = Some m" "length m = max_size" "take (lb_wpos b) m = concat M"
    and r: "(if 0 < lb_wpos b then my_write ops fd (take (lb_wpos b) m) w else Some (0, w)) = Some (r, w')"
      "failed = (r < 0)" "b' = b\<lparr>lb_wpos := 0\<rparr>"
    using res b by (auto simp: log_flush_def buf_holds_def split: Option.bind_splits)
  have "r = 0 \<and> content w' = content w @ concat M"
    using r(1) my_write_ok [OF _ ok] m(3) by (auto split: if_splits)
  then show ?thesis using r m by (auto simp: buf_holds_def)
qed

section \<open>The invariant\<close>

fun t_holds :: "nat \<Rightarrow> log_pc \<Rightarrow> bool" where
  "t_holds i (L_have j line) = (i = j)"
| "t_holds i (L_put j wpos line) = (i = j)"
| "t_holds i (L_unlock j) = (i = j)"
| "t_holds i _ = False"

fun a_holds :: "nat \<Rightarrow> writer_pc \<Rightarrow> bool" where
  "a_holds i (A_have j) = (i = j)"
| "a_holds i (A_put j wpos) = (i = j)"
| "a_holds i (A_unlock j) = (i = j)"
| "a_holds i _ = False"

text \<open>Each lock has one holder.\<close>

definition locks_ok :: "'w logging \<Rightarrow> bool" where
  "locks_ok s \<longleftrightarrow> length (lc_locks s) = 2 \<and>
     (\<forall>i<2. count_if (t_holds i) (lc_threads s) + of_bool (a_holds i (lc_writer s)) = of_bool (lc_locks s ! i))"

text \<open>What a thread knows of buffer \<open>i\<close> while it holds the lock.\<close>

fun t_ok :: "log_buffer list \<Rightarrow> log_pc \<Rightarrow> bool" where
  "t_ok bufs (L_pick line) = line_ok line"
| "t_ok bufs (L_lock i line) = (i < 2 \<and> line_ok line)"
| "t_ok bufs (L_have i line) = (i < 2 \<and> line_ok line)"
| "t_ok bufs (L_put i wpos line) = (i < 2 \<and> line_ok line \<and> wpos = lb_wpos (bufs ! i))"
| "t_ok bufs (L_unlock i) = (i < 2)"
| "t_ok bufs L_idle = True"

fun a_ok :: "log_buffer list \<Rightarrow> writer_pc \<Rightarrow> bool" where
  "a_ok bufs (A_lock i) = (i < 2)"
| "a_ok bufs (A_have i) = (i < 2)"
| "a_ok bufs (A_put i wpos) = (i < 2 \<and> wpos = lb_wpos (bufs ! i))"
| "a_ok bufs (A_unlock i) = (i < 2)"
| "a_ok bufs _ = True"

definition pcs_ok :: "'w logging \<Rightarrow> bool" where
  "pcs_ok s \<longleftrightarrow> (\<forall>pc\<in>set (lc_threads s). t_ok (lg_buffer (lc_logger s)) pc) \<and> a_ok (lg_buffer (lc_logger s)) (lc_writer s)"

text \<open>The lines logged are those in the file and in the two buffers.\<close>

definition lines_ok :: "('w \<Rightarrow> bytes) \<Rightarrow> 'w logging \<Rightarrow> bool" where
  "lines_ok content s \<longleftrightarrow> lg_nerror (lc_logger s) = 0 \<and> 0 \<le> lg_fd (lc_logger s) \<and> lg_buffer_index (lc_logger s) < 2 \<and>
     LOG_MAX_LEN < lg_max_buffer_size (lc_logger s) \<and> length (lg_buffer (lc_logger s)) = 2 \<and>
     (\<exists>F Ms. content (lc_world s) = concat F \<and> length Ms = 2 \<and>
        (\<forall>i<2. buf_holds (lg_max_buffer_size (lc_logger s)) (lg_buffer (lc_logger s) ! i) (Ms ! i)) \<and>
        mset (F @ concat Ms) = mset (lc_logged s))"

lemma mset_concat_update:
  "i < length Ms \<Longrightarrow> mset (concat (Ms[i := X])) + mset (Ms ! i) = mset (concat Ms) + mset X"
proof (induction Ms arbitrary: i)
  case (Cons M Ms)
  then show ?case by (cases i) (simp_all add: ac_simps)
qed simp

text \<open>No other thread is in the middle of work on a buffer whose lock one thread holds.\<close>

lemma count_two:
  assumes "t < length xs" "u < length xs" "t \<noteq> u" "P (xs ! t)" "P (xs ! u)"
  shows "2 \<le> count_if P xs"
proof -
  have "card {t, u} \<le> card {i. i < length xs \<and> P (xs ! i)}" using assms by (intro card_mono) auto
  then show ?thesis using assms(3) by (simp add: count_if_def length_filter_conv_card)
qed

lemma one_holder:
  assumes "locks_ok s" "i < 2" "t < length (lc_threads s)" "t_holds i (lc_threads s ! t)"
  shows "\<forall>u<length (lc_threads s). u \<noteq> t \<longrightarrow> \<not> t_holds i (lc_threads s ! u)" "\<not> a_holds i (lc_writer s)" "lc_locks s ! i"
proof -
  have eq: "count_if (t_holds i) (lc_threads s) + of_bool (a_holds i (lc_writer s)) = of_bool (lc_locks s ! i)"
    using assms(1,2) by (auto simp: locks_ok_def)
  show "\<forall>u<length (lc_threads s). u \<noteq> t \<longrightarrow> \<not> t_holds i (lc_threads s ! u)"
    using count_two [OF assms(3), of _ "t_holds i"] assms(4) eq by (fastforce simp: of_bool_def split: if_splits)
  have "0 < count_if (t_holds i) (lc_threads s)"
    using assms(3,4) nth_mem [OF assms(3)] by (auto simp: count_if_zero simp flip: neq0_conv)
  then show "\<not> a_holds i (lc_writer s)" "lc_locks s ! i" using eq by (auto simp: of_bool_def split: if_splits)
qed

lemma writer_alone:
  assumes "locks_ok s" "i < 2" "a_holds i (lc_writer s)"
  shows "\<forall>pc\<in>set (lc_threads s). \<not> t_holds i pc"
proof -
  have "count_if (t_holds i) (lc_threads s) + of_bool (a_holds i (lc_writer s)) = of_bool (lc_locks s ! i)"
    using assms(1,2) by (auto simp: locks_ok_def)
  then have "count_if (t_holds i) (lc_threads s) = 0" using assms(3) by (auto simp: of_bool_def split: if_splits)
  then show ?thesis by (simp add: count_if_zero)
qed

text \<open>Work on a buffer leaves alone what threads that do not hold its lock know.\<close>

lemma t_ok_buffer: "t_ok bufs pc \<Longrightarrow> \<not> t_holds i pc \<Longrightarrow> t_ok (bufs[i := b]) pc"
  by (cases pc) auto

lemma a_ok_buffer: "a_ok bufs pc \<Longrightarrow> \<not> a_holds i pc \<Longrightarrow> a_ok (bufs[i := b]) pc"
  by (cases pc) auto

section \<open>Every step keeps it\<close>

lemma locks_ok_thread:
  assumes "locks_ok s" "t < length (lc_threads s)" "lc_writer s' = lc_writer s" "lc_threads s' = (lc_threads s)[t := pc]"
    and "lc_locks s' = lc_locks s" "\<forall>i<2. t_holds i pc = t_holds i (lc_threads s ! t)"
  shows "locks_ok s'"
  using assms(1,3-5) moved_count [OF assms(2), of "t_holds _" pc] assms(6) by (simp add: locks_ok_def)

lemma locks_ok_thread_lock:
  assumes "locks_ok s" "t < length (lc_threads s)" "lc_writer s' = lc_writer s" "lc_threads s' = (lc_threads s)[t := pc]"
    and "lc_locks s' = (lc_locks s)[i := held]" "i < 2" "lc_locks s ! i = (\<not> held)"
    and "\<forall>j<2. t_holds j pc = (held \<and> j = i)" "\<forall>j<2. t_holds j (lc_threads s ! t) = (\<not> held \<and> j = i)"
  shows "locks_ok s'"
  unfolding locks_ok_def
proof (intro conjI allI impI)
  show "length (lc_locks s') = 2" using assms(1,5) by (simp add: locks_ok_def)
  fix j :: nat
  assume j: "j < 2"
  have "count_if (t_holds j) (lc_threads s) + of_bool (a_holds j (lc_writer s)) = of_bool (lc_locks s ! j)" "length (lc_locks s) = 2"
    using assms(1) j by (auto simp: locks_ok_def)
  then show "count_if (t_holds j) (lc_threads s') + of_bool (a_holds j (lc_writer s')) = of_bool (lc_locks s' ! j)"
    using count_if_update [OF assms(2), of "t_holds j" pc] assms(3-9) j
    by (cases "j = i"; cases held; cases "a_holds j (lc_writer s)") simp_all
qed

lemma thread_step_locks:
  assumes "log_thread_step ops t (lc_threads s ! t) s s'" "t < length (lc_threads s)" "locks_ok s" "pcs_ok s"
  shows "locks_ok s'"
proof -
  have ok: "t_ok (lg_buffer (lc_logger s)) (lc_threads s ! t)" using assms(2,4) by (simp add: pcs_ok_def)
  show ?thesis
    using assms(1)
  proof (cases rule: log_thread_step.cases)
    case (l_call header body)
    then show ?thesis using assms(3)
      by (auto simp: l_call_def intro!: locks_ok_thread [OF assms(3,2)] split: if_splits Option.bind_splits)
  next
    case (l_lock i line)
    then show ?thesis using ok by (intro locks_ok_thread_lock [OF assms(3,2), where i = i and held = True]) auto
  next
    case (l_put i wpos line)
    then show ?thesis
      by (auto simp: l_put_def set_buffer_def intro!: locks_ok_thread [OF assms(3,2)] split: Option.bind_splits prod.splits)
  next
    case (l_unlock i)
    have "lc_locks s ! i" using one_holder(3) [OF assms(3) _ assms(2), of i] l_unlock(1) ok by simp
    then show ?thesis using l_unlock ok by (intro locks_ok_thread_lock [OF assms(3,2), where i = i and held = False]) auto
  qed (auto intro!: locks_ok_thread [OF assms(3,2)])
qed

lemma locks_ok_writer:
  assumes "locks_ok s" "lc_threads s' = lc_threads s" "lc_locks s' = lc_locks s" "\<forall>i<2. a_holds i (lc_writer s') = a_holds i (lc_writer s)"
  shows "locks_ok s'"
  using assms by (simp add: locks_ok_def)

lemma writer_step_locks:
  assumes "log_writer_step ops (lc_writer s) s s'" "locks_ok s" "pcs_ok s"
  shows "locks_ok s'"
proof -
  have ok: "a_ok (lg_buffer (lc_logger s)) (lc_writer s)" using assms(3) by (simp add: pcs_ok_def)
  show ?thesis
    using assms(1)
  proof (cases rule: log_writer_step.cases)
    case a_wake
    then show ?thesis
      by (auto simp: a_wake_def Let_def intro!: locks_ok_writer [OF assms(2)] split: if_splits Option.bind_splits prod.splits)
  next
    case a_pick
    then show ?thesis by (auto simp: a_pick_def Let_def intro!: locks_ok_writer [OF assms(2)])
  next
    case (a_lock i)
    then show ?thesis using assms(2) ok by (auto simp: locks_ok_def nth_list_update)
  next
    case (a_wpos i)
    then show ?thesis by (auto intro!: locks_ok_writer [OF assms(2)])
  next
    case (a_put i wpos)
    then show ?thesis by (auto simp: a_put_def set_buffer_def intro!: locks_ok_writer [OF assms(2)] split: Option.bind_splits prod.splits)
  next
    case (a_unlock i)
    have "\<forall>j<2. count_if (t_holds j) (lc_threads s) + of_bool (j = i) = of_bool (lc_locks s ! j)"
      using assms(2) a_unlock(1) by (auto simp: locks_ok_def eq_commute)
    then show ?thesis using assms(2) a_unlock ok
      by (auto simp: locks_ok_def nth_list_update of_bool_def split: if_splits)
  qed
qed

text \<open>Steps that touch no buffer.\<close>

lemma pcs_ok_thread:
  assumes "pcs_ok s" "lg_buffer (lc_logger s') = lg_buffer (lc_logger s)" "lc_writer s' = lc_writer s"
    and "lc_threads s' = (lc_threads s)[t := pc]" "t_ok (lg_buffer (lc_logger s)) pc"
  shows "pcs_ok s'"
  using assms set_update_subset_insert [of "lc_threads s" t pc] by (auto simp: pcs_ok_def)

lemma pcs_ok_writer:
  assumes "pcs_ok s" "lg_buffer (lc_logger s') = lg_buffer (lc_logger s)" "lc_threads s' = lc_threads s"
    and "a_ok (lg_buffer (lc_logger s)) (lc_writer s')"
  shows "pcs_ok s'"
  using assms by (simp add: pcs_ok_def)

lemma lines_ok_same:
  assumes "lines_ok content s" "lc_logger s' = lc_logger s" "lc_world s' = lc_world s" "lc_logged s' = lc_logged s"
  shows "lines_ok content s'"
  using assms by (simp add: lines_ok_def)

text \<open>Work on buffer \<open>i\<close> by the holder of its lock.\<close>

lemma l_put_ok:
  assumes res: "l_put ops t i wpos line s = Some s'" and pc: "lc_threads s ! t = L_put i wpos line" "t < length (lc_threads s)"
    and inv: "locks_ok s" "pcs_ok s" "lines_ok content s" and ok: "writes_ok ops content"
  shows "pcs_ok s'" "lines_ok content s'"
proof -
  let ?bufs = "lg_buffer (lc_logger s)" and ?max = "lg_max_buffer_size (lc_logger s)"
  have i: "i < 2" "line_ok line" "wpos = lb_wpos (?bufs ! i)" using inv(2) nth_mem [OF pc(2)] pc(1) by (auto simp: pcs_ok_def)
  from inv(3) obtain F Ms where L: "lg_nerror (lc_logger s) = 0" "0 \<le> lg_fd (lc_logger s)" "lg_buffer_index (lc_logger s) < 2"
    "LOG_MAX_LEN < ?max" "length ?bufs = 2" "content (lc_world s) = concat F" "length Ms = 2"
    "\<forall>i<2. buf_holds ?max (?bufs ! i) (Ms ! i)" "mset (F @ concat Ms) = mset (lc_logged s)"
    unfolding lines_ok_def by blast
  obtain b failed w' where app: "log_append ops (lg_fd (lc_logger s)) ?max line wpos (?bufs ! i) (lc_world s) = Some (b, failed, w')"
    and s': "s' = set_thread t (L_unlock i) ((set_buffer i (b, failed, w') s)\<lparr>lc_logged := lc_logged s @ [line]\<rparr>)"
    using res by (auto simp: l_put_def split: Option.bind_splits)
  have hold: "t_holds i (lc_threads s ! t)" by (simp add: pc(1))
  have "t_ok (?bufs[i := b]) (lc_threads s ! u)" if "u < length (lc_threads s)" "u \<noteq> t" for u
    using t_ok_buffer one_holder(1) [OF inv(1) i(1) pc(2) hold] that inv(2) by (auto simp: pcs_ok_def)
  then have "t_ok (?bufs[i := b]) ((lc_threads s)[t := L_unlock i] ! u)" if "u < length (lc_threads s)" for u
    using that i(1) by (cases "u = t") simp_all
  then have "\<forall>pc\<in>set ((lc_threads s)[t := L_unlock i]). t_ok (?bufs[i := b]) pc"
    by (auto simp: in_set_conv_nth)
  moreover have "a_ok (?bufs[i := b]) (lc_writer s)"
    using a_ok_buffer one_holder(2) [OF inv(1) i(1) pc(2) hold] inv(2) by (auto simp: pcs_ok_def)
  ultimately show "pcs_ok s'" by (simp add: pcs_ok_def s' set_buffer_def)
  have "buf_holds ?max (?bufs ! i) (Ms ! i)" using L(8) i(1) by simp
  from log_append_ok [OF app [unfolded i(3)] this i(2) ok L(2)] obtain F' M' where
    F': "\<not> failed" "content w' = concat F @ concat F'" "buf_holds ?max b M'" "F' = [] \<and> M' = Ms ! i @ [line] \<or> F' = Ms ! i \<and> M' = [line]"
    unfolding L(6) by blast
  have "mset ((F @ F') @ concat (Ms[i := M'])) = mset (lc_logged s @ [line])"
    using F'(4) L(9) mset_concat_update [of i Ms M'] L(7) i(1) by (auto simp: ac_simps)
  moreover have "\<forall>j<2. buf_holds ?max (?bufs[i := b] ! j) (Ms[i := M'] ! j)"
    using F'(3) L(5,7,8) i(1) by (auto simp: nth_list_update)
  moreover have "content w' = concat (F @ F')" using F'(2) by simp
  ultimately show "lines_ok content s'"
    unfolding lines_ok_def using L(1-5,7) F'(1)
    by (intro conjI exI [of _ "F @ F'"] exI [of _ "Ms[i := M']"]) (simp_all add: s' set_buffer_def)
qed

lemma a_put_ok:
  assumes res: "a_put ops i wpos s = Some s'" and pc: "lc_writer s = A_put i wpos"
    and inv: "locks_ok s" "pcs_ok s" "lines_ok content s" and ok: "writes_ok ops content"
  shows "pcs_ok s'" "lines_ok content s'"
proof -
  let ?bufs = "lg_buffer (lc_logger s)" and ?max = "lg_max_buffer_size (lc_logger s)"
  have i: "i < 2" "wpos = lb_wpos (?bufs ! i)" using inv(2) pc by (auto simp: pcs_ok_def)
  from inv(3) obtain F Ms where L: "lg_nerror (lc_logger s) = 0" "0 \<le> lg_fd (lc_logger s)" "lg_buffer_index (lc_logger s) < 2"
    "LOG_MAX_LEN < ?max" "length ?bufs = 2" "content (lc_world s) = concat F" "length Ms = 2"
    "\<forall>i<2. buf_holds ?max (?bufs ! i) (Ms ! i)" "mset (F @ concat Ms) = mset (lc_logged s)"
    unfolding lines_ok_def by blast
  obtain b failed w' where fl: "log_flush ops (lg_fd (lc_logger s)) wpos (?bufs ! i) (lc_world s) = Some (b, failed, w')"
    and s': "s' = (set_buffer i (b, failed, w') s)\<lparr>lc_writer := A_unlock i\<rparr>"
    using res by (auto simp: a_put_def split: Option.bind_splits)
  have "a_holds i (lc_writer s)" by (simp add: pc)
  from writer_alone [OF inv(1) i(1) this] have "\<forall>pc\<in>set (lc_threads s). t_ok (?bufs[i := b]) pc"
    using t_ok_buffer inv(2) by (auto simp: pcs_ok_def)
  then show "pcs_ok s'" using i(1) by (simp add: pcs_ok_def s' set_buffer_def)
  have F': "\<not> failed" "content w' = concat F @ concat (Ms ! i)" "buf_holds ?max b []"
    using log_flush_ok [OF fl [unfolded i(2)] _ ok L(2)] L(6,8) i(1) by auto
  have "mset ((F @ Ms ! i) @ concat (Ms[i := []])) = mset (lc_logged s)"
    using L(9) mset_concat_update [of i Ms "[]"] L(7) i(1) by (auto simp: ac_simps)
  moreover have "\<forall>j<2. buf_holds ?max (?bufs[i := b] ! j) (Ms[i := []] ! j)"
    using F'(3) L(5,7,8) i(1) by (auto simp: nth_list_update)
  moreover have "content w' = concat (F @ Ms ! i)" using F'(2) by simp
  ultimately show "lines_ok content s'"
    unfolding lines_ok_def using L(1-5,7) F'(1)
    by (intro conjI exI [of _ "F @ Ms ! i"] exI [of _ "Ms[i := []]"]) (simp_all add: s' set_buffer_def)
qed

lemma thread_step_ok:
  assumes "log_thread_step ops t (lc_threads s ! t) s s'" "t < length (lc_threads s)"
    and "locks_ok s" "pcs_ok s" "lines_ok content s" "writes_ok ops content"
  shows "pcs_ok s' \<and> lines_ok content s'"
proof -
  have ok: "t_ok (lg_buffer (lc_logger s)) (lc_threads s ! t)" using assms(2,4) by (simp add: pcs_ok_def)
  show ?thesis
    using assms(1)
  proof (cases rule: log_thread_step.cases)
    case (l_call header body)
    then show ?thesis using assms(4,5) log_line_ok [OF l_call(2)]
      by (auto simp: l_call_def intro!: pcs_ok_thread [OF assms(4), of _ t] lines_ok_same [OF assms(5)] split: if_splits Option.bind_splits)
  next
    case (l_pick line)
    then show ?thesis using ok assms(5)
      by (auto simp: lines_ok_def intro!: pcs_ok_thread [OF assms(4), of _ t])
  next
    case (l_put i wpos line)
    then show ?thesis using l_put_ok [OF l_put(2,1) assms(2-6)] by simp
  qed (use ok in \<open>auto intro!: pcs_ok_thread [OF assms(4), of _ t] lines_ok_same [OF assms(5)]\<close>)
qed

lemma writer_step_ok:
  assumes "log_writer_step ops (lc_writer s) s s'" "locks_ok s" "pcs_ok s" "lines_ok content s" "writes_ok ops content"
  shows "pcs_ok s' \<and> lines_ok content s'"
proof -
  have ok: "a_ok (lg_buffer (lc_logger s)) (lc_writer s)" "lg_buffer_index (lc_logger s) < 2" "lg_nerror (lc_logger s) = 0"
    using assms(3,4) by (simp_all add: pcs_ok_def lines_ok_def)
  show ?thesis
    using assms(1)
  proof (cases rule: log_writer_step.cases)
    case a_wake
    then show ?thesis using ok
      by (auto simp: a_wake_def intro!: pcs_ok_writer [OF assms(3)] lines_ok_same [OF assms(4)])
  next
    case a_pick
    have "lines_ok content s'" using assms(4) a_pick by (simp add: lines_ok_def a_pick_def Let_def)
    then show ?thesis using a_pick ok by (auto simp: a_pick_def Let_def intro!: pcs_ok_writer [OF assms(3)])
  next
    case (a_put i wpos)
    then show ?thesis using a_put_ok [OF a_put(2,1) assms(2-5)] by simp
  qed (use ok in \<open>auto intro!: pcs_ok_writer [OF assms(3)] lines_ok_same [OF assms(4)]\<close>)
qed

lemma log_run_inv:
  "log_run ops s0 s \<Longrightarrow> locks_ok s0 \<Longrightarrow> pcs_ok s0 \<Longrightarrow> lines_ok content s0 \<Longrightarrow> writes_ok ops content \<Longrightarrow>
   locks_ok s \<and> pcs_ok s \<and> lines_ok content s"
proof (induction rule: log_run.induct)
  case (log_thread s t s')
  then show ?case using thread_step_locks [OF log_thread(3,2)] thread_step_ok [OF log_thread(3,2)] by blast
next
  case (log_writer s s')
  then show ?case using writer_step_locks [OF log_writer(2)] writer_step_ok [OF log_writer(2)] by blast
qed simp

text \<open>The logger after \<^const>\<open>log_init_file\<close> has opened the file and allocated the buffers.\<close>

definition ready :: "logger \<Rightarrow> bool" where
  "ready l \<longleftrightarrow> lg_nerror l = 0 \<and> 0 \<le> lg_fd l \<and> lg_buffer_index l = 0 \<and> LOG_MAX_LEN < lg_max_buffer_size l \<and>
     length (lg_buffer l) = 2 \<and>
     (\<forall>b\<in>set (lg_buffer l). lb_wpos b = 0 \<and> (\<exists>m. lb_mem b = Some m \<and> length m = lg_max_buffer_size l))"

lemma init_buffers_ready:
  assumes "init_buffers ops sz 2 [b0, b1] w = (True, bufs, w')" "\<And>w m w'. lo_calloc ops sz w = (Some m, w') \<Longrightarrow> length m = sz"
  shows "length bufs = 2 \<and> (\<forall>b\<in>set bufs. lb_wpos b = 0 \<and> (\<exists>m. lb_mem b = Some m \<and> length m = sz))"
  using assms by (auto simp: numeral_2_eq_2 split: prod.splits option.splits)

lemma log_init_file_ready:
  assumes "log_init_file ops name l w = Some (0, l', w')" "lg_inited l' \<noteq> 0" "lg_inited l = 0" "lg_nerror l = 0"
    and "lg_buffer l = [b0, b1]" "\<And>sz w m w'. lo_calloc ops sz w = (Some m, w') \<Longrightarrow> length m = sz"
  shows "ready l'"
proof -
  obtain nm where nm: "name = Some nm" using assms(1) by (auto simp: log_init_file_def split: Option.bind_splits)
  obtain fd nm' w1 where op: "log_open_file ops nm w = (fd, nm', w1)" by (rule prod_cases3)
  obtain ok bufs w2 where bf: "init_buffers ops 10485760 2 [b0, b1] w1 = (ok, bufs, w2)" by (rule prod_cases3)
  have k: "0 \<le> fd" "ok" "lg_nerror l' = 0" "lg_fd l' = fd" "lg_buffer_index l' = 0" "lg_max_buffer_size l' = 10485760" "lg_buffer l' = bufs"
    using assms(1-5) by (auto simp: log_init_file_def nm op bf Let_def split: if_splits prod.splits)
  show ?thesis
    using k init_buffers_ready [OF _ assms(6), of ops 10485760 b0 b1 w1 bufs w2] bf by (simp add: ready_def log_consts)
qed

lemma logging_init_inv:
  assumes "ready l" "content w = []"
  shows "locks_ok (logging_init n l w)" "pcs_ok (logging_init n l w)" "lines_ok content (logging_init n l w)"
proof -
  show "locks_ok (logging_init n l w)" "pcs_ok (logging_init n l w)"
    by (simp_all add: locks_ok_def pcs_ok_def logging_init_def All_less_Suc numeral_2_eq_2)
  have "buf_holds (lg_max_buffer_size l) (lg_buffer l ! i) ([[], []] ! i)" if "i < 2" for i
    using assms(1) that by (cases i) (auto simp: ready_def buf_holds_def less_2_cases_iff)
  then show "lines_ok content (logging_init n l w)"
    using assms by (auto simp: lines_ok_def ready_def logging_init_def intro!: exI [of _ "[] :: bytes list"] exI [of _ "[[], []] :: bytes list list"])
qed

section \<open>After an error\<close>

text \<open>No thread writes through a descriptor that is not open.\<close>

definition broken :: "('w \<Rightarrow> bytes) \<Rightarrow> bytes \<Rightarrow> 'w logging \<Rightarrow> bool" where
  "broken content old s \<longleftrightarrow> lg_fd (lc_logger s) = - 1 \<and> lg_nerror (lc_logger s) = 1 \<and> content (lc_world s) = old"

text \<open>
  A write to a descriptor below 0 fails, and opening, closing and making directories do not change
  what is in the file.
\<close>

definition files_ok :: "'w log_ops \<Rightarrow> ('w \<Rightarrow> bytes) \<Rightarrow> bool" where
  "files_ok ops content \<longleftrightarrow>
     (\<forall>fd buf w. fd < 0 \<longrightarrow> lo_write ops fd buf w = (Write_failed, w)) \<and>
     (\<forall>fd w. content (lo_close ops fd w) = content w) \<and>
     (\<forall>name fl w. content (snd (lo_open ops name fl w)) = content w) \<and>
     (\<forall>path w. content (snd (fs_mkdir (lo_fs ops) path w)) = content w)"

lemma mkdir_content:
  assumes "files_ok ops content"
  shows "content (snd (mkdir_recursive (lo_fs ops) path w)) = content w"
proof -
  have "content (snd (mkdir_loop (lo_fs ops) path n w)) = content w" for n
  proof (induction "lo_fs ops" path n w rule: mkdir_loop.induct)
    case (1 path n w)
    then show ?case using assms by (subst mkdir_loop.simps) (auto simp: files_ok_def split: option.splits)
  qed
  then show ?thesis by (simp add: mkdir_recursive_def)
qed

lemma open_content:
  assumes "files_ok ops content"
  shows "content (snd (snd (log_open_file ops name w))) = content w"
proof -
  have "content w' = content w" if "lo_open ops nm fl w = (fd, w')" for nm fl w fd w'
    using assms that unfolding files_ok_def by (metis snd_conv)
  moreover have "content w' = content w" if "mkdir_recursive (lo_fs ops) p w = (b, w')" for p b w w'
    using mkdir_content [OF assms, of p w] that by simp
  ultimately show ?thesis by (fastforce simp: log_open_file_def split: prod.splits option.splits)
qed

lemma my_write_closed: "files_ok ops content \<Longrightarrow> my_write ops (- 1) buf w = Some (- 1, w)"
  by (subst my_write.simps) (simp add: files_ok_def)

lemma broken_step:
  assumes files: "files_ok ops content" and b: "broken content old s"
  shows "log_thread_step ops t (lc_threads s ! t) s s' \<Longrightarrow> broken content old s'"
    and "log_writer_step ops (lc_writer s) s s' \<Longrightarrow> broken content old s'"
proof -
  note closed = my_write_closed [OF files]
  show "broken content old s'" if "log_thread_step ops t (lc_threads s ! t) s s'"
    using that b by (cases rule: log_thread_step.cases)
      (auto simp: broken_def l_call_def l_put_def log_append_def set_buffer_def closed split: Option.bind_splits if_splits prod.splits)
  show "broken content old s'" if "log_writer_step ops (lc_writer s) s s'"
    using that b
  proof (cases rule: log_writer_step.cases)
    case a_wake
    have "content (snd (snd (log_open_file ops nm (lo_close ops fd (lc_world s))))) = old" for nm fd
      using open_content [OF files] files b by (simp add: broken_def files_ok_def)
    then show ?thesis using a_wake b
      by (auto simp: broken_def a_wake_def Let_def split: Option.bind_splits prod.splits if_splits) (metis snd_conv)+
  qed (use b in \<open>auto simp: broken_def a_pick_def a_put_def log_flush_def set_buffer_def closed Let_def split: Option.bind_splits if_splits prod.splits\<close>)
qed

lemma broken_run: "log_run ops s0 s \<Longrightarrow> files_ok ops content \<Longrightarrow> broken content old s0 \<Longrightarrow> broken content old s"
  by (induction rule: log_run.induct) (use broken_step in blast)+

section \<open>Properties\<close>

definition buffered :: "log_buffer \<Rightarrow> bytes" where
  "buffered b = (case lb_mem b of None \<Rightarrow> [] | Some m \<Rightarrow> take (lb_wpos b) m)"

text \<open>C15: while writes succeed, no line is lost, doubled or torn, however the threads interleave: the lines in
  the file and in the two buffers are the lines logged.\<close>

theorem log_keeps_lines:
  assumes "ready l" "content w = []" "writes_ok ops content" "log_run ops (logging_init n l w) s"
  shows "\<exists>F M0 M1. content (lc_world s) = concat F \<and> buffered (lg_buffer (lc_logger s) ! 0) = concat M0 \<and>
    buffered (lg_buffer (lc_logger s) ! 1) = concat M1 \<and> mset (F @ M0 @ M1) = mset (lc_logged s)"
proof -
  have "lines_ok content s" using log_run_inv [OF assms(4) logging_init_inv [where content = content and w = w, OF assms(1,2)] assms(3)] by simp
  then obtain F Ms where L: "content (lc_world s) = concat F" "length Ms = 2" "mset (F @ concat Ms) = mset (lc_logged s)"
    "\<forall>i<2. buf_holds (lg_max_buffer_size (lc_logger s)) (lg_buffer (lc_logger s) ! i) (Ms ! i)"
    unfolding lines_ok_def by blast
  have "buffered (lg_buffer (lc_logger s) ! i) = concat (Ms ! i)" if "i < 2" for i
    using L(4) that by (auto simp: buf_holds_def buffered_def)
  moreover have "concat Ms = Ms ! 0 @ Ms ! 1" using L(2) by (auto simp: numeral_2_eq_2 length_Suc_conv)
  ultimately show ?thesis using L(1,3) by (intro exI [of _ F] exI [of _ "Ms ! 0"] exI [of _ "Ms ! 1"]) simp
qed

text \<open>A world that is the content of one file.\<close>

definition demo_log_ops :: "bytes log_ops" where
  "demo_log_ops = \<lparr>lo_fs = \<lparr>fs_is_dir = (\<lambda>_ _. True), fs_writable = (\<lambda>_ _. True), fs_exists = (\<lambda>_ _. True), fs_mkdir = (\<lambda>_ w. (True, w))\<rparr>,
     lo_writable = (\<lambda>_ _. True), lo_open = (\<lambda>_ _ w. (3, w)), lo_close = (\<lambda>_ w. w),
     lo_write = (\<lambda>fd buf w. if fd < 0 then (Write_failed, w) else (Wrote (length buf), w @ buf)),
     lo_calloc = (\<lambda>n w. (Some (replicate n 0), w)), lo_thread = (\<lambda>w. (0, w))\<rparr>"

definition demo_logger :: logger where
  "demo_logger = zero_logger\<lparr>lg_name := Some [108], lg_fd := 3, lg_max_buffer_size := 2000, lg_inited := 1,
     lg_buffer := [\<lparr>lb_mem = Some (replicate 2000 0), lb_wpos = 0\<rparr>, \<lparr>lb_mem = Some (replicate 2000 0), lb_wpos = 0\<rparr>]\<rparr>"

lemma demo_log_ok: "ready demo_logger" "writes_ok demo_log_ops (\<lambda>w. w)" "files_ok demo_log_ops (\<lambda>w. w)"
  by (auto simp: ready_def demo_logger_def log_consts zero_logger_def writes_ok_def files_ok_def demo_log_ops_def)

lemma log_next:
  assumes "log_run ops s0 s" "t < length (lc_threads s)" "log_thread_step ops t pc s s'" "lc_threads s ! t = pc" "s' = s''"
  shows "log_run ops s0 s''"
  using log_thread [OF assms(1,2)] assms(3-5) by simp

lemma demo_log_run:
  "\<exists>s. log_run demo_log_ops (logging_init 1 demo_logger []) s \<and> lc_logged s = [lit ''h b'' @ [10]]"
proof -
  let ?line = "lit ''h b'' @ [10]" and ?i = "logging_init 1 demo_logger []"
  have line: "log_line (lit ''h '') (lit ''b'') = Some ?line"
    by (simp add: log_line_def log_consts lit_def Let_def)
  note idle = logging_init_def
  have "log_run demo_log_ops ?i (set_thread 0 (L_pick ?line) ?i)"
    by (rule log_next [OF log_start _ l_call [where header = "lit ''h ''" and body = "lit ''b''"], of 0])
      (use line in \<open>simp_all add: idle demo_logger_def l_call_def lit_def\<close>)
  then have "log_run demo_log_ops ?i (set_thread 0 (L_lock 0 ?line) ?i)"
    by (rule log_next [OF _ _ l_pick [where line = ?line], where t = 0]) (simp_all add: idle demo_logger_def zero_logger_def)
  then have "log_run demo_log_ops ?i (set_thread 0 (L_have 0 ?line) (set_lock 0 True ?i))"
    by (rule log_next [OF _ _ l_lock [where i = 0 and line = ?line], where t = 0]) (simp_all add: idle)
  then have "log_run demo_log_ops ?i (set_thread 0 (L_put 0 0 ?line) (set_lock 0 True ?i))"
    by (rule log_next [OF _ _ l_wpos [where i = 0 and line = ?line], where t = 0]) (simp_all add: idle demo_logger_def)
  moreover have "\<exists>s'. l_put demo_log_ops 0 0 0 ?line (set_thread 0 (L_put 0 0 ?line) (set_lock 0 True ?i)) = Some s' \<and> lc_logged s' = [?line]"
    by (simp add: l_put_def log_append_def idle demo_logger_def mem_put_def strncpy_bytes_def Let_def set_buffer_def lit_def)
  ultimately show ?thesis using log_next [OF _ _ l_put, where t = 0] by (fastforce simp: idle)
qed

lemma log_keeps_lines_witness:
  "\<exists>s F M0 M1. log_run demo_log_ops (logging_init 1 demo_logger []) s \<and> lc_logged s = [lit ''h b'' @ [10]] \<and>
     lc_world s = concat F \<and> mset (F @ M0 @ M1) = {#lit ''h b'' @ [10]#}"
proof -
  obtain s where s: "log_run demo_log_ops (logging_init 1 demo_logger []) s" "lc_logged s = [lit ''h b'' @ [10]]"
    using demo_log_run by blast
  from log_keeps_lines [OF demo_log_ok(1) _ demo_log_ok(2) s(1)] s show ?thesis by fastforce
qed

text \<open>C34: after a failed write nothing is ever written again: the writer closes the file and drops the descriptor
  of the file that it opens again.\<close>

theorem log_error_is_permanent:
  assumes "files_ok ops content" "lg_nerror (lc_logger s0) = 1" "log_writer_step ops A_sleep s0 s1" "log_run ops s1 s"
  shows "lg_fd (lc_logger s) = - 1 \<and> content (lc_world s) = content (lc_world s0)"
proof -
  have same: "content (snd (snd (log_open_file ops nm (lo_close ops fd (lc_world s0))))) = content (lc_world s0)" for nm fd
    using open_content [OF assms(1)] assms(1) by (simp add: files_ok_def)
  have "a_wake ops s0 = Some s1" using assms(3) by (cases rule: log_writer_step.cases) auto
  then have "broken content (content (lc_world s0)) s1"
    using assms(2) same
    by (auto simp: broken_def a_wake_def Let_def split: Option.bind_splits prod.splits if_splits) (metis snd_conv)+
  from broken_run [OF assms(4,1) this] show ?thesis by (simp add: broken_def)
qed

lemma log_error_is_permanent_witness:
  "\<exists>s1. log_writer_step demo_log_ops A_sleep (logging_init 1 (demo_logger\<lparr>lg_nerror := 1\<rparr>) (lit ''old'')) s1 \<and>
     lg_fd (lc_logger s1) = - 1 \<and> lc_world s1 = lit ''old''"
proof -
  let ?s0 = "logging_init 1 (demo_logger\<lparr>lg_nerror := 1\<rparr>) (lit ''old'')"
  have "\<exists>s1. a_wake demo_log_ops ?s0 = Some s1"
    by (simp add: a_wake_def logging_init_def demo_logger_def Let_def split: prod.split)
  then obtain s1 where s1: "a_wake demo_log_ops ?s0 = Some s1" ..
  have "log_writer_step demo_log_ops A_sleep ?s0 s1" by (rule a_wake [OF s1])
  from log_error_is_permanent [OF demo_log_ok(3) _ this log_start] show ?thesis
    using \<open>log_writer_step demo_log_ops A_sleep ?s0 s1\<close> by (auto simp: logging_init_def)
qed

end
