(* ===== verification/Srv_Hexdump.thy ===== *)
theory Srv_Hexdump
  imports Srv_Log
begin

text \<open>
  The hexadecimal dump of log.cpp: what \<^verbatim>\<open>_log_hexdump\<close> puts in its buffer, and how much data the buffer
  can take. Hexadecimal digits are those of \<^verbatim>\<open>printf\<close>; a character is printable as in the C locale.
\<close>

definition hex_digit :: "nat \<Rightarrow> byte" where
  "hex_digit n = of_nat (if n < 10 then 48 + n else 87 + n)"

text \<open>\<^verbatim>\<open>%0nx\<close> of a number with at most \<open>n\<close> digits.\<close>

definition hex_pad :: "nat \<Rightarrow> nat \<Rightarrow> bytes" where
  "hex_pad n v = map (\<lambda>i. hex_digit (v div 16 ^ i mod 16)) (rev [0..<n])"

definition isprint :: "byte \<Rightarrow> bool" where
  "isprint c \<longleftrightarrow> 32 \<le> c \<and> c \<le> 126"

text \<open>
  \<^verbatim>\<open>len += snprintf(buf + len, size - len, ...)\<close>, where \<open>s\<close> is the whole text: it is cut to the room there is, but
  \<^verbatim>\<open>len\<close> grows by its length. When \<^verbatim>\<open>len\<close> has passed \<^verbatim>\<open>size\<close>, the room is a negative number as a \<^verbatim>\<open>size_t\<close>, and the
  text goes behind the buffer.
\<close>

definition snprintf_at :: "bytes \<Rightarrow> bytes \<times> nat \<Rightarrow> (bytes \<times> nat) option" where
  "snprintf_at s st =
     (case st of (buf, len) \<Rightarrow>
        if length buf < len then None
        else if len = length buf then Some (buf, len + length s)
        else map_option (\<lambda>buf'. (buf', len + length s)) (mem_put buf len (take (length buf - len - 1) s @ [0])))"

fun snprintf_all :: "bytes list \<Rightarrow> bytes \<times> nat \<Rightarrow> (bytes \<times> nat) option" where
  "snprintf_all [] st = Some st"
| "snprintf_all (s # ss) st = Option.bind (snprintf_at s st) (snprintf_all ss)"

text \<open>One line: the offset, sixteen columns and the characters.\<close>

definition dump_gap :: "nat \<Rightarrow> bytes" where
  "dump_gap i = (if i = 7 then [32, 32] else [32])"

definition dump_columns :: "bytes \<Rightarrow> bytes list" where
  "dump_columns row = map (\<lambda>i. (if i < length row then hex_pad 2 (unat (row ! i)) else [32, 32]) @ dump_gap i) [0..<16]"

definition dump_line :: "nat \<Rightarrow> bytes \<Rightarrow> bytes list" where
  "dump_line off row =
     (hex_pad 8 off @ [32, 32]) # dump_columns row @ [[32, 32, 124]] @ map (\<lambda>c. [if isprint c then c else 46]) row @ [[124, 10]]"

fun dump_loop :: "nat \<Rightarrow> bytes \<Rightarrow> bytes \<times> nat \<Rightarrow> (bytes \<times> nat) option" where
  "dump_loop off data st =
     (if data = [] \<or> length (fst st) - 1 \<le> snd st then Some st
      else Option.bind (snprintf_all (dump_line off (take 16 data)) st) (dump_loop (off + 16) (drop 16 data)))"

declare dump_loop.simps [simp del]

text \<open>
  \<open>mem\<close> is the content of the buffer of \<^verbatim>\<open>8 * LOG_MAX_LEN\<close> bytes, which is not initialised. The result is what is handed to
  \<^verbatim>\<open>_log_internal\<close>; nothing is dumped once the logger is initialised.
\<close>

definition log_hexdump :: "logger \<Rightarrow> bytes \<Rightarrow> bytes \<Rightarrow> bytes option option" where
  "log_hexdump l mem data =
     (if lg_fd l < 0 \<or> 0 < lg_inited l then Some None
      else case dump_loop 0 data (mem, 0) of None \<Rightarrow> None
        | Some (buf, len) \<Rightarrow> if length buf < len then None else Some (Some (take len buf)))"

section \<open>Within the buffer\<close>

lemma snprintf_at_fits:
  assumes "len + length s < length buf"
  shows "\<exists>buf'. snprintf_at s (buf, len) = Some (buf', len + length s) \<and> length buf' = length buf \<and>
    take (len + length s) buf' = take len buf @ s"
  using assms by (auto simp: snprintf_at_def mem_put_def)

lemma snprintf_all_fits:
  "len + length (concat ss) < length buf \<Longrightarrow>
   \<exists>buf'. snprintf_all ss (buf, len) = Some (buf', len + length (concat ss)) \<and> length buf' = length buf \<and>
     take (len + length (concat ss)) buf' = take len buf @ concat ss"
proof (induction ss arbitrary: buf len)
  case (Cons s ss)
  obtain buf1 where b: "snprintf_at s (buf, len) = Some (buf1, len + length s)" "length buf1 = length buf"
    "take (len + length s) buf1 = take len buf @ s"
    using snprintf_at_fits [of len s buf] Cons.prems by auto
  obtain buf2 where "snprintf_all ss (buf1, len + length s) = Some (buf2, len + length s + length (concat ss))"
    "length buf2 = length buf1" "take (len + length s + length (concat ss)) buf2 = take (len + length s) buf1 @ concat ss"
    using Cons.IH [of "len + length s" buf1] Cons.prems b(2) by auto
  then show ?case using b by (intro exI [of _ buf2]) (simp add: add.assoc)
qed simp

lemma length_columns: "length (concat (dump_columns row)) = 49"
proof -
  have "map length (dump_columns row) = [3, 3, 3, 3, 3, 3, 3, 4, 3, 3, 3, 3, 3, 3, 3, 3]"
    by (simp add: dump_columns_def dump_gap_def hex_pad_def upt_rec)
  then have "sum_list (map length (dump_columns row)) = 49" by (simp only:) simp
  then show ?thesis by (simp add: length_concat)
qed

lemma length_line: "length (concat (dump_line off row)) = 64 + length row"
proof -
  have "length (concat (map (\<lambda>c. [if isprint c then c else 46]) row)) = length row" by (induction row) auto
  then show ?thesis by (simp add: dump_line_def length_columns hex_pad_def)
qed

text \<open>The lines of a dump.\<close>

fun dump_lines :: "nat \<Rightarrow> bytes \<Rightarrow> bytes" where
  "dump_lines off data =
     (if data = [] then [] else concat (dump_line off (take 16 data)) @ dump_lines (off + 16) (drop 16 data))"

declare dump_lines.simps [simp del]

lemma dump_step:
  assumes "data \<noteq> []" "len + 64 + min 16 (length data) < length buf"
  shows "\<exists>buf1. dump_loop off data (buf, len) = dump_loop (off + 16) (drop 16 data) (buf1, len + 64 + min 16 (length data)) \<and>
    length buf1 = length buf \<and> take (len + 64 + min 16 (length data)) buf1 = take len buf @ concat (dump_line off (take 16 data))"
proof -
  let ?line = "dump_line off (take 16 data)"
  have line: "length (concat ?line) = 64 + min 16 (length data)" by (simp add: length_line min.commute)
  obtain buf1 where b: "snprintf_all ?line (buf, len) = Some (buf1, len + length (concat ?line))" "length buf1 = length buf"
    "take (len + length (concat ?line)) buf1 = take len buf @ concat ?line"
    using snprintf_all_fits [of len ?line buf] assms(2) line by auto
  have "\<not> length buf - 1 \<le> len" using assms(2) by linarith
  then have "dump_loop off data (buf, len) = dump_loop (off + 16) (drop 16 data) (buf1, len + length (concat ?line))"
    using assms(1) b(1) by (subst dump_loop.simps) simp
  then show ?thesis using b(2,3) line by (intro exI [of _ buf1]) (simp add: add.assoc)
qed

definition dump_size :: "nat \<Rightarrow> nat" where
  "dump_size n = 80 * (n div 16) + (if n mod 16 = 0 then 0 else 64 + n mod 16)"

lemma dump_size_step: "0 < n \<Longrightarrow> dump_size n = 64 + min 16 n + dump_size (n - 16)"
  by (cases "n < 16") (auto simp: dump_size_def le_div_geq le_mod_geq)

lemma dump_loop_fits:
  "len + dump_size (length data) < length buf \<Longrightarrow>
   \<exists>buf'. dump_loop off data (buf, len) = Some (buf', len + dump_size (length data)) \<and> length buf' = length buf \<and>
     take (len + dump_size (length data)) buf' = take len buf @ dump_lines off data"
proof (induction data arbitrary: off buf len rule: length_induct)
  case (1 data)
  show ?case
  proof (cases "data = []")
    case True
    then show ?thesis by (simp add: dump_loop.simps [of off] dump_lines.simps [of off] dump_size_def)
  next
    case False
    have size: "dump_size (length data) = 64 + min 16 (length data) + dump_size (length (drop 16 data))"
      using dump_size_step [of "length data"] False by simp
    let ?len = "len + 64 + min 16 (length data)"
    obtain buf1 where b: "dump_loop off data (buf, len) = dump_loop (off + 16) (drop 16 data) (buf1, ?len)" "length buf1 = length buf"
      "take ?len buf1 = take len buf @ concat (dump_line off (take 16 data))"
      using dump_step [OF False, of len buf off] "1.prems" size by auto
    have "length (drop 16 data) < length data" "?len + dump_size (length (drop 16 data)) < length buf1"
      using False "1.prems" size b(2) by auto
    then obtain buf' where "dump_loop (off + 16) (drop 16 data) (buf1, ?len) = Some (buf', ?len + dump_size (length (drop 16 data)))"
      "length buf' = length buf1" "take (?len + dump_size (length (drop 16 data))) buf' = take ?len buf1 @ dump_lines (off + 16) (drop 16 data)"
      using "1.IH" by blast
    then show ?thesis using b size False by (intro exI [of _ buf']) (simp add: dump_lines.simps [of off] add.assoc)
  qed
qed

section \<open>Beyond the buffer\<close>

lemma dump_full_lines:
  "16 * j \<le> length data \<Longrightarrow> len + 80 * j < length buf \<Longrightarrow>
   \<exists>buf'. dump_loop off data (buf, len) = dump_loop (off + 16 * j) (drop (16 * j) data) (buf', len + 80 * j) \<and> length buf' = length buf"
proof (induction j arbitrary: off data buf len)
  case (Suc j)
  have "data \<noteq> []" "min 16 (length data) = 16" using Suc.prems(1) by auto
  then obtain buf1 where b: "dump_loop off data (buf, len) = dump_loop (off + 16) (drop 16 data) (buf1, len + 80)" "length buf1 = length buf"
    using dump_step [of data len buf off] Suc.prems(2) by (auto simp: add.commute)
  have "16 * j \<le> length (drop 16 data)" using Suc.prems(1) by simp
  then obtain buf2 where "dump_loop (off + 16) (drop 16 data) (buf1, len + 80) =
      dump_loop (off + 16 + 16 * j) (drop (16 * j) (drop 16 data)) (buf2, len + 80 + 80 * j)" "length buf2 = length buf1"
    using Suc.IH [of "drop 16 data" "len + 80" buf1 "off + 16"] Suc.prems b(2) by auto
  then show ?case using b by (intro exI [of _ buf2]) (simp add: add.assoc add.commute)
qed auto

lemma snprintf_all_append: "snprintf_all (xs @ ys) st = Option.bind (snprintf_all xs st) (snprintf_all ys)"
proof (induction xs arbitrary: st)
  case (Cons s xs)
  then have "snprintf_all (xs @ ys) = (\<lambda>st. Option.bind (snprintf_all xs st) (snprintf_all ys))" by (intro ext)
  then show ?case by simp
qed simp

lemma last_line_leaves:
  assumes "length buf = 8192"
  shows "snprintf_all (dump_line off row) (buf, 8160) = None"
proof -
  let ?col = "\<lambda>i. (if i < length row then hex_pad 2 (unat (row ! i)) else [32, 32]) @ dump_gap i"
  let ?first = "(hex_pad 8 off @ [32, 32]) # map ?col [0..<7]"
  let ?tail = "[[32, 32, 124]] @ map (\<lambda>c. [if isprint c then c else 46]) row @ [[124, 10]]"
  have "[0..<16] = [0..<7] @ 7 # 8 # [9..<16]" by (simp add: upt_rec)
  then have line: "dump_line off row = ?first @ ?col 7 # ?col 8 # (map ?col [9..<16] @ ?tail)"
    by (simp add: dump_line_def dump_columns_def)
  have "length (concat ?first) = 31" by (simp add: upt_rec hex_pad_def dump_gap_def)
  then obtain buf1 where b: "snprintf_all ?first (buf, 8160) = Some (buf1, 8191)" "length buf1 = 8192"
    using snprintf_all_fits [of 8160 ?first buf] assms by auto
  have len7: "length (?col 7) = 4" by (simp add: hex_pad_def dump_gap_def)
  obtain buf2 where s7: "snprintf_at (?col 7) (buf1, 8191) = Some (buf2, 8195)" "length buf2 = 8192"
    using b(2) len7 by (auto simp: snprintf_at_def mem_put_def)
  have s8: "snprintf_at (?col 8) (buf2, 8195) = None" using s7(2) by (simp add: snprintf_at_def)
  have rest: "snprintf_all (?col 7 # ?col 8 # rest) (buf1, 8191) = None" for rest
    by (simp only: snprintf_all.simps s7(1) s8 Option.bind.simps)
  show ?thesis unfolding line snprintf_all_append [of ?first] b(1) Option.bind.simps by (rule rest)
qed

text \<open>\<^verbatim>\<open>_log_hexdump\<close> stays in its buffer exactly for data of at most 1632 bytes, 102 lines; what it then hands to the log
  is the lines of the dump.\<close>

theorem hexdump_limit:
  assumes "length mem = 8 * LOG_MAX_LEN" "0 \<le> lg_fd l" "lg_inited l \<le> 0"
  shows "log_hexdump l mem data = (if length data \<le> 1632 then Some (Some (dump_lines 0 data)) else None)"
proof -
  have mem: "length mem = 8192" using assms(1) by (simp add: LOG_MAX_LEN_def)
  show ?thesis
  proof (cases "length data \<le> 1632")
    case True
    have "dump_size (length data) \<le> 8160"
    proof (cases "length data = 1632")
      case False
      then have "length data div 16 < 102" using True by (simp add: less_mult_imp_div_less)
      moreover have "length data mod 16 \<le> 15" using mod_less_divisor [of 16 "length data"] by linarith
      ultimately show ?thesis by (simp add: dump_size_def)
    qed (simp add: dump_size_def)
    then show ?thesis using dump_loop_fits [of 0 data mem 0] mem True assms(2,3) by (auto simp: log_hexdump_def)
  next
    case False
    obtain buf where b: "dump_loop 0 data (mem, 0) = dump_loop 1632 (drop 1632 data) (buf, 8160)" "length buf = 8192"
      using dump_full_lines [of 102 data 0 mem 0] False mem by auto
    have "dump_loop 1632 (drop 1632 data) (buf, 8160) = None"
      using last_line_leaves [OF b(2)] False b(2) by (subst dump_loop.simps) simp
    then show ?thesis using b(1) False assms(2,3) by (simp add: log_hexdump_def)
  qed
qed

lemma hexdump_limit_witness:
  "log_hexdump zero_logger (replicate 8192 0) (replicate 1633 0) = None"
  using hexdump_limit [of "replicate 8192 0" zero_logger "replicate 1633 0"] by (simp add: LOG_MAX_LEN_def zero_logger_def)

end
