(* ===== verification/Srv_Config.thy ===== *)
theory Srv_Config
  imports Pm_Util_Props Srv_Sys
begin

text \<open>
  config.cpp: the settings, their defaults, and the parser of the configuration file. A string
  that is \<^verbatim>\<open>NULL\<close> is \<^const>\<open>None\<close>. The result \<^const>\<open>None\<close> of the parser is undefined behaviour.
\<close>

section \<open>Settings\<close>

record settings =
  s_cfgpath :: "bytes option"
  s_username :: "bytes option"
  s_pidfile :: "bytes option"
  s_maxconns :: int
  s_port :: int
  s_socketpath :: "bytes option"
  s_access :: int
  s_num_threads :: int
  s_num_threads_per_udp :: int
  s_prefix_delimiter :: byte
  s_reqs_per_event :: int
  s_backlog :: int
  s_verbose :: int
  s_index_path :: "bytes option"
  s_chinese_map_file :: "bytes option"
  s_max_depth :: int
  s_log_path :: "bytes option"
  s_log_level :: "bytes option"
  s_monitor_port :: "16 word"
  s_monitor_timeout :: int

definition LISTEN_PORT :: int where "LISTEN_PORT = 10000"

text \<open>The global before \<^verbatim>\<open>settings_init\<close>, which leaves \<^verbatim>\<open>access\<close>, \<^verbatim>\<open>log_level\<close> and \<^verbatim>\<open>monitor_port\<close> alone.\<close>

definition zero_settings :: settings where
  "zero_settings =
     \<lparr>s_cfgpath = None, s_username = None, s_pidfile = None, s_maxconns = 0, s_port = 0, s_socketpath = None, s_access = 0,
      s_num_threads = 0, s_num_threads_per_udp = 0, s_prefix_delimiter = 0, s_reqs_per_event = 0, s_backlog = 0, s_verbose = 0, s_index_path = None, s_chinese_map_file = None,
      s_max_depth = 0, s_log_path = None, s_log_level = None, s_monitor_port = 0, s_monitor_timeout = 0\<rparr>"

definition settings_init :: "settings \<Rightarrow> settings" where
  "settings_init s =
     s\<lparr>s_cfgpath := None, s_username := None, s_pidfile := None, s_log_path := None, s_port := LISTEN_PORT, s_maxconns := 1024,
       s_verbose := 0, s_socketpath := None, s_num_threads := 4, s_reqs_per_event := 20, s_backlog := 1024,
       s_index_path := None, s_chinese_map_file := None, s_max_depth := 1024, s_monitor_timeout := 10\<rparr>"

section \<open>One setting\<close>

text \<open>\<^verbatim>\<open>atoi\<close> as the C library has it: \<^verbatim>\<open>(int)strtol(s, NULL, 10)\<close>, where \<^verbatim>\<open>strtol\<close> saturates.\<close>

definition atoi :: "bytes \<Rightarrow> int" where
  "atoi str =
     (case strto_scan str of None \<Rightarrow> 0
      | Some (neg, v, _) \<Rightarrow> as_int (max (- (2 ^ 63)) (min (2 ^ 63 - 1) (if neg then - int v else int v))))"

text \<open>\<^verbatim>\<open>!strncmp(str, key, strlen(str))\<close>: the name is only compared with the start of the key.\<close>

definition key_is :: "bytes \<Rightarrow> bytes \<Rightarrow> bool" where
  "key_is str key \<longleftrightarrow> take (length str) key = str"

definition set_config_int :: "bytes \<Rightarrow> ((int \<Rightarrow> int) \<Rightarrow> settings \<Rightarrow> settings) \<Rightarrow> bytes \<Rightarrow> bytes \<Rightarrow> settings \<Rightarrow> settings" where
  "set_config_int str upd key val s = (if key_is str key then upd (\<lambda>_. atoi val) s else s)"

definition set_config_short :: "bytes \<Rightarrow> ((16 word \<Rightarrow> 16 word) \<Rightarrow> settings \<Rightarrow> settings) \<Rightarrow> bytes \<Rightarrow> bytes \<Rightarrow> settings \<Rightarrow> settings" where
  "set_config_short str upd key val s = (if key_is str key then upd (\<lambda>_. word_of_int (atoi val)) s else s)"

definition set_config_str ::
  "bytes \<Rightarrow> ((bytes option \<Rightarrow> bytes option) \<Rightarrow> settings \<Rightarrow> settings) \<Rightarrow> bytes \<Rightarrow> bytes \<Rightarrow> settings \<Rightarrow> settings" where
  "set_config_str str upd key val s = (if key_is str key then upd (\<lambda>_. Some val) s else s)"

lemmas set_config_defs = set_config_int_def set_config_short_def set_config_str_def

definition apply_config :: "bytes \<Rightarrow> bytes \<Rightarrow> settings \<Rightarrow> settings" where
  "apply_config key val s0 =
     (let s1 = set_config_str (lit ''username'') s_username_update key val s0;
          s2 = set_config_str (lit ''pidfile'') s_pidfile_update key val s1;
          s3 = set_config_str (lit ''unixpath'') s_socketpath_update key val s2;
          s4 = set_config_int (lit ''port'') s_port_update key val s3;
          s5 = set_config_int (lit ''verbose'') s_verbose_update key val s4;
          s6 = set_config_int (lit ''maxconn'') s_maxconns_update key val s5;
          s7 = set_config_int (lit ''verbose'') s_verbose_update key val s6;
          s8 = set_config_int (lit ''threads'') s_num_threads_update key val s7;
          s9 = set_config_int (lit ''backlog'') s_backlog_update key val s8;
          s10 = set_config_int (lit ''max_requests'') s_reqs_per_event_update key val s9;
          s11 = set_config_str (lit ''chinese_map_file'') s_chinese_map_file_update key val s10;
          s12 = set_config_str (lit ''index_file'') s_index_path_update key val s11;
          s13 = set_config_int (lit ''max_depth'') s_max_depth_update key val s12;
          s14 = set_config_str (lit ''log_path'') s_log_path_update key val s13;
          s15 = set_config_str (lit ''log_level'') s_log_level_update key val s14;
          s16 = set_config_short (lit ''monitor_port'') s_monitor_port_update key val s15
      in set_config_int (lit ''monitor_timeout'') s_monitor_timeout_update key val s16)"

section \<open>The file\<close>

definition bufsize :: nat where "bufsize = 1024"

text \<open>\<^verbatim>\<open>fgets(buf, bufsize, fp)\<close> and what is left of the file.\<close>

definition fgets :: "bytes \<Rightarrow> bytes \<times> bytes" where
  "fgets content =
     (let line = takeWhile (\<lambda>b. b \<noteq> 10) content;
          n = min (bufsize - 1) (if length line < length content then length line + 1 else length line)
      in (take n content, drop n content))"

text \<open>
  The body of the loop. The last character is cut off whatever it is, then a carriage return;
  \<^verbatim>\<open>buf[strlen(buf) - 1]\<close> of an empty string lies before the buffer.
\<close>

definition config_line :: "bytes \<Rightarrow> settings \<Rightarrow> settings option" where
  "config_line buf s =
     (let str = takeWhile (\<lambda>b. b \<noteq> 0) buf
      in if str = [] \<or> butlast str = [] then None
         else let str2 = (if last (butlast str) = 13 then butlast (butlast str) else butlast str)
              in do {
                (n, buf3) \<leftarrow> delstr (str2 @ [0]) [32, 9];
                (if n = 0 \<or> hd buf3 = 35 then Some s
                 else do {
                   (result, buf4) \<leftarrow> parse_string_fast buf3 61;
                   (if length result \<noteq> 2 then Some s
                    else Some (apply_config (cstr_in buf4 (result ! 0)) (cstr_in buf4 (result ! 1)) s)) }) })"

lemma fgets_rest: "content \<noteq> [] \<Longrightarrow> length (snd (fgets content)) < length content"
  by (cases content) (auto simp: fgets_def bufsize_def Let_def)

function config_loop :: "bytes \<Rightarrow> settings \<Rightarrow> settings option" where
  "config_loop content s =
     (if content = [] then Some s
      else case config_line (fst (fgets content)) s of None \<Rightarrow> None
        | Some s' \<Rightarrow> config_loop (snd (fgets content)) s')"
  by pat_completeness auto
termination
  by (relation "measure (length \<circ> fst)") (simp_all add: fgets_rest)

declare config_loop.simps [simp del]

lemma config_loop_Nil [simp]: "config_loop [] s = Some s"
  by (simp add: config_loop.simps)

text \<open>The files of the system are an argument: the content, or \<^const>\<open>None\<close> when \<^verbatim>\<open>fopen\<close> fails.\<close>

definition parse_config :: "(bytes \<Rightarrow> bytes option) \<Rightarrow> settings \<Rightarrow> settings option" where
  "parse_config files s = do {
     path \<leftarrow> s_cfgpath s;
     (if path = [] then Some s
      else case files path of None \<Rightarrow> Some s | Some content \<Rightarrow> config_loop content s) }"

definition check_settings :: "settings \<Rightarrow> int option" where
  "check_settings s = do {
     cfg \<leftarrow> s_cfgpath s;
     (if cfg = [] then Some (- 1)
      else do {
        ix \<leftarrow> s_index_path s;
        (if ix = [] then Some (- 1)
         else do {
           cm \<leftarrow> s_chinese_map_file s;
           Some (if cm = [] then - 1 else 0) }) }) }"

section \<open>Files of settings\<close>

text \<open>Lines \<open>key=value\<close>, as the parser means to read them.\<close>

definition plain :: "bytes \<Rightarrow> bool" where
  "plain t \<longleftrightarrow> set t \<inter> {0, 9, 10, 13, 32, 61} = {}"

definition config_ok :: "bytes \<times> bytes \<Rightarrow> bool" where
  "config_ok kv \<longleftrightarrow> plain (fst kv) \<and> plain (snd kv) \<and> fst kv \<noteq> [] \<and> hd (fst kv) \<noteq> 35 \<and>
     length (fst kv) + length (snd kv) + 2 < bufsize"

definition config_text :: "bytes \<times> bytes \<Rightarrow> bytes" where
  "config_text kv = fst kv @ [61] @ snd kv @ [10]"

lemma plainD:
  assumes "plain t"
  shows "nul_free t" "\<forall>b\<in>set t. b \<noteq> 10" "61 \<notin> set t" "filter (\<lambda>x. x \<notin> set [32, 9]) t = t" "t \<noteq> [] \<Longrightarrow> last t \<noteq> 13"
proof -
  show "nul_free t" "\<forall>b\<in>set t. b \<noteq> 10" "61 \<notin> set t" "filter (\<lambda>x. x \<notin> set [32, 9]) t = t"
    using assms by (auto simp: plain_def nul_free_def filter_id_conv)
  assume "t \<noteq> []"
  then have "last t \<in> set t" by simp
  then show "last t \<noteq> 13" using assms by (auto simp: plain_def)
qed

text \<open>The body of the loop on a line whose last character has been read.\<close>

lemma config_line_ok:
  assumes ok: "plain k" "plain v" "k \<noteq> []" "hd k \<noteq> 35" and c: "c \<noteq> 0"
  shows "config_line (k @ [61] @ v @ [c]) s = Some (apply_config k v s)"
proof -
  let ?l = "k @ 61 # v"
  have nf: "nul_free ?l" using plainD(1) ok by simp
  have tw: "takeWhile (\<lambda>b. b \<noteq> 0) (?l @ [c]) = ?l @ [c]" using nf c by (auto simp: nul_free_def)
  have cr: "last ?l \<noteq> 13" using plainD(5) [OF ok(2)] by auto
  have "filter (\<lambda>x. x \<notin> set [32, 9]) ?l = ?l" using plainD(4) ok(1,2) by auto
  then have d: "delstr (?l @ [0]) [32, 9] = Some (length ?l, ?l @ [0])" using delstr_eq [OF nf, of "[]" "[32, 9]"] by (simp add: Let_def)
  obtain dest buf where p: "parse_string_fast (?l @ [0]) 61 = Some (dest, buf)"
    "map (cstr_in buf) dest = take MAX_KEYWORD_LENGTH (fields_of {61} ?l)"
    using parse_string_fast_eq [of 61 ?l "[]"] nf by auto
  have "\<forall>c\<in>set k. c \<notin> {61}" "\<forall>c\<in>set v. c \<notin> {61}" using plainD(3) [OF ok(1)] plainD(3) [OF ok(2)] by auto
  then have "fields_of {61} ?l = [k, v]" using fields_split [of k "{61}" 61 v] fields_no_sep [of v "{61}"] by simp
  then have f: "map (cstr_in buf) dest = [k, v]" using p(2) by (simp add: MAX_KEYWORD_LENGTH_def)
  then obtain a b where ab: "dest = [a, b]" "cstr_in buf a = k" "cstr_in buf b = v" by auto
  have hd: "hd (?l @ [0]) \<noteq> 35" using ok(3,4) by (cases k) auto
  show ?thesis
    using tw cr d p(1) ab hd ok(3) by (simp add: config_line_def Let_def butlast_append)
qed

lemma fgets_line:
  assumes "\<forall>b\<in>set l. b \<noteq> 10" "length l + 1 < bufsize"
  shows "fgets (l @ [10] @ rest) = (l @ [10], rest)"
  using assms by (simp add: fgets_def Let_def takeWhile_append2)

lemma config_loop_lines:
  "\<forall>kv\<in>set kvs. config_ok kv \<Longrightarrow>
   config_loop (concat (map config_text kvs) @ rest) s = config_loop rest (foldl (\<lambda>s (k, v). apply_config k v s) s kvs)"
proof (induction kvs arbitrary: s)
  case (Cons kv kvs)
  obtain k v where kv: "kv = (k, v)" by (cases kv)
  have ok: "plain k" "plain v" "k \<noteq> []" "hd k \<noteq> 35" "length k + length v + 2 < bufsize" using Cons.prems by (auto simp: config_ok_def kv)
  let ?more = "concat (map config_text kvs) @ rest"
  have "fgets ((k @ [61] @ v) @ [10] @ ?more) = ((k @ [61] @ v) @ [10], ?more)"
    by (rule fgets_line) (use plainD(2) ok in auto)
  then have "config_loop (config_text kv @ ?more) s = config_loop ?more (apply_config k v s)"
    using config_line_ok [OF ok(1-4), of 10] by (subst config_loop.simps) (simp add: config_text_def kv)
  then show ?case using Cons by (simp add: kv)
qed simp

lemma config_kept:
  "(\<And>f s. g (su f s) = g s) \<Longrightarrow> g (set_config_str n su key val s) = g s"
  "(\<And>f s. g (iu f s) = g s) \<Longrightarrow> g (set_config_int n iu key val s) = g s"
  "(\<And>f s. g (wu f s) = g s) \<Longrightarrow> g (set_config_short n wu key val s) = g s"
  by (simp_all add: set_config_defs)

lemma port_set:
  "s_port (set_config_int n s_port_update key val s) = (if take (length n) key = n then atoi val else s_port s)"
  by (simp add: set_config_int_def key_is_def)

text \<open>Two lines of the repository's \<^verbatim>\<open>server.cfg\<close>, as the witnesses below use them.\<close>

definition with_path :: settings where "with_path = zero_settings\<lparr>s_cfgpath := Some [99]\<rparr>"

lemma with_path_simps [simp]: "s_cfgpath with_path = Some [99]"
  by (simp add: with_path_def)

lemma sample_values: "atoi (lit ''80'') = 80" "atoi (lit ''8'') = 8" "atoi (lit ''2'') = 2"
  by code_simp+

lemma sample_lines: "config_ok (lit ''port'', lit ''80'')" "config_ok (lit ''threads'', lit ''2'')"
  by code_simp+

lemma sample_apply:
  "apply_config (lit ''port'') v s = s\<lparr>s_port := atoi v\<rparr>" "apply_config (lit ''threads'') v s = s\<lparr>s_num_threads := atoi v\<rparr>"
  by (simp_all add: apply_config_def set_config_defs key_is_def Let_def lit_def)

lemma sample_text:
  "config_text (lit ''port'', lit ''80'') = lit ''port=80'' @ [10]" "config_text (lit ''threads'', lit ''2'') = lit ''threads=2'' @ [10]"
  by (simp_all add: config_text_def lit_def)

lemma set_log_level:
  "s_log_level (set_config_str n s_log_level_update key val s) = (if key_is n key then Some val else s_log_level s)"
  by (simp add: set_config_str_def)

lemma apply_config_log_level:
  "s_log_level (apply_config key val s) = (if key_is (lit ''log_level'') key then Some val else s_log_level s)"
  unfolding apply_config_def Let_def by (simp add: config_kept [where g = s_log_level] set_log_level)

section \<open>Properties\<close>

text \<open>C32: a file of \<open>key=value\<close> lines applies the settings in the order of the lines.\<close>

theorem parse_config_applies:
  assumes "s_cfgpath s = Some path" "path \<noteq> []" "files path = Some (concat (map config_text kvs))" "\<forall>kv\<in>set kvs. config_ok kv"
  shows "parse_config files s = Some (foldl (\<lambda>s (k, v). apply_config k v s) s kvs)"
  using config_loop_lines [OF assms(4), of "[]" s] assms(1-3) by (simp add: parse_config_def)

lemma parse_config_applies_witness:
  "parse_config (\<lambda>_. Some (lit ''port=80'' @ [10] @ lit ''threads=2'' @ [10])) with_path =
   Some (with_path\<lparr>s_port := 80, s_num_threads := 2\<rparr>)"
  using parse_config_applies [of with_path "[99]" _ "[(lit ''port'', lit ''80''), (lit ''threads'', lit ''2'')]"]
  by (simp add: sample_values sample_lines sample_apply sample_text)

text \<open>An empty line is undefined behaviour, wherever it stands; the \<^verbatim>\<open>server.cfg\<close> of the repository has several.\<close>

theorem parse_config_empty_line:
  assumes "s_cfgpath s = Some path" "path \<noteq> []" "files path = Some (concat (map config_text kvs) @ [10] @ rest)" "\<forall>kv\<in>set kvs. config_ok kv"
  shows "parse_config files s = None"
proof -
  have "config_loop ([10] @ rest) s' = None" for s'
    using fgets_line [of "[]" rest] by (subst config_loop.simps) (simp add: config_line_def Let_def bufsize_def)
  then show ?thesis using config_loop_lines [OF assms(4), of "[10] @ rest" s] assms(1-3) by (simp add: parse_config_def)
qed

lemma parse_config_empty_line_witness:
  "parse_config (\<lambda>_. Some (lit ''port=80'' @ [10] @ [10] @ lit ''threads=2'' @ [10])) with_path = None"
  using parse_config_empty_line [of with_path "[99]" _ "[(lit ''port'', lit ''80'')]" "lit ''threads=2'' @ [10]"]
  by (simp add: sample_lines sample_text)

text \<open>Without a newline at the end of the file, the value of the last line loses its last character.\<close>

theorem parse_config_cuts_last:
  assumes "s_cfgpath s = Some path" "path \<noteq> []" "files path = Some (concat (map config_text kvs) @ k @ [61] @ v @ [c])"
    and "\<forall>kv\<in>set kvs. config_ok kv" "config_ok (k, v @ [c])"
  shows "parse_config files s = Some (apply_config k v (foldl (\<lambda>s (k, v). apply_config k v s) s kvs))"
proof -
  have ok: "plain k" "plain v" "k \<noteq> []" "hd k \<noteq> 35" "c \<noteq> 0" "c \<noteq> 10" "length k + length v + 3 < bufsize"
    using assms(5) by (auto simp: config_ok_def plain_def)
  have "\<forall>b\<in>set (k @ [61] @ v @ [c]). b \<noteq> 10" using plainD(2) ok(1,2,6) by auto
  then have "fgets (k @ [61] @ v @ [c]) = (k @ [61] @ v @ [c], [])"
    using ok(7) by (simp add: fgets_def Let_def takeWhile_append2)
  then have "config_loop (k @ [61] @ v @ [c]) s' = Some (apply_config k v s')" for s'
    using config_line_ok [OF ok(1-5)] by (subst config_loop.simps) simp
  then show ?thesis using config_loop_lines [OF assms(4)] assms(1-3) by (simp add: parse_config_def)
qed

lemma parse_config_cuts_last_witness:
  "parse_config (\<lambda>_. Some (lit ''port'' @ [61] @ lit ''8'' @ [48])) with_path = Some (with_path\<lparr>s_port := 8\<rparr>)"
proof -
  have "lit ''80'' = lit ''8'' @ [48]" by (simp add: lit_def)
  then show ?thesis
    using parse_config_cuts_last [of with_path "[99]" _ "[]" "lit ''port''" "lit ''8''" 48] sample_lines(1)
    by (simp add: sample_values sample_apply)
qed

text \<open>The name of a setting is recognised by its start: every key that begins with \<^verbatim>\<open>port\<close> sets the port, and no other.\<close>

theorem apply_config_port:
  "s_port (apply_config key val s) = (if take 4 key = lit ''port'' then atoi val else s_port s)"
proof -
  have "lit ''port'' = [112, 111, 114, 116]" by (simp add: lit_def)
  then show ?thesis unfolding apply_config_def Let_def by (simp add: config_kept [where g = s_port] port_set numeral_eq_Suc)
qed

end
