(* ===== verification/Srv_Reload.thy ===== *)
theory Srv_Reload
  imports Pm_Query
begin

text \<open>
  The index under change: queries of prefixmatch.cpp that read \<^verbatim>\<open>g_index\<close> under the read lock while
  \<^verbatim>\<open>Reload_index\<close> loads a new file, switches the index under the write lock and unmaps the old one.
  Threads interleave between two accesses to shared state. A mapping is known by its address;
  \<open>rs_history\<close> records the indexes that were current and is read by no step.
\<close>

section \<open>The lock\<close>

text \<open>\<^verbatim>\<open>pthread_rwlock_t\<close>; \<^const>\<open>None\<close> is a call that blocks.\<close>

record rwlock =
  rw_readers :: nat
  rw_writer :: bool

definition rdlock :: "rwlock \<Rightarrow> rwlock option" where
  "rdlock l = (if rw_writer l then None else Some (l\<lparr>rw_readers := rw_readers l + 1\<rparr>))"

definition wrlock :: "rwlock \<Rightarrow> rwlock option" where
  "wrlock l = (if rw_writer l \<or> 0 < rw_readers l then None else Some (l\<lparr>rw_writer := True\<rparr>))"

definition rwunlock :: "rwlock \<Rightarrow> rwlock" where
  "rwunlock l = (if rw_writer l then l\<lparr>rw_writer := False\<rparr> else l\<lparr>rw_readers := rw_readers l - 1\<rparr>)"

section \<open>State\<close>

text \<open>\<^verbatim>\<open>g_index\<close> as the threads see it: where the file is mapped, and what the object holds.\<close>

record index_ref =
  lo_addr :: nat
  lo_obj :: indexobj

text \<open>
  A thread in \<^verbatim>\<open>Query\<close>: called, waiting for the lock, reading with the spellings to come, past the
  unlock, returned. \<open>Q_fault\<close> is an access to memory that is not mapped.
\<close>

datatype query_pc = Q_idle | Q_call bytes | Q_lock bytes "bytes list" "bytes list"
  | Q_read bytes "bytes list" "bytes list" "string_array key_value_pair list"
  | Q_end bytes "bytes list" "string_array key_value_pair list" | Q_done bytes "int \<times> bytes list" | Q_fault

text \<open>A thread in \<^verbatim>\<open>Reload_index\<close>, by the statement it executes next.\<close>

datatype reload_pc = R_idle | R_check index_ref | R_set index_ref | R_load index_ref | R_lock index_ref index_ref
  | R_switch index_ref index_ref | R_unlock index_ref | R_unmap index_ref | R_reset

record reload =
  rs_index :: index_ref
  rs_pages :: "nat set"
  rs_lock :: rwlock
  rs_reloading :: bool
  rs_queries :: "query_pc list"
  rs_reloads :: "reload_pc list"
  rs_history :: "indexobj list"

text \<open>After \<^verbatim>\<open>Init_Index\<close>, with \<open>nq\<close> threads that answer queries and \<open>nr\<close> that may reload.\<close>

definition reload_init :: "nat \<Rightarrow> nat \<Rightarrow> index_ref \<Rightarrow> reload" where
  "reload_init nq nr ix =
     \<lparr>rs_index = ix, rs_pages = {lo_addr ix}, rs_lock = \<lparr>rw_readers = 0, rw_writer = False\<rparr>, rs_reloading = False,
      rs_queries = replicate nq Q_idle, rs_reloads = replicate nr R_idle, rs_history = [lo_obj ix]\<rparr>"

abbreviation set_query :: "nat \<Rightarrow> query_pc \<Rightarrow> reload \<Rightarrow> reload" where
  "set_query t pc s \<equiv> s\<lparr>rs_queries := (rs_queries s)[t := pc]\<rparr>"

abbreviation set_reload :: "nat \<Rightarrow> reload_pc \<Rightarrow> reload \<Rightarrow> reload" where
  "set_reload i pc s \<equiv> s\<lparr>rs_reloads := (rs_reloads s)[i := pc]\<rparr>"

section \<open>Queries\<close>

text \<open>The statements of \<^verbatim>\<open>Query\<close> before the lock; \<^const>\<open>None\<close> when they do not end.\<close>

definition q_begin :: "hashMap \<Rightarrow> nat \<Rightarrow> bytes \<Rightarrow> reload \<Rightarrow> reload option" where
  "q_begin m t str s = do {
     chin \<leftarrow> chinese_loop str 0 [];
     letters \<leftarrow> convert_to_letters str m;
     Some (set_query t (if letters = [] then Q_done str (- 1, []) else Q_lock str chin letters) s) }"

definition q_lock :: "nat \<Rightarrow> bytes \<Rightarrow> bytes list \<Rightarrow> bytes list \<Rightarrow> reload \<Rightarrow> reload option" where
  "q_lock t str chin letters s = do {
     l \<leftarrow> rdlock (rs_lock s);
     Some (set_query t (Q_read str chin letters []) (s\<lparr>rs_lock := l\<rparr>)) }"

text \<open>One iteration over the spellings: \<^verbatim>\<open>getChildren\<close> reads the mapped file.\<close>

definition q_read :: "int \<Rightarrow> nat \<Rightarrow> bytes \<Rightarrow> bytes list \<Rightarrow> bytes \<Rightarrow> bytes list \<Rightarrow> string_array key_value_pair list \<Rightarrow>
  reload \<Rightarrow> reload option" where
  "q_read depth t str chin w ws vec s =
     (if lo_addr (rs_index s) \<notin> rs_pages s then Some (set_query t Q_fault s)
      else do {
        vec' \<leftarrow> get_children_all (ix_trie (lo_obj (rs_index s))) depth [w] vec;
        Some (set_query t (Q_read str chin ws vec') s) })"

definition q_unlock :: "nat \<Rightarrow> bytes \<Rightarrow> bytes list \<Rightarrow> string_array key_value_pair list \<Rightarrow> reload \<Rightarrow> reload" where
  "q_unlock t str chin vec s = set_query t (Q_end str chin vec) (s\<lparr>rs_lock := rwunlock (rs_lock s)\<rparr>)"

definition q_filter :: "(node_item list \<Rightarrow> node_item list) \<Rightarrow> int \<Rightarrow> nat \<Rightarrow> bytes \<Rightarrow> bytes list \<Rightarrow>
  string_array key_value_pair list \<Rightarrow> reload \<Rightarrow> reload" where
  "q_filter srt depth t str chin vec s =
     set_query t (Q_done str (0, filter_result srt (concat (map kv_value vec)) chin [] depth)) s"

section \<open>Reloading\<close>

definition r_call :: "nat \<Rightarrow> reload \<Rightarrow> reload" where
  "r_call i s = set_reload i (R_check (rs_index s)) s"

definition r_check :: "nat \<Rightarrow> index_ref \<Rightarrow> reload \<Rightarrow> reload" where
  "r_check i prev s = set_reload i (if rs_reloading s then R_idle else R_set prev) s"

definition r_set :: "nat \<Rightarrow> index_ref \<Rightarrow> reload \<Rightarrow> reload" where
  "r_set i prev s = set_reload i (R_load prev) (s\<lparr>rs_reloading := True\<rparr>)"

text \<open>\<^verbatim>\<open>init_index\<close>, which maps the file at \<open>addr\<close> and leaves no mapping behind when it fails.\<close>

definition r_load :: "nat \<Rightarrow> index_ref \<Rightarrow> disk_file option \<Rightarrow> nat \<Rightarrow> reload \<Rightarrow> reload option" where
  "r_load i prev f addr s = do {
     (ret, ix) \<leftarrow> init_index f indexobj_new;
     Some (if ret \<noteq> 0 then set_reload i R_reset s
       else set_reload i (R_lock prev \<lparr>lo_addr = addr, lo_obj = ix\<rparr>) (s\<lparr>rs_pages := insert addr (rs_pages s)\<rparr>)) }"

definition r_lock :: "nat \<Rightarrow> index_ref \<Rightarrow> index_ref \<Rightarrow> reload \<Rightarrow> reload option" where
  "r_lock i prev new s = do {
     l \<leftarrow> wrlock (rs_lock s);
     Some (set_reload i (R_switch prev new) (s\<lparr>rs_lock := l\<rparr>)) }"

definition r_switch :: "nat \<Rightarrow> index_ref \<Rightarrow> index_ref \<Rightarrow> reload \<Rightarrow> reload" where
  "r_switch i prev new s =
     set_reload i (R_unlock prev) (s\<lparr>rs_index := new, rs_history := rs_history s @ [lo_obj new]\<rparr>)"

definition r_unlock :: "nat \<Rightarrow> index_ref \<Rightarrow> reload \<Rightarrow> reload" where
  "r_unlock i prev s = set_reload i (R_unmap prev) (s\<lparr>rs_lock := rwunlock (rs_lock s)\<rparr>)"

definition r_unmap :: "nat \<Rightarrow> index_ref \<Rightarrow> reload \<Rightarrow> reload" where
  "r_unmap i prev s = set_reload i R_reset (s\<lparr>rs_pages := rs_pages s - {lo_addr prev}\<rparr>)"

definition r_reset :: "nat \<Rightarrow> reload \<Rightarrow> reload" where
  "r_reset i s = set_reload i R_idle (s\<lparr>rs_reloading := False\<rparr>)"

lemmas reload_defs = q_begin_def q_lock_def q_read_def q_unlock_def q_filter_def r_call_def r_check_def r_set_def
  r_load_def r_lock_def r_switch_def r_unlock_def r_unmap_def r_reset_def rdlock_def wrlock_def

section \<open>Interleavings\<close>

text \<open>One step of thread \<open>t\<close> in \<^verbatim>\<open>Query\<close>.\<close>

inductive query_step :: "(node_item list \<Rightarrow> node_item list) \<Rightarrow> hashMap \<Rightarrow> int \<Rightarrow> nat \<Rightarrow> query_pc \<Rightarrow> reload \<Rightarrow> reload \<Rightarrow> bool"
  for srt m depth t where
  q_call: "query_step srt m depth t Q_idle s (set_query t (Q_call str) s)"
| q_begin: "q_begin m t str s = Some s' \<Longrightarrow> query_step srt m depth t (Q_call str) s s'"
| q_lock: "q_lock t str chin letters s = Some s' \<Longrightarrow> query_step srt m depth t (Q_lock str chin letters) s s'"
| q_read: "q_read depth t str chin w ws vec s = Some s' \<Longrightarrow> query_step srt m depth t (Q_read str chin (w # ws) vec) s s'"
| q_unlock: "query_step srt m depth t (Q_read str chin [] vec) s (q_unlock t str chin vec s)"
| q_filter: "query_step srt m depth t (Q_end str chin vec) s (q_filter srt depth t str chin vec s)"
| q_return: "query_step srt m depth t (Q_done str r) s (set_query t Q_idle s)"

text \<open>One step of thread \<open>i\<close> in \<^verbatim>\<open>Reload_index\<close>; \<^verbatim>\<open>mmap\<close> picks an address that is free.\<close>

inductive reload_pc_step :: "nat \<Rightarrow> reload_pc \<Rightarrow> reload \<Rightarrow> reload \<Rightarrow> bool" for i where
  r_call: "reload_pc_step i R_idle s (r_call i s)"
| r_check: "reload_pc_step i (R_check prev) s (r_check i prev s)"
| r_set: "reload_pc_step i (R_set prev) s (r_set i prev s)"
| r_load: "addr \<notin> rs_pages s \<Longrightarrow> r_load i prev f addr s = Some s' \<Longrightarrow> reload_pc_step i (R_load prev) s s'"
| r_lock: "r_lock i prev new s = Some s' \<Longrightarrow> reload_pc_step i (R_lock prev new) s s'"
| r_switch: "reload_pc_step i (R_switch prev new) s (r_switch i prev new s)"
| r_unlock: "reload_pc_step i (R_unlock prev) s (r_unlock i prev s)"
| r_unmap: "reload_pc_step i (R_unmap prev) s (r_unmap i prev s)"
| r_reset: "reload_pc_step i R_reset s (r_reset i s)"

inductive reload_run :: "(node_item list \<Rightarrow> node_item list) \<Rightarrow> hashMap \<Rightarrow> int \<Rightarrow> nat \<Rightarrow> nat \<Rightarrow> index_ref \<Rightarrow> reload \<Rightarrow> bool"
  for srt m depth nq nr ix where
  reload_start: "reload_run srt m depth nq nr ix (reload_init nq nr ix)"
| reload_query: "reload_run srt m depth nq nr ix s \<Longrightarrow> t < length (rs_queries s) \<Longrightarrow>
    query_step srt m depth t (rs_queries s ! t) s s' \<Longrightarrow> reload_run srt m depth nq nr ix s'"
| reload_thread: "reload_run srt m depth nq nr ix s \<Longrightarrow> i < length (rs_reloads s) \<Longrightarrow>
    reload_pc_step i (rs_reloads s ! i) s s' \<Longrightarrow> reload_run srt m depth nq nr ix s'"

inductive_cases query_stepE: "query_step srt m depth t pc s s'"
inductive_cases reload_pc_stepE: "reload_pc_step i pc s s'"

section \<open>What holds in every interleaving\<close>

fun reading :: "query_pc \<Rightarrow> bool" where
  "reading (Q_read str chin ws vec) = True"
| "reading Q_fault = True"
| "reading _ = False"

fun writing :: "reload_pc \<Rightarrow> bool" where
  "writing (R_switch prev new) = True"
| "writing (R_unlock prev) = True"
| "writing _ = False"

definition begun :: "hashMap \<Rightarrow> bytes \<Rightarrow> bytes list \<Rightarrow> bytes list \<Rightarrow> bool" where
  "begun m str chin letters \<longleftrightarrow> chinese_loop str 0 [] = Some chin \<and> convert_to_letters str m = Some letters \<and> letters \<noteq> []"

text \<open>A query that reads has so far done what it would do on the current index alone.\<close>

fun query_ok :: "(node_item list \<Rightarrow> node_item list) \<Rightarrow> hashMap \<Rightarrow> int \<Rightarrow> indexobj \<Rightarrow> indexobj list \<Rightarrow> query_pc \<Rightarrow> bool" where
  "query_ok srt m depth ix hist (Q_lock str chin letters) = begun m str chin letters"
| "query_ok srt m depth ix hist (Q_read str chin ws vec) =
     (\<exists>letters. begun m str chin letters \<and> get_children_all (ix_trie ix) depth letters [] = get_children_all (ix_trie ix) depth ws vec)"
| "query_ok srt m depth ix hist (Q_end str chin vec) =
     (\<exists>letters. begun m str chin letters \<and> (\<exists>ix'\<in>set hist. get_children_all (ix_trie ix') depth letters [] = Some vec))"
| "query_ok srt m depth ix hist (Q_done str r) = (\<exists>ix'\<in>set hist. Query srt m (ix_trie ix') depth str [] depth = Some r)"
| "query_ok srt m depth ix hist _ = True"

definition lock_inv :: "reload \<Rightarrow> bool" where
  "lock_inv s \<longleftrightarrow> count_if reading (rs_queries s) = rw_readers (rs_lock s) \<and>
     count_if writing (rs_reloads s) = of_bool (rw_writer (rs_lock s)) \<and> (rw_writer (rs_lock s) \<longrightarrow> rw_readers (rs_lock s) = 0)"

definition query_inv :: "(node_item list \<Rightarrow> node_item list) \<Rightarrow> hashMap \<Rightarrow> int \<Rightarrow> reload \<Rightarrow> bool" where
  "query_inv srt m depth s \<longleftrightarrow> lo_obj (rs_index s) \<in> set (rs_history s) \<and>
     (\<forall>pc\<in>set (rs_queries s). query_ok srt m depth (lo_obj (rs_index s)) (rs_history s) pc)"

lemma query_ok_mono: "query_ok srt m depth ix hist pc \<Longrightarrow> set hist \<subseteq> set hist' \<Longrightarrow> query_ok srt m depth ix hist' pc"
  by (cases pc) auto

lemma query_ok_switch: "query_ok srt m depth ix hist pc \<Longrightarrow> \<not> reading pc \<Longrightarrow> query_ok srt m depth ix' hist pc"
  by (cases pc) auto

text \<open>Steps that move one thread and keep index and history.\<close>

lemma query_inv_moved:
  assumes "query_inv srt m depth s" "rs_index s' = rs_index s" "rs_history s' = rs_history s"
    and "rs_queries s' = (rs_queries s)[t := pc]" "query_ok srt m depth (lo_obj (rs_index s)) (rs_history s) pc"
  shows "query_inv srt m depth s'"
  using assms set_update_subset_insert [of "rs_queries s" t pc] by (auto simp: query_inv_def)

lemma query_inv_same:
  assumes "query_inv srt m depth s" "rs_index s' = rs_index s" "rs_history s' = rs_history s" "rs_queries s' = rs_queries s"
  shows "query_inv srt m depth s'"
  using assms by (simp add: query_inv_def)

lemma query_step_query_inv:
  assumes "query_step srt m depth t (rs_queries s ! t) s s'" "t < length (rs_queries s)" "query_inv srt m depth s"
  shows "query_inv srt m depth s'"
proof -
  have ok: "query_ok srt m depth (lo_obj (rs_index s)) (rs_history s) (rs_queries s ! t)"
    and cur: "lo_obj (rs_index s) \<in> set (rs_history s)"
    using assms(2,3) by (auto simp: query_inv_def)
  show ?thesis
    using assms(1)
  proof (cases rule: query_step.cases)
    case (q_begin str)
    then show ?thesis using assms(3)
      by (auto simp: q_begin_def begun_def Query_def intro!: query_inv_moved [where s = s] exI [of _ "lo_obj (rs_index s)"] cur
          split: Option.bind_splits if_splits)
  next
    case (q_lock str chin letters)
    then show ?thesis using assms(3) ok
      by (auto simp: q_lock_def intro!: query_inv_moved [where s = s] split: Option.bind_splits)
  next
    case (q_read str chin w ws vec)
    then show ?thesis using assms(3) ok
      by (auto simp: q_read_def intro!: query_inv_moved [where s = s] split: Option.bind_splits if_splits prod.splits)
  next
    case (q_unlock str chin vec)
    then obtain letters where "begun m str chin letters"
      "get_children_all (ix_trie (lo_obj (rs_index s))) depth letters [] = Some vec"
      using ok by auto
    then have "query_ok srt m depth (lo_obj (rs_index s)) (rs_history s) (Q_end str chin vec)" using cur by auto
    then show ?thesis by (rule query_inv_moved [OF assms(3), rotated -1]) (simp_all add: q_unlock q_unlock_def)
  next
    case (q_filter str chin vec)
    then obtain letters ix' where ix': "begun m str chin letters" "ix' \<in> set (rs_history s)"
      "get_children_all (ix_trie ix') depth letters [] = Some vec"
      using ok by auto
    then have "Query srt m (ix_trie ix') depth str [] depth = Some (0, filter_result srt (concat (map kv_value vec)) chin [] depth)"
      by (simp add: Query_def begun_def)
    then have "query_ok srt m depth (lo_obj (rs_index s)) (rs_history s)
        (Q_done str (0, filter_result srt (concat (map kv_value vec)) chin [] depth))"
      using ix'(2) by auto
    then show ?thesis by (rule query_inv_moved [OF assms(3), rotated -1]) (simp_all add: q_filter q_filter_def)
  qed (use assms(3) in \<open>auto intro!: query_inv_moved [where s = s]\<close>)
qed

lemma query_step_lock_inv:
  assumes "query_step srt m depth t (rs_queries s ! t) s s'" "t < length (rs_queries s)" "lock_inv s"
  shows "lock_inv s'"
proof -
  note upd = count_if_update [OF assms(2), of reading] and same = moved_count [OF assms(2), of reading]
  show ?thesis
    using assms(1)
  proof (cases rule: query_step.cases)
    case (q_begin str)
    then show ?thesis using assms(3) same by (auto simp: lock_inv_def q_begin_def split: Option.bind_splits if_splits)
  next
    case (q_lock str chin letters)
    then show ?thesis using assms(3) upd [of "Q_read str chin letters []"]
      by (auto simp: lock_inv_def q_lock_def rdlock_def split: Option.bind_splits if_splits)
  next
    case (q_read str chin w ws vec)
    then show ?thesis using assms(3) same by (auto simp: lock_inv_def q_read_def split: Option.bind_splits if_splits prod.splits)
  next
    case (q_unlock str chin vec)
    then show ?thesis using assms(3) upd [of "Q_end str chin vec"] by (auto simp: lock_inv_def q_unlock_def rwunlock_def)
  next
    case (q_filter str chin vec)
    then show ?thesis using assms(3) same by (auto simp: lock_inv_def q_filter_def)
  qed (use assms(3) same in \<open>auto simp: lock_inv_def\<close>)
qed

lemma lock_inv_same:
  assumes "lock_inv s" "i < length (rs_reloads s)" "rs_queries s' = rs_queries s" "rs_lock s' = rs_lock s"
    and "rs_reloads s' = (rs_reloads s)[i := pc]" "writing (rs_reloads s ! i) = writing pc"
  shows "lock_inv s'"
  using assms(1,3-5) moved_count [OF assms(2,6)] by (simp add: lock_inv_def)

lemma reload_step_inv:
  assumes "reload_pc_step i (rs_reloads s ! i) s s'" "i < length (rs_reloads s)" "lock_inv s" "query_inv srt m depth s"
  shows "lock_inv s'" "query_inv srt m depth s'"
proof -
  note upd = count_if_update [OF assms(2), of writing] and same = moved_count [OF assms(2), of writing]
  have same_queries: "rs_queries s' = rs_queries s"
    using assms(1) by (cases rule: reload_pc_step.cases) (auto simp: reload_defs split: Option.bind_splits if_splits prod.splits)
  have "lock_inv s' \<and> query_inv srt m depth s'"
    using assms(1)
  proof (cases rule: reload_pc_step.cases)
    case (r_load addr prev f)
    then show ?thesis
      by (auto simp: r_load_def split: Option.bind_splits if_splits prod.splits intro!: lock_inv_same [OF assms(3,2)] query_inv_same [OF assms(4)])
  next
    case (r_lock prev new)
    then show ?thesis using assms(3) upd [of "R_switch prev new"] query_inv_same [OF assms(4) _ _ same_queries]
      by (auto simp: lock_inv_def r_lock_def wrlock_def split: Option.bind_splits if_splits)
  next
    case (r_switch prev new)
    have "rw_writer (rs_lock s)"
      using upd [of R_idle] assms(3) r_switch(1) by (cases "rw_writer (rs_lock s)") (simp_all add: lock_inv_def)
    then have "\<forall>pc\<in>set (rs_queries s). \<not> reading pc" using assms(3) by (auto simp: lock_inv_def count_if_zero [symmetric])
    then have "query_ok srt m depth (lo_obj new) (rs_history s @ [lo_obj new]) pc" if "pc \<in> set (rs_queries s)" for pc
      using query_ok_mono [OF query_ok_switch, of srt m depth "lo_obj (rs_index s)" "rs_history s" pc] assms(4) that
      by (simp add: query_inv_def subset_insertI)
    then have "query_inv srt m depth s'" by (simp add: r_switch(2) r_switch_def query_inv_def)
    moreover have "lock_inv s'"
      by (rule lock_inv_same [OF assms(3,2), where pc = "R_unlock prev"]) (simp_all add: r_switch r_switch_def)
    ultimately show ?thesis by simp
  next
    case (r_unlock prev)
    have "rw_writer (rs_lock s)"
      using upd [of R_idle] assms(3) r_unlock(1) by (cases "rw_writer (rs_lock s)") (simp_all add: lock_inv_def)
    then show ?thesis using r_unlock assms(3) upd [of "R_unmap prev"] query_inv_same [OF assms(4) _ _ same_queries]
      by (simp add: lock_inv_def r_unlock_def rwunlock_def)
  qed (auto simp: r_call_def r_check_def r_set_def r_unmap_def r_reset_def intro!: lock_inv_same [OF assms(3,2)] query_inv_same [OF assms(4)])
  then show "lock_inv s'" "query_inv srt m depth s'" by simp_all
qed

lemma reload_run_inv:
  "reload_run srt m depth nq nr ix s \<Longrightarrow>
   lock_inv s \<and> query_inv srt m depth s \<and> length (rs_queries s) = nq \<and> length (rs_reloads s) = nr"
proof (induction rule: reload_run.induct)
  case reload_start
  then show ?case by (simp add: reload_init_def lock_inv_def query_inv_def)
next
  case (reload_query s t s')
  moreover have "length (rs_queries s') = length (rs_queries s) \<and> length (rs_reloads s') = length (rs_reloads s)"
    using reload_query(3) by (cases rule: query_step.cases) (auto simp: reload_defs split: Option.bind_splits if_splits prod.splits)
  ultimately show ?case using query_step_lock_inv query_step_query_inv by auto
next
  case (reload_thread s i s')
  moreover have "length (rs_queries s') = length (rs_queries s) \<and> length (rs_reloads s') = length (rs_reloads s)"
    using reload_thread(3) by (cases rule: reload_pc_step.cases) (auto simp: reload_defs split: Option.bind_splits if_splits prod.splits)
  ultimately show ?case using reload_step_inv by auto
qed

section \<open>One thread that reloads\<close>

text \<open>What is mapped, by how far the reload has come.\<close>

fun pages_ok :: "index_ref \<Rightarrow> nat set \<Rightarrow> reload_pc \<Rightarrow> bool" where
  "pages_ok ix pages R_idle = (pages = {lo_addr ix})"
| "pages_ok ix pages R_reset = (pages = {lo_addr ix})"
| "pages_ok ix pages (R_check prev) = (prev = ix \<and> pages = {lo_addr ix})"
| "pages_ok ix pages (R_set prev) = (prev = ix \<and> pages = {lo_addr ix})"
| "pages_ok ix pages (R_load prev) = (prev = ix \<and> pages = {lo_addr ix})"
| "pages_ok ix pages (R_lock prev new) = (prev = ix \<and> lo_addr new \<noteq> lo_addr ix \<and> pages = {lo_addr ix, lo_addr new})"
| "pages_ok ix pages (R_switch prev new) = (prev = ix \<and> lo_addr new \<noteq> lo_addr ix \<and> pages = {lo_addr ix, lo_addr new})"
| "pages_ok ix pages (R_unlock prev) = (lo_addr prev \<noteq> lo_addr ix \<and> pages = {lo_addr ix, lo_addr prev})"
| "pages_ok ix pages (R_unmap prev) = (lo_addr prev \<noteq> lo_addr ix \<and> pages = {lo_addr ix, lo_addr prev})"

definition mapped_inv :: "reload \<Rightarrow> bool" where
  "mapped_inv s \<longleftrightarrow> Q_fault \<notin> set (rs_queries s) \<and>
     (rs_reloads s = [] \<and> rs_pages s = {lo_addr (rs_index s)} \<or> (\<exists>pc. rs_reloads s = [pc] \<and> pages_ok (rs_index s) (rs_pages s) pc))"

lemma pages_ok_mapped: "pages_ok ix pages pc \<Longrightarrow> lo_addr ix \<in> pages"
  by (cases pc) auto

lemma query_step_mapped:
  assumes "query_step srt m depth t pc s s'" "mapped_inv s"
  shows "mapped_inv s'"
proof -
  have mapped: "lo_addr (rs_index s) \<in> rs_pages s" using assms(2) pages_ok_mapped by (auto simp: mapped_inv_def)
  have "rs_index s' = rs_index s \<and> rs_pages s' = rs_pages s \<and> rs_reloads s' = rs_reloads s \<and>
      (\<exists>pc'. pc' \<noteq> Q_fault \<and> rs_queries s' = (rs_queries s)[t := pc'])"
    using assms(1) by (cases rule: query_step.cases) (auto simp: reload_defs mapped split: Option.bind_splits if_splits prod.splits)
  then show ?thesis using assms(2) set_update_subset_insert [of "rs_queries s" t] by (fastforce simp: mapped_inv_def)
qed

lemma reload_step_mapped:
  assumes "reload_pc_step i (rs_reloads s ! i) s s'" "i < length (rs_reloads s)" "mapped_inv s"
  shows "mapped_inv s'"
proof -
  obtain pc where pc: "rs_reloads s = [pc]" "pages_ok (rs_index s) (rs_pages s) pc" "i = 0" "Q_fault \<notin> set (rs_queries s)"
    using assms(2,3) by (auto simp: mapped_inv_def)
  have step: "reload_pc_step 0 pc s s'" using assms(1) pc(1,3) by simp
  have "\<exists>pc'. rs_reloads s' = [pc'] \<and> pages_ok (rs_index s') (rs_pages s') pc' \<and> rs_queries s' = rs_queries s"
    using step
  proof (cases rule: reload_pc_step.cases)
    case (r_load addr prev f)
    then show ?thesis using pc by (auto simp: r_load_def split: Option.bind_splits if_splits prod.splits)
  next
    case (r_lock prev new)
    then show ?thesis using pc by (auto simp: r_lock_def split: Option.bind_splits)
  qed (use pc in \<open>auto simp: r_call_def r_check_def r_set_def r_switch_def r_unlock_def r_unmap_def r_reset_def\<close>)
  then show ?thesis using pc(4) by (auto simp: mapped_inv_def)
qed

lemma reload_run_mapped: "reload_run srt m depth nq nr ix s \<Longrightarrow> nr \<le> 1 \<Longrightarrow> mapped_inv s"
proof (induction rule: reload_run.induct)
  case reload_start
  then have "nr = 0 \<or> nr = 1" by auto
  then show ?case by (auto simp: reload_init_def mapped_inv_def)
qed (use query_step_mapped reload_step_mapped in blast)+

section \<open>Calls that are not interrupted\<close>

lemma query_next:
  assumes "reload_run srt m depth nq nr ix s" "t < nq" "query_step srt m depth t pc s s'" "rs_queries s ! t = pc" "s' = s''"
  shows "reload_run srt m depth nq nr ix s''"
  using reload_query [OF assms(1), of t s'] reload_run_inv [OF assms(1)] assms(2-5) by simp

lemma reload_next:
  assumes "reload_run srt m depth nq nr ix s" "i < nr" "reload_pc_step i pc s s'" "rs_reloads s ! i = pc" "s' = s''"
  shows "reload_run srt m depth nq nr ix s''"
  using reload_thread [OF assms(1), of i s'] reload_run_inv [OF assms(1)] assms(2-5) by simp

lemma query_reads:
  assumes "reload_run srt m depth nq nr ix s" "t < nq" "rs_queries s ! t = Q_read str chin ws vec"
    and "lo_addr (rs_index s) \<in> rs_pages s" "get_children_all (ix_trie (lo_obj (rs_index s))) depth ws vec = Some vec'"
  shows "reload_run srt m depth nq nr ix (set_query t (Q_read str chin [] vec') s)"
  using assms
proof (induction ws arbitrary: s vec)
  case Nil
  then have "set_query t (Q_read str chin [] vec') s = s" by (metis get_children_all.simps(1) list_update_id option.inject reload.surjective reload.update_convs(5))
  then show ?case using Nil by simp
next
  case (Cons w ws)
  have len: "t < length (rs_queries s)" using reload_run_inv [OF Cons.prems(1)] Cons.prems(2) by simp
  obtain vec1 where vec1: "get_children_all (ix_trie (lo_obj (rs_index s))) depth [w] vec = Some vec1"
    "get_children_all (ix_trie (lo_obj (rs_index s))) depth ws vec1 = Some vec'"
    using Cons.prems(5) by (auto split: Option.bind_splits)
  let ?s = "set_query t (Q_read str chin ws vec1) s"
  have "reload_run srt m depth nq nr ix ?s"
    by (rule query_next [OF Cons.prems(1,2) query_step.q_read])
      (use Cons.prems(3,4) vec1(1) in \<open>auto simp: q_read_def\<close>)
  from Cons.IH [OF this Cons.prems(2) _ _ , of vec1] show ?case using Cons.prems(4) vec1(2) len by simp
qed

lemma query_alone:
  assumes run: "reload_run srt m depth nq nr ix s" and t: "t < nq" "rs_queries s ! t = Q_idle" and free: "\<not> rw_writer (rs_lock s)"
    and mapped: "lo_addr (rs_index s) \<in> rs_pages s" and b: "begun m str chin letters"
    and vec: "get_children_all (ix_trie (lo_obj (rs_index s))) depth letters [] = Some vec"
  shows "reload_run srt m depth nq nr ix (set_query t (Q_done str (0, filter_result srt (concat (map kv_value vec)) chin [] depth)) s)"
proof -
  have len: "t < length (rs_queries s)" using reload_run_inv [OF run] t(1) by simp
  let ?locked = "s\<lparr>rs_lock := (rs_lock s)\<lparr>rw_readers := rw_readers (rs_lock s) + 1\<rparr>\<rparr>"
  have "reload_run srt m depth nq nr ix (set_query t (Q_call str) s)"
    by (rule query_next [OF run t(1) query_step.q_call t(2)]) simp
  then have "reload_run srt m depth nq nr ix (set_query t (Q_lock str chin letters) s)"
    by (rule query_next [OF _ t(1) query_step.q_begin]) (use len b in \<open>auto simp: q_begin_def begun_def\<close>)
  then have "reload_run srt m depth nq nr ix (set_query t (Q_read str chin letters []) ?locked)"
    by (rule query_next [OF _ t(1) query_step.q_lock]) (use len free in \<open>auto simp: q_lock_def rdlock_def\<close>)
  from query_reads [OF this t(1)] have "reload_run srt m depth nq nr ix (set_query t (Q_read str chin [] vec) ?locked)"
    using mapped vec len by simp
  then have "reload_run srt m depth nq nr ix (set_query t (Q_end str chin vec) s)"
    by (rule query_next [OF _ t(1) query_step.q_unlock]) (use len free in \<open>simp_all add: q_unlock_def rwunlock_def\<close>)
  then show ?thesis
    by (rule query_next [OF _ t(1) query_step.q_filter]) (use len in \<open>simp_all add: q_filter_def\<close>)
qed

lemma reload_alone:
  assumes run: "reload_run srt m depth nq nr ix s" and i: "i < nr" "rs_reloads s ! i = R_check prev" and idle: "\<not> rs_reloading s"
    and free: "rs_lock s = \<lparr>rw_readers = 0, rw_writer = False\<rparr>" and addr: "addr \<notin> rs_pages s"
    and load: "init_index f indexobj_new = Some (0, obj)"
  shows "reload_run srt m depth nq nr ix
    (set_reload i R_idle (s\<lparr>rs_index := \<lparr>lo_addr = addr, lo_obj = obj\<rparr>, rs_pages := insert addr (rs_pages s) - {lo_addr prev},
       rs_history := rs_history s @ [obj]\<rparr>))"
proof -
  let ?new = "\<lparr>lo_addr = addr, lo_obj = obj\<rparr>"
  let ?s1 = "s\<lparr>rs_reloading := True, rs_pages := insert addr (rs_pages s)\<rparr>"
  let ?s2 = "?s1\<lparr>rs_index := ?new, rs_history := rs_history s @ [obj]\<rparr>"
  let ?s3 = "?s2\<lparr>rs_pages := insert addr (rs_pages s) - {lo_addr prev}\<rparr>"
  have len: "i < length (rs_reloads s)" using reload_run_inv [OF run] i(1) by simp
  have "reload_run srt m depth nq nr ix (set_reload i (R_set prev) s)"
    by (rule reload_next [OF run i(1) reload_pc_step.r_check i(2)]) (simp add: r_check_def idle)
  then have "reload_run srt m depth nq nr ix (set_reload i (R_load prev) (s\<lparr>rs_reloading := True\<rparr>))"
    by (rule reload_next [OF _ i(1) reload_pc_step.r_set]) (simp_all add: r_set_def len)
  then have "reload_run srt m depth nq nr ix (set_reload i (R_lock prev ?new) ?s1)"
    by (rule reload_next [OF _ i(1) reload_pc_step.r_load [where addr = addr and f = f]])
      (use addr load len in \<open>simp_all add: r_load_def\<close>)
  then have "reload_run srt m depth nq nr ix (set_reload i (R_switch prev ?new) (?s1\<lparr>rs_lock := \<lparr>rw_readers = 0, rw_writer = True\<rparr>\<rparr>))"
    by (rule reload_next [OF _ i(1) reload_pc_step.r_lock]) (use free len in \<open>simp_all add: r_lock_def wrlock_def\<close>)
  then have "reload_run srt m depth nq nr ix (set_reload i (R_unlock prev) (?s2\<lparr>rs_lock := \<lparr>rw_readers = 0, rw_writer = True\<rparr>\<rparr>))"
    by (rule reload_next [OF _ i(1) reload_pc_step.r_switch]) (use len in \<open>cases s, simp add: r_switch_def\<close>)+
  then have "reload_run srt m depth nq nr ix (set_reload i (R_unmap prev) ?s2)"
    by (rule reload_next [OF _ i(1) reload_pc_step.r_unlock]) (use len free in \<open>cases s, simp add: r_unlock_def rwunlock_def\<close>)+
  then have "reload_run srt m depth nq nr ix (set_reload i R_reset ?s3)"
    by (rule reload_next [OF _ i(1) reload_pc_step.r_unmap]) (use len in \<open>simp_all add: r_unmap_def\<close>)
  then show ?thesis
    by (rule reload_next [OF _ i(1) reload_pc_step.r_reset]) (use len idle in \<open>simp_all add: r_reset_def\<close>)
qed

text \<open>An index of one record, \<open>ab\<close> with one item \<open>x\<close>, as the demonstrations below use it.\<close>

definition demo_index :: indexobj where
  "demo_index = \<lparr>ix_mem = None, ix_fsize = 0,
     ix_trie = \<lparr>t_block = None, t_table = (replicate 256 0)[97 := 1],
       t_da = \<lparr>m_block = Some [Element5 0 0 0 0 0, Element5 1 0 0 0 0, Element5 0 0 0 0 0, Element5 255 255 255 255 1], m_own = False\<rparr>,
       t_tail = \<lparr>it_cont = \<lparr>m_block = Some [0, 98, 0, 1, 0, 0, 0, 120, 0, 0, 0, 0, 0], m_own = False\<rparr>, it_off = 0\<rparr>, t_n = None\<rparr>\<rparr>"

definition demo_found :: "string_array key_value_pair list" where
  "demo_found = [\<lparr>kv_key = lit ''a'', kv_value = [\<lparr>strName = lit ''x'', fRank = 0\<rparr>]\<rparr>]"

lemma demo_query:
  "get_children_all (ix_trie demo_index) 1 [lit ''a''] [] = Some demo_found" "begun Map.empty (lit ''a'') [] [lit ''a'']"
  by code_simp+

lemma reload_demo_run:
  "\<exists>s. reload_run srt Map.empty 1 1 1 \<lparr>lo_addr = 7, lo_obj = demo_index\<rparr> s \<and>
     rs_queries s = [Q_done (lit ''a'') (0, filter_result srt (concat (map kv_value demo_found)) [] [] 1)] \<and> rs_history s = [demo_index]"
proof -
  let ?ix = "\<lparr>lo_addr = 7, lo_obj = demo_index\<rparr>"
  have "reload_run srt Map.empty 1 1 1 ?ix (set_query 0 (Q_done (lit ''a'') (0, filter_result srt (concat (map kv_value demo_found)) [] [] 1))
      (reload_init 1 1 ?ix))"
    by (rule query_alone [OF reload_start _ _ _ _ demo_query(2)]) (use demo_query(1) in \<open>simp_all add: reload_init_def\<close>)
  then show ?thesis by (auto simp: reload_init_def)
qed

section \<open>Properties\<close>

text \<open>C12: a query answers from one index, whatever reloads run beside it: its result is the result of \<^verbatim>\<open>Query\<close>
  on one of the indexes that were current.\<close>

theorem query_sees_one_index:
  assumes "reload_run srt m depth nq nr ix s" "t < nq" "rs_queries s ! t = Q_done str r"
  shows "\<exists>ix'\<in>set (rs_history s). Query srt m (ix_trie ix') depth str [] depth = Some r"
proof -
  have "query_ok srt m depth (lo_obj (rs_index s)) (rs_history s) (Q_done str r)"
    using reload_run_inv [OF assms(1)] assms(2,3) nth_mem by (fastforce simp: query_inv_def)
  then show ?thesis by simp
qed

lemma query_sees_one_index_witness:
  "Query (sort_key rank_key) Map.empty (ix_trie demo_index) 1 (lit ''a'') [] 1 =
   Some (0, filter_result (sort_key rank_key) (concat (map kv_value demo_found)) [] [] 1)"
proof -
  obtain s where s: "reload_run (sort_key rank_key) Map.empty 1 1 1 \<lparr>lo_addr = 7, lo_obj = demo_index\<rparr> s"
    "rs_queries s = [Q_done (lit ''a'') (0, filter_result (sort_key rank_key) (concat (map kv_value demo_found)) [] [] 1)]"
    "rs_history s = [demo_index]"
    using reload_demo_run by blast
  then show ?thesis using query_sees_one_index [OF s(1), of 0] by simp
qed

text \<open>C13: with at most one thread that reloads, the current index is always mapped, no query faults, and
  between two reloads nothing else is mapped.\<close>

theorem index_stays_mapped:
  assumes "reload_run srt m depth nq nr ix s" "nr \<le> 1"
  shows "lo_addr (rs_index s) \<in> rs_pages s \<and> Q_fault \<notin> set (rs_queries s) \<and>
    (list_all (\<lambda>pc. pc = R_idle) (rs_reloads s) \<longrightarrow> rs_pages s = {lo_addr (rs_index s)})"
  using reload_run_mapped [OF assms] pages_ok_mapped by (auto simp: mapped_inv_def)

lemma index_stays_mapped_witness:
  "\<exists>s. reload_run (sort_key rank_key) Map.empty 1 1 1 \<lparr>lo_addr = 7, lo_obj = demo_index\<rparr> s \<and> rs_queries s \<noteq> [Q_idle] \<and>
     lo_addr (rs_index s) \<in> rs_pages s"
proof -
  obtain s where s: "reload_run (sort_key rank_key) Map.empty 1 1 1 \<lparr>lo_addr = 7, lo_obj = demo_index\<rparr> s"
    "rs_queries s = [Q_done (lit ''a'') (0, filter_result (sort_key rank_key) (concat (map kv_value demo_found)) [] [] 1)]"
    using reload_demo_run by blast
  then show ?thesis using index_stays_mapped [OF s(1)] by auto
qed

text \<open>C33: two threads that reload at the same time leave the server with an index that is not mapped: both have
  copied the old index, and the second unmaps the address that its own file was mapped at. The next query faults.\<close>

theorem overlapping_reloads_fault:
  assumes "init_index f indexobj_new = Some (0, obj)" "begun m str chin (w # ws)"
  shows "\<exists>s. reload_run srt m depth 1 2 ix s \<and> rs_reloads s = [R_idle, R_idle] \<and> rs_queries s = [Q_fault]"
proof -
  let ?i = "reload_init 1 2 ix" and ?b = "\<lparr>lo_addr = Suc (lo_addr ix), lo_obj = obj\<rparr>"
  have two: "replicate 2 R_idle = [R_idle, R_idle]" by (simp add: numeral_2_eq_2)
  let ?s0 = "?i\<lparr>rs_reloads := [R_check ix, R_check ix]\<rparr>"
  have "reload_run srt m depth 1 2 ix (?i\<lparr>rs_reloads := [R_check ix, R_idle]\<rparr>)"
    by (rule reload_next [OF reload_start _ reload_pc_step.r_call, where i = 0]) (simp_all add: reload_init_def r_call_def two)
  then have "reload_run srt m depth 1 2 ix ?s0"
    by (rule reload_next [OF _ _ reload_pc_step.r_call, where i = 1]) (simp_all add: reload_init_def r_call_def)
  from reload_alone [OF this, where i = 0, OF _ _ _ _ _ assms(1), where addr = "Suc (lo_addr ix)" and prev = ix]
  have "reload_run srt m depth 1 2 ix
    (?i\<lparr>rs_reloads := [R_idle, R_check ix], rs_index := ?b, rs_pages := {Suc (lo_addr ix)}, rs_history := [lo_obj ix, obj]\<rparr>)"
    by (simp add: reload_init_def insert_Diff_if)
  from reload_alone [OF this, where i = 1, OF _ _ _ _ _ assms(1), where addr = "lo_addr ix" and prev = ix]
  have "reload_run srt m depth 1 2 ix
    (?i\<lparr>rs_reloads := [R_idle, R_idle], rs_index := \<lparr>lo_addr = lo_addr ix, lo_obj = obj\<rparr>, rs_pages := {Suc (lo_addr ix)},
       rs_history := [lo_obj ix, obj, obj]\<rparr>)" (is "reload_run _ _ _ _ _ _ ?s2")
    by (simp add: reload_init_def insert_Diff_if)
  then have "reload_run srt m depth 1 2 ix (set_query 0 (Q_call str) ?s2)"
    by (rule query_next [OF _ _ query_step.q_call, where t = 0]) (simp_all add: reload_init_def)
  then have "reload_run srt m depth 1 2 ix (set_query 0 (Q_lock str chin (w # ws)) ?s2)"
    by (rule query_next [OF _ _ query_step.q_begin, where t = 0]) (use assms(2) in \<open>simp_all add: reload_init_def q_begin_def begun_def\<close>)
  then have "reload_run srt m depth 1 2 ix (set_query 0 (Q_read str chin (w # ws) []) (?s2\<lparr>rs_lock := \<lparr>rw_readers = 1, rw_writer = False\<rparr>\<rparr>))"
    by (rule query_next [OF _ _ query_step.q_lock, where t = 0]) (simp_all add: reload_init_def q_lock_def rdlock_def)
  then have "reload_run srt m depth 1 2 ix (set_query 0 Q_fault (?s2\<lparr>rs_lock := \<lparr>rw_readers = 1, rw_writer = False\<rparr>\<rparr>))"
    by (rule query_next [OF _ _ query_step.q_read, where t = 0]) (simp_all add: reload_init_def q_read_def)
  then show ?thesis by (intro exI conjI) (assumption, simp_all add: reload_init_def)
qed

lemma overlapping_reloads_fault_witness:
  "\<exists>s. reload_run (sort_key rank_key) Map.empty 10 1 2 \<lparr>lo_addr = 7, lo_obj = demo_index\<rparr> s \<and>
     rs_reloads s = [R_idle, R_idle] \<and> rs_queries s = [Q_fault]"
proof -
  have "length (m_table (builder_new :: element5 builder)) = NUMCHARS" "image_size doublearray5_traits builder_new < 2 ^ 31"
    by (simp_all add: builder_new_def image_size_def das_consts otail_new_def)
  from init_index_image [OF this] obtain obj where
    "init_index (Some \<lparr>df_content = builder_write doublearray5_traits builder_new [], df_fstat_ok = True, df_mmap_ok = True\<rparr>) indexobj_new =
     Some (0, obj)"
    by blast
  then show ?thesis by (rule overlapping_reloads_fault [OF _ demo_query(2)])
qed

end
