(* ===== verification/Srv_Monitor.thy ===== *)
theory Srv_Monitor
  imports Srv_Config Srv_Log Srv_Reload
begin

text \<open>
  What surrounds the search: the log line of every query, \<^verbatim>\<open>Reload_index\<close> as a call, the HTTP monitor
  and the start-up of server.cpp, and the signal table of sig.cpp. The functions of libevent that
  take a request apart are an argument: a request is given by what they return.
\<close>

section \<open>A query and its log line\<close>

definition LOG_ERR :: int where "LOG_ERR = 3"
definition LOG_NOTICE :: int where "LOG_NOTICE = 5"

text \<open>
  \<^verbatim>\<open>log_debug(level, ...)\<close> with a formatted message: \<^const>\<open>None\<close> when the line leaves the buffer of
  \<^verbatim>\<open>_log\<close>. A logger without a file prints the format to the terminal, which is left out.
\<close>

definition log_debug :: "logger \<Rightarrow> int \<Rightarrow> bytes \<Rightarrow> bytes \<Rightarrow> unit option" where
  "log_debug l lev header msg =
     (if log_loggable lev l \<and> lg_inited l \<noteq> 0 \<and> 0 \<le> lg_fd l then do { _ \<leftarrow> log_line header msg; Some () } else Some ())"

text \<open>\<open>"input key: %s, return: %d\n"\<close>; \<open>num\<close> is the text of the number.\<close>

definition get_message :: "bytes \<Rightarrow> bytes \<Rightarrow> bytes" where
  "get_message line num = lit ''input key: '' @ takeWhile (\<lambda>b. b \<noteq> 0) line @ lit '', return: '' @ num @ [10]"

text \<open>\<^verbatim>\<open>Get\<close> with its logging, the short fixed messages of \<^verbatim>\<open>Query\<close> apart; \<open>decimal\<close> prints an \<^verbatim>\<open>int\<close>.\<close>

definition Get_logged :: "(node_item list \<Rightarrow> node_item list) \<Rightarrow> hashMap \<Rightarrow> element5 trie \<Rightarrow> int \<Rightarrow> bool \<Rightarrow>
  logger \<Rightarrow> bytes \<Rightarrow> (int \<Rightarrow> bytes) \<Rightarrow> bytes \<Rightarrow> bytes list \<Rightarrow> (int \<times> bytes list) option" where
  "Get_logged srt chinese_map t max_depth g_exiting l header decimal line vRes =
     (if g_exiting then Some (0, [])
      else if line = [] then do { _ \<leftarrow> log_debug l LOG_ERR header (lit ''input empty request'' @ [10]); Some (- 1, vRes) }
      else do {
        let line' = trim line [32, 9, 13] True;
        (ret, res) \<leftarrow> Query srt chinese_map t max_depth line' vRes max_depth;
        _ \<leftarrow> log_debug l LOG_NOTICE header (get_message line' (decimal ret));
        Some (ret, res) })"

lemma log_line_long: "LOG_MAX_LEN < length header + length body \<Longrightarrow> log_line header body = None"
  by (simp add: log_line_def Let_def)

lemma log_line_short: "length header + length body + 1 < LOG_MAX_LEN \<Longrightarrow> header \<noteq> [] \<Longrightarrow> \<exists>line. log_line header body = Some line"
  by (auto simp: log_line_def Let_def)

section \<open>Reloading as a call\<close>

definition reload_path :: "bytes option \<Rightarrow> bytes option \<Rightarrow> bytes option" where
  "reload_path newindex index_path = (case newindex of None \<Rightarrow> index_path | Some [] \<Rightarrow> index_path | Some p \<Rightarrow> Some p)"

text \<open>The call without interference, as the HTTP callback and the signal handler make it.\<close>

definition Reload_index :: "(bytes \<Rightarrow> disk_file option) \<Rightarrow> bytes option \<Rightarrow> bytes option \<Rightarrow> indexobj \<Rightarrow> (int \<times> indexobj) option" where
  "Reload_index open_rdwr index_path newindex g_index = do {
     path \<leftarrow> reload_path newindex index_path;
     (ret, new_index) \<leftarrow> init_index (open_rdwr path) indexobj_new;
     Some (if ret \<noteq> 0 then (- 1, g_index) else (0, new_index)) }"

section \<open>The HTTP monitor\<close>

text \<open>
  A request: whether \<^verbatim>\<open>evhttp_uri_parse\<close> accepts the URI, its path, the decoded path, and what
  \<^verbatim>\<open>evhttp_find_header\<close> finds among the parameters.
\<close>

record http_request =
  hq_parsed :: bool
  hq_path :: "bytes option"
  hq_decoded :: "bytes option"
  hq_query :: "bytes \<Rightarrow> bytes option"

datatype http_reply = Http_error int | Http_reply int bytes bytes

definition HTTP_OK :: int where "HTTP_OK = 200"
definition HTTP_NOCONTENT :: int where "HTTP_NOCONTENT = 204"
definition HTTP_BADREQUEST :: int where "HTTP_BADREQUEST = 400"
definition HTTP_NOTFOUND :: int where "HTTP_NOTFOUND = 404"

definition given :: "bytes option \<Rightarrow> bool" where "given v \<longleftrightarrow> v \<noteq> None \<and> v \<noteq> Some []"

definition page_head :: "bytes \<Rightarrow> bytes \<Rightarrow> bytes" where
  "page_head decoded path =
     lit ''<html>'' @ [10] @ lit '' <head>'' @ [10] @ lit ''  <title>'' @ decoded @ lit ''</title>'' @ [10] @
     lit ''  <base href='' @ [39] @ path @ (if path = [] \<or> last path \<noteq> 47 then [47] else []) @ [39] @ lit ''>'' @ [10] @
     lit '' </head>'' @ [10] @ lit '' <body>'' @ [10] @ lit ''  <h1>'' @ decoded @ lit ''</h1>'' @ [10] @ lit ''  <ul>'' @ [10]"

definition page_item :: "bytes \<Rightarrow> bytes" where
  "page_item v = lit ''    <li>'' @ takeWhile (\<lambda>b. b \<noteq> 0) v @ lit ''</a>'' @ [10]"

definition page_foot :: bytes where "page_foot = lit ''</ul></body></html>'' @ [10]"

text \<open>\<^verbatim>\<open>for (int i = 0; i < number; i++)\<close>\<close>

function items_loop :: "bytes list \<Rightarrow> int \<Rightarrow> int \<Rightarrow> bytes \<Rightarrow> bytes option" where
  "items_loop vRes number i evb =
     (if number \<le> i then Some evb
      else if nat i < length vRes then items_loop vRes number (i + 1) (evb @ page_item (vRes ! nat i)) else None)"
  by pat_completeness auto
termination
  by (relation "measure (\<lambda>(_, number, i, _). nat (number - i))") auto

declare items_loop.simps [simp del]

text \<open>How many names the request asks for. The comparison with \<^verbatim>\<open>vRes.size()\<close> is unsigned.\<close>

definition asked_number :: "http_request \<Rightarrow> int" where
  "asked_number req = (if given (hq_query req (lit ''number'')) then atoi (the (hq_query req (lit ''number''))) else 10)"

definition shown_count :: "int \<Rightarrow> nat \<Rightarrow> int" where
  "shown_count number n = (if n < int_as_size number then int n else number)"

definition http_get :: "(bytes \<Rightarrow> (int \<times> bytes list) option) \<Rightarrow> http_request \<Rightarrow> bytes \<Rightarrow> bytes \<Rightarrow> http_reply option" where
  "http_get get req path decoded =
     (if \<not> given (hq_query req (lit ''key'')) then Some (Http_error HTTP_BADREQUEST)
      else do {
        let number = asked_number req;
        (ret, vRes) \<leftarrow> get (the (hq_query req (lit ''key'')));
        (if ret \<noteq> 0 \<or> vRes = [] then Some (Http_error HTTP_NOCONTENT)
         else do {
           evb \<leftarrow> items_loop vRes (shown_count number (length vRes)) 0 (page_head decoded path);
           Some (Http_reply HTTP_OK (lit ''OK'') (evb @ page_foot)) }) })"

definition reload_page :: "bool \<Rightarrow> bytes \<Rightarrow> bytes \<Rightarrow> bytes" where
  "reload_page ok decoded path =
     lit ''<html>'' @ [10] @ lit '' <head>'' @ [10] @ (if ok then lit ''  <title>'' else lit '' <title>'') @ decoded @ lit ''</title>'' @ [10] @
     lit '' </head>'' @ [10] @ lit '' <body>'' @ [10] @ lit ''  <ul>'' @ [10] @
     lit ''    <li>reload index '' @ path @ (if ok then lit '' successfully</a>'' else lit '' failed</a>'') @ [10] @ page_foot"

definition http_reload :: "(bytes \<Rightarrow> disk_file option) \<Rightarrow> bytes option \<Rightarrow> http_request \<Rightarrow> bytes \<Rightarrow> indexobj \<Rightarrow> (http_reply \<times> indexobj) option" where
  "http_reload open_rdwr index_path req decoded ix = do {
     let newindex = hq_query req (lit ''indexpath'');
     (ret, ix') \<leftarrow> Reload_index open_rdwr index_path newindex ix;
     path \<leftarrow> (if given newindex then newindex else index_path);
     Some (Http_reply HTTP_OK (if ret = 0 then lit ''OK'' else lit ''Internal Error'') (reload_page (ret = 0) decoded path), ix') }"

text \<open>A path that cannot be decoded leads to \<^verbatim>\<open>evhttp_clear_headers\<close> of parameters that were not set.\<close>

definition process_http_cb :: "(indexobj \<Rightarrow> bytes \<Rightarrow> (int \<times> bytes list) option) \<Rightarrow> (bytes \<Rightarrow> disk_file option) \<Rightarrow> bytes option \<Rightarrow>
  http_request \<Rightarrow> indexobj \<Rightarrow> (http_reply \<times> indexobj) option" where
  "process_http_cb get open_rdwr index_path req ix =
     (if \<not> hq_parsed req then Some (Http_error HTTP_BADREQUEST, ix)
      else do {
        let path = (case hq_path req of None \<Rightarrow> [47] | Some p \<Rightarrow> p);
        decoded \<leftarrow> hq_decoded req;
        let opt = hq_query req (lit ''opt'');
        (if \<not> given opt then Some (Http_error HTTP_BADREQUEST, ix)
         else if opt = Some (lit ''get'') then do { r \<leftarrow> http_get (get ix) req path decoded; Some (r, ix) }
         else if opt = Some (lit ''reload'') then http_reload open_rdwr index_path req decoded ix
         else Some (Http_error HTTP_NOTFOUND, ix)) })"

lemma items_loop_take:
  "0 \<le> i \<Longrightarrow> number \<le> int (length vRes) \<Longrightarrow>
   items_loop vRes number i evb = Some (evb @ concat (map page_item (take (nat number - nat i) (drop (nat i) vRes))))"
proof (induction vRes number i evb rule: items_loop.induct)
  case (1 vRes number i evb)
  show ?case
  proof (cases "number \<le> i")
    case False
    then have i: "nat i < length vRes" "nat (i + 1) = Suc (nat i)" "nat number - nat i = Suc (nat number - Suc (nat i))"
      using 1(2,3) by auto
    have "drop (nat i) vRes = vRes ! nat i # drop (Suc (nat i)) vRes" using i(1) by (rule Cons_nth_drop_Suc [symmetric])
    then show ?thesis using 1 False i by (subst items_loop.simps) simp
  qed (simp add: items_loop.simps)
qed

section \<open>Signals\<close>

datatype signal_action = Sig_reload | Sig_nothing | Sig_exit

record signal =
  sg_signo :: int
  sg_signame :: bytes
  sg_actionstr :: bytes
  sg_handler :: signal_action

text \<open>The table, with the numbers of Linux on x86.\<close>

definition signals :: "signal list" where
  "signals =
     [\<lparr>sg_signo = 10, sg_signame = lit ''SIGUSR1'', sg_actionstr = lit ''user1'', sg_handler = Sig_reload\<rparr>,
      \<lparr>sg_signo = 12, sg_signame = lit ''SIGUSR2'', sg_actionstr = lit ''user2'', sg_handler = Sig_nothing\<rparr>,
      \<lparr>sg_signo = 21, sg_signame = lit ''SIGTTIN'', sg_actionstr = lit ''up logging level'', sg_handler = Sig_nothing\<rparr>,
      \<lparr>sg_signo = 22, sg_signame = lit ''SIGTTOU'', sg_actionstr = lit ''down logging level'', sg_handler = Sig_nothing\<rparr>,
      \<lparr>sg_signo = 1, sg_signame = lit ''SIGHUP'', sg_actionstr = lit ''reopening log file'', sg_handler = Sig_nothing\<rparr>,
      \<lparr>sg_signo = 2, sg_signame = lit ''SIGINT'', sg_actionstr = lit ''exiting'', sg_handler = Sig_exit\<rparr>]"

fun signal_handler :: "signal list \<Rightarrow> int \<Rightarrow> signal_action option" where
  "signal_handler [] signo = None"
| "signal_handler (sig # rest) signo = (if sg_signo sig = signo then Some (sg_handler sig) else signal_handler rest signo)"

section \<open>Start-up\<close>

text \<open>What \<^verbatim>\<open>do_privilege\<close> asks of the system.\<close>

record priv_ops =
  po_getrlimit :: bool
  po_setrlimit :: "int \<Rightarrow> bool"
  po_root :: bool
  po_getpwnam :: "bytes \<Rightarrow> (int \<times> int) option" \<comment> \<open>user and group\<close>
  po_setgid :: "int \<Rightarrow> bool"
  po_setuid :: "int \<Rightarrow> bool"

definition EX_USAGE :: int where "EX_USAGE = 64"
definition EX_NOUSER :: int where "EX_NOUSER = 67"
definition EX_OSERR :: int where "EX_OSERR = 71"

text \<open>The left side is the exit code.\<close>

definition do_privilege :: "priv_ops \<Rightarrow> int \<Rightarrow> bytes option \<Rightarrow> int + unit" where
  "do_privilege po maxconns username =
     (if \<not> po_getrlimit po \<or> \<not> po_setrlimit po maxconns then Inl EX_OSERR
      else if \<not> po_root po then Inr ()
      else if \<not> given username then Inl EX_USAGE
      else case po_getpwnam po (the username) of
          None \<Rightarrow> Inl EX_NOUSER
        | Some (uid, gid) \<Rightarrow>
            if uid \<noteq> 0 \<and> ((gid = 0 \<and> \<not> po_setgid po gid) \<or> \<not> po_setgid po gid \<or> \<not> po_setuid po uid) then Inl EX_OSERR
            else Inr ())"

text \<open>\<^verbatim>\<open>init_server\<close> from the settings, the logger, the table of readings and the index that are still as they were.\<close>

definition init_server :: "'w log_ops \<Rightarrow> priv_ops \<Rightarrow> (bytes \<Rightarrow> bytes option) \<Rightarrow> (bytes \<Rightarrow> disk_file option) \<Rightarrow>
  settings \<Rightarrow> logger \<Rightarrow> hashMap \<Rightarrow> indexobj \<Rightarrow> 'w \<Rightarrow> (int + settings \<times> logger \<times> hashMap \<times> indexobj \<times> 'w) option" where
  "init_server ops po files open_rdwr s l m ix w = do {
     cfg \<leftarrow> s_cfgpath s;
     (if cfg = [] then Some (Inl (- 1))
      else do {
        s1 \<leftarrow> parse_config files s;
        chk \<leftarrow> check_settings s1;
        (if chk \<noteq> 0 then Some (Inl (- 1))
         else do {
           (r, l1, w1) \<leftarrow> log_init ops GENERIC_FILE (s_log_level s1) (s_log_path s1) l w;
           (if r \<noteq> 0 then Some (Inl (- 1))
            else do {
              py \<leftarrow> s_chinese_map_file s1;
              path \<leftarrow> s_index_path s1;
              (r, m1, ix1) \<leftarrow> Init_Index (files py) (open_rdwr path) m ix;
              (if r \<noteq> 0 then Some (Inl (- 1))
               else Some (case do_privilege po (s_maxconns s1) (s_username s1) of
                   Inl code \<Rightarrow> Inl code | Inr _ \<Rightarrow> Inr (s1, l1, m1, ix1, w1))) }) }) }) }"

lemma atoi_range: "- (2 ^ 31) \<le> atoi str \<and> atoi str < 2 ^ 31"
proof -
  have "- (2 ^ 31) \<le> as_int n \<and> as_int n < 2 ^ 31" for n
    unfolding as_int_def using signed_take_bit_int_greater_eq_minus_exp [of 31 n] signed_take_bit_int_less_exp [of 31 n] by simp
  then show ?thesis by (simp add: atoi_def split: option.split)
qed

lemma shown_count_range:
  assumes "- (2 ^ 31) \<le> number" "number < 2 ^ 31" "n < 2 ^ 31"
  shows "shown_count number n \<le> int n" "nat (shown_count number n) = (if number < 0 then n else min (nat number) n)"
proof -
  have "int_as_size number = (if number < 0 then nat (number + 2 ^ 64) else nat number)"
  proof (cases "number < 0")
    case True
    have "number mod 2 ^ 64 = (number + 2 ^ 64) mod 2 ^ 64" by simp
    also have "\<dots> = number + 2 ^ 64" using True assms(1) by (intro mod_pos_pos_trivial) auto
    finally show ?thesis using True by (simp add: int_as_size_def)
  qed (use assms(2) in \<open>simp add: int_as_size_def\<close>)
  then show "shown_count number n \<le> int n" "nat (shown_count number n) = (if number < 0 then n else min (nat number) n)"
    using assms by (auto simp: shown_count_def)
qed

section \<open>Properties\<close>

text \<open>C35: a query of 1024 bytes or more makes \<^verbatim>\<open>_log\<close> leave its buffer, when notices are logged to a file.\<close>

theorem long_key_overflows_log:
  assumes "log_loggable LOG_NOTICE l" "lg_inited l \<noteq> 0" "0 \<le> lg_fd l"
    and "nul_free (trim line [32, 9, 13] True)" "LOG_MAX_LEN \<le> length (trim line [32, 9, 13] True)" "line \<noteq> []"
  shows "Get_logged srt m t max_depth False l header decimal line vRes = None"
proof -
  let ?line = "trim line [32, 9, 13] True"
  have "LOG_MAX_LEN < length (get_message ?line num)" for num
    using assms(4,5) by (simp add: get_message_def lit_def takeWhile_nul_free_self)
  then have "log_debug l LOG_NOTICE header (get_message ?line num) = None" for num
    using assms(1-3) log_line_long [of header "get_message ?line num"] by (simp add: log_debug_def trans_less_add2)
  then show ?thesis
    using assms(6) by (cases "Query srt m t max_depth ?line vRes max_depth") (auto simp: Get_logged_def Let_def)
qed

lemma trim_letters: "c \<notin> set cs \<Longrightarrow> trim (replicate n c) cs True = replicate n c"
  by (cases n) (simp_all add: trim_chars flip: replicate_Suc)

lemma long_key_overflows_log_witness:
  "Get_logged (sort_key rank_key) Map.empty (ix_trie demo_index) 10 False (zero_logger\<lparr>lg_level := 7, lg_inited := 1, lg_fd := 3\<rparr>)
     (lit ''h '') (\<lambda>_. lit ''0'') (replicate 1024 97) [] = None"
proof (rule long_key_overflows_log)
  have "trim (replicate 1024 97) [32, 9, 13] True = (replicate 1024 97 :: bytes)" by (rule trim_letters) simp
  then show "nul_free (trim (replicate 1024 97) [32, 9, 13] True)"
    and "LOG_MAX_LEN \<le> length (trim (replicate 1024 97) [32, 9, 13] True)"
    by (simp_all add: nul_free_def log_consts)
qed (simp_all add: log_loggable_def LOG_NOTICE_def zero_logger_def)

text \<open>C36: the monitor lists the first names of the answer, as many as the request asks for; a negative number
  asks for all, and none is said to mean ten.\<close>

theorem http_get_lists:
  assumes "hq_parsed req" "hq_decoded req = Some decoded" "hq_query req (lit ''opt'') = Some (lit ''get'')"
    and "hq_query req (lit ''key'') = Some key" "key \<noteq> []" "get ix key = Some (0, res)" "res \<noteq> []" "length res < 2 ^ 31"
    and number: "number = asked_number req"
  shows "process_http_cb get open_rdwr index_path req ix = Some (Http_reply HTTP_OK (lit ''OK'')
    (page_head decoded (case hq_path req of None \<Rightarrow> [47] | Some p \<Rightarrow> p) @
     concat (map page_item (take (if number < 0 then length res else min (nat number) (length res)) res)) @ page_foot), ix)"
proof -
  have range: "- (2 ^ 31) \<le> number" "number < 2 ^ 31" using atoi_range by (simp_all add: number asked_number_def)
  define X where "X = concat (map page_item (take (if number < 0 then length res else min (nat number) (length res)) res))"
  have "items_loop res (shown_count number (length res)) 0 evb = Some (evb @ X)" for evb
    using items_loop_take [of 0 "shown_count number (length res)" res evb] shown_count_range [OF range assms(8)] by (simp add: X_def)
  then have "http_get (get ix) req path decoded = Some (Http_reply HTTP_OK (lit ''OK'') (page_head decoded path @ X @ page_foot))" for path
    using assms(4-7) by (simp add: http_get_def given_def number)
  moreover have "lit ''get'' \<noteq> []" by (simp add: lit_def)
  ultimately show ?thesis using assms(1-3) by (simp add: process_http_cb_def given_def Let_def X_def)
qed

lemma http_get_lists_witness:
  "process_http_cb (\<lambda>_ _. Some (0, [lit ''x'', lit ''y''])) (\<lambda>_. None) None
     \<lparr>hq_parsed = True, hq_path = None, hq_decoded = Some [47],
       hq_query = [lit ''opt'' \<mapsto> lit ''get'', lit ''key'' \<mapsto> lit ''a'', lit ''number'' \<mapsto> lit ''1'']\<rparr> indexobj_new =
   Some (Http_reply HTTP_OK (lit ''OK'') (page_head [47] [47] @ page_item (lit ''x'') @ page_foot), indexobj_new)"
proof -
  let ?req = "\<lparr>hq_parsed = True, hq_path = None, hq_decoded = Some [47],
       hq_query = [lit ''opt'' \<mapsto> lit ''get'', lit ''key'' \<mapsto> lit ''a'', lit ''number'' \<mapsto> lit ''1'']\<rparr>"
  have "atoi (lit ''1'') = 1" by code_simp
  then have "1 = asked_number ?req" by (simp add: asked_number_def given_def lit_def)
  from http_get_lists [OF _ _ _ _ _ _ _ _ this, where key = "lit ''a''" and res = "[lit ''x'', lit ''y'']"
      and get = "\<lambda>_ _. Some (0, [lit ''x'', lit ''y''])" and decoded = "[47]" and ix = indexobj_new and open_rdwr = "\<lambda>_. None"
      and index_path = None]
  show ?thesis by (simp add: lit_def)
qed

text \<open>C37: a configuration that names the required files but no \<^verbatim>\<open>log_level\<close> makes the start-up read a null pointer.\<close>

theorem missing_log_level_undefined:
  assumes "s_cfgpath s = Some path" "path \<noteq> []" "files path = Some (concat (map config_text kvs))" "\<forall>kv\<in>set kvs. config_ok kv"
    and "check_settings (foldl (\<lambda>s (k, v). apply_config k v s) s kvs) = Some 0"
    and "s_log_level s = None" "\<forall>kv\<in>set kvs. \<not> key_is (lit ''log_level'') (fst kv)"
  shows "init_server ops po files open_rdwr s l m ix w = None"
proof -
  let ?s = "foldl (\<lambda>s (k, v). apply_config k v s) s kvs"
  have "s_log_level (foldl (\<lambda>s (k, v). apply_config k v s) s0 kvs) = s_log_level s0" for s0
    using assms(7) by (induction kvs arbitrary: s0) (auto simp: apply_config_log_level)
  then have "s_log_level ?s = None" using assms(6) by simp
  moreover have "parse_config files s = Some ?s"
    using config_loop_lines [OF assms(4), of "[]" s] assms(1-3) by (simp add: parse_config_def)
  ultimately show ?thesis using assms(1,2,5) by (simp add: init_server_def log_init_def)
qed

lemma missing_log_level_undefined_witness:
  "\<forall>ops po open_rdwr l m ix w. init_server ops po (\<lambda>_. Some (lit ''index_file=i'' @ [10] @ lit ''chinese_map_file=c'' @ [10])) open_rdwr with_path l m ix w = None"
proof -
  let ?kvs = "[(lit ''index_file'', lit ''i''), (lit ''chinese_map_file'', lit ''c'')]"
  have apply2: "apply_config (lit ''index_file'') v s = s\<lparr>s_index_path := Some v\<rparr>"
    "apply_config (lit ''chinese_map_file'') v s = s\<lparr>s_chinese_map_file := Some v\<rparr>" for v s
    by (simp_all add: apply_config_def set_config_defs key_is_def Let_def lit_def)
  have "\<forall>kv\<in>set ?kvs. config_ok kv" by code_simp
  moreover have "check_settings (foldl (\<lambda>s (k, v). apply_config k v s) with_path ?kvs) = Some 0"
    using apply2 by (simp add: check_settings_def lit_def [of "''i''"] lit_def [of "''c''"])
  moreover have "\<forall>kv\<in>set ?kvs. \<not> key_is (lit ''log_level'') (fst kv)" by (simp add: key_is_def lit_def)
  moreover have "concat (map config_text ?kvs) = lit ''index_file=i'' @ [10] @ lit ''chinese_map_file=c'' @ [10]"
    by (simp add: config_text_def lit_def)
  moreover have "s_log_level with_path = None" by (simp add: with_path_def zero_settings_def)
  ultimately show ?thesis
    by (intro allI missing_log_level_undefined [where path = "[99]" and kvs = ?kvs]) simp_all
qed

end
