(* ===== verification/Srv_Listen.thy ===== *)
theory Srv_Listen
  imports Srv_Life
begin

text \<open>
  The listening sockets of network.cpp: their creation, the connections that stand for them, and the
  search for the largest send buffer. Options whose failure is only logged are one operation.
\<close>

section \<open>The send buffer\<close>

definition MAX_SENDBUF_SIZE :: int where "MAX_SENDBUF_SIZE = 256 * 1024 * 1024"

text \<open>
  \<open>set_size\<close> is \<^verbatim>\<open>setsockopt(sfd, SOL_SOCKET, SO_SNDBUF, &avg, ...) == 0\<close>. \<^const>\<open>None\<close> is a search that
  does not end.
\<close>

partial_function (option) sndbuf_loop :: "(int \<Rightarrow> 'w \<Rightarrow> bool \<times> 'w) \<Rightarrow> int \<Rightarrow> int \<Rightarrow> int \<Rightarrow> 'w \<Rightarrow> (int \<times> 'w) option" where
  "sndbuf_loop set_size lo hi last_good w =
     (if lo \<le> hi then
        let avg = (lo + hi) mod 2 ^ 32 div 2
        in case set_size avg w of (ok, w') \<Rightarrow>
             if ok then sndbuf_loop set_size (avg + 1) hi avg w' else sndbuf_loop set_size lo (avg - 1) last_good w'
      else Some (last_good, w))"

text \<open>The result is \<^verbatim>\<open>last_good\<close>, which the code only logs.\<close>

definition maximize_sndbuf :: "('w \<Rightarrow> int option) \<Rightarrow> (int \<Rightarrow> 'w \<Rightarrow> bool \<times> 'w) \<Rightarrow> 'w \<Rightarrow> (int \<times> 'w) option" where
  "maximize_sndbuf get_size set_size w =
     (case get_size w of None \<Rightarrow> Some (0, w) | Some old_size \<Rightarrow> sndbuf_loop set_size old_size MAX_SENDBUF_SIZE 0 w)"

section \<open>Listening sockets\<close>

datatype bind_result = Bound | In_use | Bind_failed

record 'w net_ops =
  no_sys :: "'w sys_ops"
  no_socket :: "int \<Rightarrow> 'w \<Rightarrow> int \<times> 'w" \<comment> \<open>of an address family\<close>
  no_emfile :: "'w \<Rightarrow> bool" \<comment> \<open>\<^verbatim>\<open>errno == EMFILE\<close> after a failure\<close>
  no_v6only :: "int \<Rightarrow> 'w \<Rightarrow> bool \<times> 'w"
  no_options :: "int \<Rightarrow> 'w \<Rightarrow> 'w"
  no_bind :: "int \<Rightarrow> bytes \<Rightarrow> 'w \<Rightarrow> bind_result \<times> 'w"
  no_is_socket :: "bytes \<Rightarrow> 'w \<Rightarrow> bool" \<comment> \<open>\<^verbatim>\<open>lstat\<close> and \<^verbatim>\<open>S_ISSOCK\<close>\<close>
  no_unlink :: "bytes \<Rightarrow> 'w \<Rightarrow> 'w"

record addrinfo =
  ai_family :: int
  ai_addr :: bytes

definition AF_UNIX :: int where "AF_UNIX = 1"
definition AF_INET6 :: int where "AF_INET6 = 10"
definition EXIT_FAILURE :: int where "EXIT_FAILURE = 1"
definition OSERR :: int where "OSERR = 71"

text \<open>A socket that does not block, of a family.\<close>

definition new_socket :: "'w net_ops \<Rightarrow> int \<Rightarrow> 'w \<Rightarrow> int \<times> 'w" where
  "new_socket ops family w =
     (case no_socket ops family w of (fd, w1) \<Rightarrow>
        if fd = - 1 then (- 1, w1)
        else case sys_nonblock (no_sys ops) fd w1 of
            (True, w2) \<Rightarrow> (fd, w2)
          | (False, w2) \<Rightarrow> (- 1, sys_close (no_sys ops) fd w2))"

definition new_socket_unix :: "'w net_ops \<Rightarrow> 'w \<Rightarrow> int \<times> 'w" where
  "new_socket_unix ops w = new_socket ops AF_UNIX w"

text \<open>
  A new listening connection at the head of \<^verbatim>\<open>listen_conn\<close>; the left side is the code of \<^verbatim>\<open>exit\<close>. The
  size of a \<^verbatim>\<open>conn\<close> is that of the allocation in \<^verbatim>\<open>conn_new\<close>.
\<close>

definition add_listener :: "'w net_ops \<Rightarrow> nat \<Rightarrow> bool \<Rightarrow> int \<Rightarrow> network_transport \<Rightarrow> server \<Rightarrow> 'w \<Rightarrow> (int + server \<times> 'w) option" where
  "add_listener ops csize unix fd tr sv w = do {
     (c, p, w') \<leftarrow> conn_new (no_sys ops) csize unix fd conn_listening EV_READ_PERSIST 1 tr (sv_pool sv) w;
     Some (case c of None \<Rightarrow> Inl EXIT_FAILURE | Some c \<Rightarrow> Inr (sv\<lparr>sv_pool := p, sv_listen := c # sv_listen sv\<rparr>, w')) }"

text \<open>
  The loop over the addresses of \<^verbatim>\<open>getaddrinfo\<close>, and \<^verbatim>\<open>success == 0\<close> after it. No caller passes a file
  for the port numbers, whose branch is left out.
\<close>

fun server_socket_loop :: "'w net_ops \<Rightarrow> nat \<Rightarrow> bool \<Rightarrow> int \<Rightarrow> network_transport \<Rightarrow> addrinfo list \<Rightarrow> nat \<Rightarrow> server \<Rightarrow> 'w \<Rightarrow>
  (int + int \<times> server \<times> 'w) option" where
  "server_socket_loop ops csize unix backlog tr [] success sv w = Some (Inr (if success = 0 then 1 else 0, sv, w))"
| "server_socket_loop ops csize unix backlog tr (ai # ais) success sv w =
     (case new_socket ops (ai_family ai) w of (fd, w1) \<Rightarrow>
        if fd = - 1 then
          (if no_emfile ops w1 then Some (Inl OSERR) else server_socket_loop ops csize unix backlog tr ais success sv w1)
        else case (if ai_family ai = AF_INET6 then no_v6only ops fd w1 else (True, w1)) of
            (False, w2) \<Rightarrow> server_socket_loop ops csize unix backlog tr ais success sv (sys_close (no_sys ops) fd w2)
          | (True, w2) \<Rightarrow>
              (case no_bind ops fd (ai_addr ai) (no_options ops fd w2) of
                 (Bind_failed, w3) \<Rightarrow> Some (Inr (1, sv, sys_close (no_sys ops) fd w3))
               | (In_use, w3) \<Rightarrow> server_socket_loop ops csize unix backlog tr ais success sv (sys_close (no_sys ops) fd w3)
               | (Bound, w3) \<Rightarrow>
                   (case sys_listen (no_sys ops) fd backlog w3 of
                      (False, w4) \<Rightarrow> Some (Inr (1, sv, sys_close (no_sys ops) fd w4))
                    | (True, w4) \<Rightarrow> do {
                        r \<leftarrow> add_listener ops csize unix fd tr sv w4;
                        (case r of Inl code \<Rightarrow> Some (Inl code)
                         | Inr (sv', w5) \<Rightarrow> server_socket_loop ops csize unix backlog tr ais (success + 1) sv' w5) })))"

text \<open>\<open>lookup\<close> is \<^verbatim>\<open>getaddrinfo\<close> for the port.\<close>

definition server_socket :: "'w net_ops \<Rightarrow> (int \<Rightarrow> addrinfo list option) \<Rightarrow> nat \<Rightarrow> bool \<Rightarrow> int \<Rightarrow> int \<Rightarrow> network_transport \<Rightarrow> server \<Rightarrow> 'w \<Rightarrow>
  (int + int \<times> server \<times> 'w) option" where
  "server_socket ops lookup csize unix backlog port tr sv w =
     (case lookup (if port = - 1 then 0 else port) of
        None \<Rightarrow> Some (Inr (1, sv, w))
      | Some ais \<Rightarrow> server_socket_loop ops csize unix backlog tr ais 0 sv w)"

definition server_sockets :: "'w net_ops \<Rightarrow> (int \<Rightarrow> addrinfo list option) \<Rightarrow> nat \<Rightarrow> bool \<Rightarrow> int \<Rightarrow> int \<Rightarrow> network_transport \<Rightarrow> server \<Rightarrow> 'w \<Rightarrow>
  (int + int \<times> server \<times> 'w) option" where
  "server_sockets ops lookup csize unix backlog port tr sv w = server_socket ops lookup csize unix backlog port tr sv w"

text \<open>The path has to fit \<^verbatim>\<open>sun_path\<close>. The connection replaces the list.\<close>

definition server_socket_unix :: "'w net_ops \<Rightarrow> nat \<Rightarrow> bool \<Rightarrow> int \<Rightarrow> bytes option \<Rightarrow> server \<Rightarrow> 'w \<Rightarrow> (int + int \<times> server \<times> 'w) option" where
  "server_socket_unix ops csize unix backlog path sv w =
     (case path of None \<Rightarrow> Some (Inr (1, sv, w))
      | Some p \<Rightarrow>
          (case new_socket_unix ops w of (fd, w1) \<Rightarrow>
             if fd = - 1 then Some (Inr (1, sv, w1))
             else let w2 = no_options ops fd (if no_is_socket ops p w1 then no_unlink ops p w1 else w1)
                  in if 107 < length p then None
                     else case no_bind ops fd p w2 of
                         (Bound, w3) \<Rightarrow>
                           (case sys_listen (no_sys ops) fd backlog w3 of
                              (False, w4) \<Rightarrow> Some (Inr (1, sv, sys_close (no_sys ops) fd w4))
                            | (True, w4) \<Rightarrow> do {
                                r \<leftarrow> add_listener ops csize unix fd local_transport (sv\<lparr>sv_listen := []\<rparr>) w4;
                                Some (case r of Inl code \<Rightarrow> Inl code | Inr (sv', w5) \<Rightarrow> Inr (0, sv', w5)) })
                       | (_, w3) \<Rightarrow> Some (Inr (1, sv, sys_close (no_sys ops) fd w3))))"

section \<open>What they do\<close>

text \<open>The size that the kernel keeps, when it takes all sizes up to \<open>most\<close>.\<close>

definition takes_up_to :: "int \<Rightarrow> int \<Rightarrow> int \<Rightarrow> bool \<times> int" where
  "takes_up_to most n w = (if n \<le> most then (True, n) else (False, w))"

lemma sndbuf_loop_result:
  "0 \<le> lo \<Longrightarrow> hi \<le> MAX_SENDBUF_SIZE \<Longrightarrow> lo \<le> hi + 1 \<Longrightarrow>
   sndbuf_loop (takes_up_to most) lo hi last_good w = Some (if most < lo \<or> hi < lo then (last_good, w) else (min most hi, min most hi))"
proof (induction "nat (hi - lo + 1)" arbitrary: lo hi last_good w rule: less_induct)
  case less
  show ?case
  proof (cases "lo \<le> hi")
    case True
    define avg where "avg = (lo + hi) mod 2 ^ 32 div 2"
    have "(lo + hi) mod 2 ^ 32 = lo + hi" using less.prems True by (simp add: MAX_SENDBUF_SIZE_def)
    then have avg: "lo \<le> avg" "avg \<le> hi" using True by (auto simp: avg_def)
    have "sndbuf_loop (takes_up_to most) lo hi last_good w =
        (if avg \<le> most then sndbuf_loop (takes_up_to most) (avg + 1) hi avg avg else sndbuf_loop (takes_up_to most) lo (avg - 1) last_good w)"
      using True by (subst sndbuf_loop.simps) (simp add: avg_def takes_up_to_def Let_def)
    moreover have "sndbuf_loop (takes_up_to most) (avg + 1) hi avg avg =
        Some (if most < avg + 1 \<or> hi < avg + 1 then (avg, avg) else (min most hi, min most hi))"
      using less.prems avg by (intro less.hyps) auto
    moreover have "sndbuf_loop (takes_up_to most) lo (avg - 1) last_good w =
        Some (if most < lo \<or> avg - 1 < lo then (last_good, w) else (min most (avg - 1), min most (avg - 1)))"
      using less.prems avg by (intro less.hyps) auto
    ultimately show ?thesis using avg by auto
  qed (simp add: sndbuf_loop.simps)
qed

lemma maximize_sndbuf_result:
  "0 \<le> old_size \<Longrightarrow> old_size \<le> MAX_SENDBUF_SIZE \<Longrightarrow> old_size \<le> most \<Longrightarrow>
   maximize_sndbuf Some (takes_up_to most) old_size = Some (min most MAX_SENDBUF_SIZE, min most MAX_SENDBUF_SIZE)"
  by (simp add: maximize_sndbuf_def sndbuf_loop_result)




section \<open>Properties\<close>




end
