(* ===== verification/Srv_Register.thy ===== *)
theory Srv_Register
  imports Srv_Thread
begin

text \<open>
  The start of the worker threads (thread.cpp): \<^verbatim>\<open>thread_init\<close> sets up every thread's structure,
  creates the threads and waits on the condition \<^verbatim>\<open>init_cond\<close> until all have registered. The second
  part interleaves the main thread and the workers; a wait on a condition may end without a signal.
\<close>

section \<open>Setting up the structures\<close>

record 'w setup_ops =
  st_calloc :: "nat \<Rightarrow> nat \<Rightarrow> 'w \<Rightarrow> bool \<times> 'w"
  st_pipe :: "'w \<Rightarrow> (int \<times> int) option \<times> 'w"
  st_event_init :: "'w \<Rightarrow> nat option \<times> 'w"
  st_event_add :: "nat \<Rightarrow> int \<Rightarrow> 'w \<Rightarrow> bool \<times> 'w"
  st_malloc :: "'w \<Rightarrow> bool \<times> 'w"

record libevent_thread =
  lt_base :: nat
  notify_receive_fd :: int
  notify_send_fd :: int
  new_conn_queue :: cq

text \<open>\<^verbatim>\<open>setup_thread\<close>: \<open>Inl\<close> is the status of \<^verbatim>\<open>exit\<close>.\<close>

definition setup_thread :: "'w setup_ops \<Rightarrow> int \<Rightarrow> int \<Rightarrow> 'w \<Rightarrow> (int + libevent_thread) \<times> 'w" where
  "setup_thread ops rfd wfd w =
     (case st_event_init ops w of
        (None, w1) \<Rightarrow> (Inl 1, w1)
      | (Some base, w1) \<Rightarrow>
          (case st_event_add ops base rfd w1 of
             (False, w2) \<Rightarrow> (Inl 1, w2)
           | (True, w2) \<Rightarrow>
               (case st_malloc ops w2 of
                  (False, w3) \<Rightarrow> (Inl 1, w3)
                | (True, w3) \<Rightarrow>
                    (Inr \<lparr>lt_base = base, notify_receive_fd = rfd, notify_send_fd = wfd, new_conn_queue = cq_init\<rparr>, w3))))"

text \<open>The loop of \<^verbatim>\<open>thread_init\<close> over the threads that are left.\<close>

primrec setup_loop :: "'w setup_ops \<Rightarrow> nat \<Rightarrow> libevent_thread list \<Rightarrow> 'w \<Rightarrow> (int + libevent_thread list) \<times> 'w" where
  "setup_loop ops 0 threads w = (Inr threads, w)"
| "setup_loop ops (Suc n) threads w =
     (case st_pipe ops w of
        (None, w1) \<Rightarrow> (Inl 1, w1)
      | (Some (rfd, wfd), w1) \<Rightarrow>
          (case setup_thread ops rfd wfd w1 of
             (Inl e, w2) \<Rightarrow> (Inl e, w2)
           | (Inr t, w2) \<Rightarrow> setup_loop ops n (threads @ [t]) w2))"

text \<open>\<open>nthreads\<close> is an \<^verbatim>\<open>int\<close>, which \<^verbatim>\<open>calloc\<close> takes as a \<^verbatim>\<open>size_t\<close>.\<close>

definition setup_threads :: "'w setup_ops \<Rightarrow> nat \<Rightarrow> int \<Rightarrow> 'w \<Rightarrow> (int + libevent_thread list) \<times> 'w" where
  "setup_threads ops elem nthreads w =
     (case st_calloc ops (nat (nthreads mod 2 ^ 64)) elem w of
        (False, w1) \<Rightarrow> (Inl 1, w1)
      | (True, w1) \<Rightarrow> setup_loop ops (nat nthreads) [] w1)"

lemma setup_loop_queues:
  "setup_loop ops n threads w = (Inr ts, w') \<Longrightarrow>
   \<exists>new. ts = threads @ new \<and> length new = n \<and> (\<forall>t\<in>set new. new_conn_queue t = cq_init)"
proof (induction n arbitrary: threads w)
  case (Suc n)
  then obtain t threads' w2 where t: "setup_loop ops n (threads @ [t]) w2 = (Inr ts, w')" "new_conn_queue t = cq_init"
    by (auto simp: setup_thread_def split: prod.splits option.splits sum.splits bool.splits)
  from Suc.IH [OF t(1)] t(2) show ?case by auto
qed simp

text \<open>What the main thread and the workers start from is the state of \<^const>\<open>thread_init\<close>: empty queues.\<close>

lemma setup_threads_queues:
  assumes "setup_threads ops elem n w = (Inr ts, w')"
  shows "length ts = nat n" "map new_conn_queue ts = map w_queue (ds_workers (thread_init (nat n) nx data))"
proof -
  obtain w1 where "setup_loop ops (nat n) [] w1 = (Inr ts, w')"
    using assms by (auto simp: setup_threads_def split: prod.splits bool.splits)
  then have "length ts = nat n \<and> (\<forall>t\<in>set ts. new_conn_queue t = cq_init)" using setup_loop_queues [of ops "nat n" "[]" w1 ts w'] by auto
  then show "length ts = nat n" "map new_conn_queue ts = map w_queue (ds_workers (thread_init (nat n) nx data))"
    by (auto simp: thread_init_def setup_worker_def list_eq_iff_nth_eq)
qed

section \<open>Registration\<close>

text \<open>
  The main thread: in the loop that creates the workers, before the lock, at the test of
  \<^verbatim>\<open>wait_for_thread_registration\<close>, in \<^verbatim>\<open>pthread_cond_wait\<close>, woken and before the lock again, before
  the unlock, returned, or gone by \<^verbatim>\<open>exit(1)\<close>. A worker: before, inside (three stages) and after
  \<^verbatim>\<open>register_thread_initialized\<close>.
\<close>

datatype main_pc = M_create | M_lock | M_test | M_wait | M_woken | M_unlock | M_returned | M_exit
datatype reg_pc = R_start | R_locked | R_counted | R_signalled | R_loop
datatype holder = Main | Worker nat

record registration =
  init_count :: nat
  init_lock :: "holder option"
  rg_main :: main_pc
  rg_workers :: "reg_pc list"

definition registration_init :: registration where
  "registration_init = \<lparr>init_count = 0, init_lock = None, rg_main = M_create, rg_workers = []\<rparr>"

text \<open>\<^verbatim>\<open>create_worker\<close> succeeds or exits.\<close>

definition create_worker :: "bool \<Rightarrow> registration \<Rightarrow> registration" where
  "create_worker ok s = (if ok then s\<lparr>rg_workers := rg_workers s @ [R_start]\<rparr> else s\<lparr>rg_main := M_exit\<rparr>)"

text \<open>The test of the loop: to wait is to let go of the lock.\<close>

definition wait_test :: "nat \<Rightarrow> registration \<Rightarrow> registration" where
  "wait_test nthreads s =
     (if init_count s < nthreads then s\<lparr>rg_main := M_wait, init_lock := None\<rparr> else s\<lparr>rg_main := M_unlock\<rparr>)"

text \<open>\<^verbatim>\<open>pthread_cond_signal\<close>: only the main thread waits on \<^verbatim>\<open>init_cond\<close>.\<close>

definition cond_signal :: "registration \<Rightarrow> registration" where
  "cond_signal s = (if rg_main s = M_wait then s\<lparr>rg_main := M_woken\<rparr> else s)"

definition set_worker :: "nat \<Rightarrow> reg_pc \<Rightarrow> registration \<Rightarrow> registration" where
  "set_worker t pc s = s\<lparr>rg_workers := (rg_workers s)[t := pc]\<rparr>"

text \<open>The stages of \<^verbatim>\<open>register_thread_initialized\<close> in worker \<open>t\<close>.\<close>

definition register_step :: "nat \<Rightarrow> registration \<Rightarrow> registration option" where
  "register_step t s =
     (case rg_workers s ! t of
        R_start \<Rightarrow> (if init_lock s = None then Some (set_worker t R_locked (s\<lparr>init_lock := Some (Worker t)\<rparr>)) else None)
      | R_locked \<Rightarrow> Some (set_worker t R_counted (s\<lparr>init_count := init_count s + 1\<rparr>))
      | R_counted \<Rightarrow> Some (set_worker t R_signalled (cond_signal s))
      | R_signalled \<Rightarrow> Some (set_worker t R_loop (s\<lparr>init_lock := None\<rparr>))
      | R_loop \<Rightarrow> None)"

text \<open>The steps of the main thread behind the set-up.\<close>

definition main_step :: "nat \<Rightarrow> bool \<Rightarrow> registration \<Rightarrow> registration option" where
  "main_step nthreads ok s =
     (case rg_main s of
        M_create \<Rightarrow> Some (if length (rg_workers s) < nthreads then create_worker ok s else s\<lparr>rg_main := M_lock\<rparr>)
      | M_lock \<Rightarrow> (if init_lock s = None then Some (s\<lparr>rg_main := M_test, init_lock := Some Main\<rparr>) else None)
      | M_test \<Rightarrow> Some (wait_test nthreads s)
      | M_wait \<Rightarrow> None
      | M_woken \<Rightarrow> (if init_lock s = None then Some (s\<lparr>rg_main := M_test, init_lock := Some Main\<rparr>) else None)
      | M_unlock \<Rightarrow> Some (s\<lparr>rg_main := M_returned, init_lock := None\<rparr>)
      | M_returned \<Rightarrow> None
      | M_exit \<Rightarrow> None)"

text \<open>The steps of the program; a worker takes none after \<^verbatim>\<open>exit\<close>. \<open>reg_run\<close> adds wake-ups without a signal.\<close>

inductive reg_step :: "nat \<Rightarrow> registration \<Rightarrow> registration \<Rightarrow> bool" for n where
  main: "main_step n ok s = Some s' \<Longrightarrow> reg_step n s s'"
| worker: "t < length (rg_workers s) \<Longrightarrow> rg_main s \<noteq> M_exit \<Longrightarrow> register_step t s = Some s' \<Longrightarrow> reg_step n s s'"

inductive reg_run :: "nat \<Rightarrow> registration \<Rightarrow> bool" for n where
  start: "reg_run n registration_init"
| step: "reg_run n s \<Longrightarrow> reg_step n s s' \<Longrightarrow> reg_run n s'"
| spurious: "reg_run n s \<Longrightarrow> rg_main s = M_wait \<Longrightarrow> reg_run n (s\<lparr>rg_main := M_woken\<rparr>)"

section \<open>The invariant\<close>

definition inside :: "reg_pc \<Rightarrow> bool" where
  "inside pc \<longleftrightarrow> pc = R_locked \<or> pc = R_counted \<or> pc = R_signalled"

definition counted :: "reg_pc \<Rightarrow> bool" where
  "counted pc \<longleftrightarrow> pc = R_counted \<or> pc = R_signalled \<or> pc = R_loop"

text \<open>
  The lock has the holder its stages say, the count is that of the workers that have counted, and a main
  thread that waits has either a worker to wait for or one that is about to signal.
\<close>

definition reg_inv :: "nat \<Rightarrow> registration \<Rightarrow> bool" where
  "reg_inv n s \<longleftrightarrow>
     length (rg_workers s) \<le> n \<and>
     (rg_main s \<noteq> M_create \<and> rg_main s \<noteq> M_exit \<longrightarrow> length (rg_workers s) = n) \<and>
     init_count s = count_if counted (rg_workers s) \<and>
     (\<forall>t. init_lock s = Some (Worker t) \<longleftrightarrow> t < length (rg_workers s) \<and> inside (rg_workers s ! t)) \<and>
     (init_lock s = Some Main \<longleftrightarrow> rg_main s = M_test \<or> rg_main s = M_unlock) \<and>
     (rg_main s = M_wait \<longrightarrow> init_count s < n \<or> (\<exists>t<length (rg_workers s). rg_workers s ! t = R_counted)) \<and>
     (rg_main s = M_unlock \<or> rg_main s = M_returned \<longrightarrow> init_count s = n \<and> (\<forall>pc\<in>set (rg_workers s). pc = R_loop))"

lemmas pc_defs = inside_def counted_def

lemma reg_inv_init: "reg_inv n registration_init"
  by (simp add: reg_inv_def registration_init_def count_if_def)

lemma count_if_append: "count_if P (xs @ [x]) = count_if P xs + of_bool (P x)"
  by (simp add: count_if_def)

lemma count_if_le: "count_if P xs \<le> length xs"
  by (simp add: count_if_def)

lemma count_if_full: "count_if P xs = length xs \<Longrightarrow> x \<in> set xs \<Longrightarrow> P x"
proof (induction xs)
  case (Cons y xs)
  then show ?case using length_filter_le [of P xs] by (cases "P y") (auto simp: count_if_def)
qed simp

text \<open>The parts of the invariant, one by one.\<close>

lemma reg_invD:
  assumes "reg_inv n s"
  shows "length (rg_workers s) \<le> n"
    "rg_main s \<noteq> M_create \<Longrightarrow> rg_main s \<noteq> M_exit \<Longrightarrow> length (rg_workers s) = n"
    "init_count s = count_if counted (rg_workers s)"
    "init_lock s = Some (Worker t) \<longleftrightarrow> t < length (rg_workers s) \<and> inside (rg_workers s ! t)"
    "init_lock s = Some Main \<longleftrightarrow> rg_main s = M_test \<or> rg_main s = M_unlock"
    "rg_main s = M_wait \<Longrightarrow> init_count s < n \<or> (\<exists>t<length (rg_workers s). rg_workers s ! t = R_counted)"
    "rg_main s = M_unlock \<or> rg_main s = M_returned \<Longrightarrow> init_count s = n \<and> (\<forall>pc\<in>set (rg_workers s). pc = R_loop)"
  using assms unfolding reg_inv_def by blast+

lemma reg_inv_create:
  assumes "reg_inv n s" "rg_main s = M_create" "length (rg_workers s) < n"
  shows "reg_inv n (create_worker ok s)"
proof (cases ok)
  case True
  have "(init_lock s = Some (Worker t)) = (t < Suc (length (rg_workers s)) \<and> inside ((rg_workers s @ [R_start]) ! t))" for t
    using reg_invD(4) [OF assms(1), of t] by (auto simp: nth_append less_Suc_eq pc_defs)
  then show ?thesis
    using True assms(2,3) reg_invD(3,5) [OF assms(1)]
    by (simp add: reg_inv_def create_worker_def count_if_append pc_defs)
next
  case False
  then show ?thesis using assms(2) reg_invD(1,3,4,5) [OF assms(1)] by (simp add: reg_inv_def create_worker_def)
qed

lemma reg_inv_test:
  assumes inv: "reg_inv n s" and main: "rg_main s = M_test"
  shows "reg_inv n (wait_test n s)"
proof -
  have len: "length (rg_workers s) = n" using reg_invD(2) [OF inv] main by simp
  have lock: "init_lock s = Some Main" using reg_invD(5) [OF inv] main by simp
  then have out: "\<not> inside (rg_workers s ! t)" if "t < length (rg_workers s)" for t
    using reg_invD(4) [OF inv, of t] that by simp
  show ?thesis
  proof (cases "init_count s < n")
    case True
    then show ?thesis using main len out reg_invD(3) [OF inv] by (simp add: wait_test_def reg_inv_def)
  next
    case False
    then have full: "count_if counted (rg_workers s) = length (rg_workers s)"
      using count_if_le [of counted "rg_workers s"] len reg_invD(3) [OF inv] by simp
    have "pc = R_loop" if "pc \<in> set (rg_workers s)" for pc
      using count_if_full [OF full that] out that by (fastforce simp: in_set_conv_nth pc_defs)
    then show ?thesis using False full lock len out reg_invD(3) [OF inv] by (simp add: wait_test_def reg_inv_def)
  qed
qed

lemma reg_inv_lock:
  assumes "reg_inv n s" "rg_main s = M_lock \<or> rg_main s = M_woken" "init_lock s = None"
  shows "reg_inv n (s\<lparr>rg_main := M_test, init_lock := Some Main\<rparr>)"
  using assms by (elim disjE) (simp_all add: reg_inv_def)

lemma reg_inv_main:
  assumes inv: "reg_inv n s" and step: "main_step n ok s = Some s'"
  shows "reg_inv n s'"
proof (cases "rg_main s")
  case M_create
  show ?thesis
  proof (cases "length (rg_workers s) < n")
    case True
    then show ?thesis using step M_create reg_inv_create [OF inv M_create True] by (auto simp: main_step_def)
  next
    case False
    then have s': "s' = s\<lparr>rg_main := M_lock\<rparr>" using step M_create by (simp add: main_step_def)
    show ?thesis using inv M_create False by (simp add: s' reg_inv_def)
  qed
next
  case M_test
  then show ?thesis using step reg_inv_test [OF inv M_test] by (simp add: main_step_def)
next
  case M_unlock
  then have "\<not> inside (rg_workers s ! t)" if "t < length (rg_workers s)" for t
    using reg_invD(7) [OF inv] nth_mem [OF that] by (fastforce simp: pc_defs)
  moreover have s': "s' = s\<lparr>rg_main := M_returned, init_lock := None\<rparr>" using step M_unlock by (simp add: main_step_def)
  ultimately show ?thesis using inv M_unlock by (simp add: s' reg_inv_def)
next
  case M_lock
  then show ?thesis using step reg_inv_lock [OF inv] by (auto simp: main_step_def split: if_splits)
next
  case M_woken
  then show ?thesis using step reg_inv_lock [OF inv] by (auto simp: main_step_def split: if_splits)
qed (use step in \<open>simp_all add: main_step_def\<close>)

text \<open>Only the worker that holds the lock is inside.\<close>

lemma others_outside:
  assumes "reg_inv n s" "t < length (rg_workers s)" "init_lock s = None \<or> inside (rg_workers s ! t)"
    "u < length (rg_workers s)" "u \<noteq> t"
  shows "\<not> inside (rg_workers s ! u)"
  using reg_invD(4) [OF assms(1), of u] reg_invD(4) [OF assms(1), of t] assms(2-5) by auto

text \<open>Worker \<open>t\<close> moves to another stage, the others are outside.\<close>

lemma worker_moved:
  assumes "t < length ws" "\<And>u. u < length ws \<Longrightarrow> u \<noteq> t \<Longrightarrow> \<not> inside (ws ! u)"
  shows "(u < length ws \<and> inside (ws[t := pc] ! u)) = (t = u \<and> inside pc)"
  using assms by (auto simp: nth_list_update)

lemma inside_simps [simp]:
  "inside R_locked" "inside R_counted" "inside R_signalled" "\<not> inside R_start" "\<not> inside R_loop"
  "counted R_counted" "counted R_signalled" "counted R_loop" "\<not> counted R_start" "\<not> counted R_locked"
  by (simp_all add: pc_defs)

lemma reg_inv_worker:
  assumes inv: "reg_inv n s" and t: "t < length (rg_workers s)" and main: "rg_main s \<noteq> M_exit"
    and step: "register_step t s = Some s'"
  shows "reg_inv n s'"
proof -
  let ?w = "rg_workers s"
  note o = others_outside [OF inv t]
  have moved: "length ?w = n \<Longrightarrow> init_lock s = None \<or> inside (?w ! t) \<Longrightarrow> (u < n \<and> inside (?w[t := pc] ! u)) = (t = u \<and> inside pc)" for u pc
    using worker_moved [OF t, of u pc] o by auto
  have len: "length ?w \<le> n" "rg_main s \<noteq> M_create \<Longrightarrow> length ?w = n" using reg_invD(1,2) [OF inv] main by simp_all
  have same: "count_if counted (?w[t := pc]) = init_count s" if "counted (?w ! t) = counted pc" for pc
    using moved_count [of t ?w counted pc] t that reg_invD(3) [OF inv] by simp
  have busy: "rg_main s \<noteq> M_unlock \<and> rg_main s \<noteq> M_returned" if "?w ! t \<noteq> R_loop"
    using reg_invD(7) [OF inv] nth_mem [OF t] that by auto
  have mine: "init_lock s = Some (Worker t)" if "inside (?w ! t)" using reg_invD(4) [OF inv, of t] t that by simp
  have not_main: "rg_main s \<noteq> M_test \<and> rg_main s \<noteq> M_unlock" if "init_lock s \<noteq> Some Main"
    using reg_invD(5) [OF inv] that by simp
  show ?thesis
  proof (cases "?w ! t")
    case R_start
    then have lock: "init_lock s = None" and s': "s' = set_worker t R_locked (s\<lparr>init_lock := Some (Worker t)\<rparr>)"
      using step by (auto simp: register_step_def split: if_splits)
    have "init_count s < n" if "rg_main s = M_wait"
      using reg_invD(6) [OF inv that] reg_invD(4) [OF inv] lock by fastforce
    then show ?thesis
      using lock len same [of R_locked] busy R_start not_main
      by (simp add: s' reg_inv_def set_worker_def worker_moved [OF t o])
  next
    case R_locked
    then have s': "s' = set_worker t R_counted (s\<lparr>init_count := init_count s + 1\<rparr>)"
      using step by (simp add: register_step_def)
    have "count_if counted (?w[t := R_counted]) = init_count s + 1"
      using count_if_update [OF t, of counted R_counted] R_locked reg_invD(3) [OF inv] by (simp add: pc_defs)
    moreover have "\<exists>u<n. ?w[t := R_counted] ! u = R_counted" using t len(1) by (intro exI [of _ t]) simp
    moreover have "init_lock s = Some (Worker t)" using mine R_locked by simp
    ultimately show ?thesis
      using len busy R_locked not_main
      by (simp add: s' reg_inv_def set_worker_def worker_moved [OF t o])
  next
    case R_counted
    then have s': "s' = set_worker t R_signalled (cond_signal s)"
      using step by (simp add: register_step_def)
    have "init_lock s = Some (Worker t)" using mine R_counted by simp
    then show ?thesis
      using len same [of R_signalled] busy R_counted not_main
      by (simp add: s' reg_inv_def set_worker_def worker_moved [OF t o] moved cond_signal_def)
  next
    case R_signalled
    then have s': "s' = set_worker t R_loop (s\<lparr>init_lock := None\<rparr>)"
      using step by (simp add: register_step_def)
    have "init_count s < n" if "rg_main s = M_wait"
      using reg_invD(6) [OF inv that] o R_signalled by (metis inside_simps(2,3) reg_pc.distinct(15))
    moreover have "init_lock s = Some (Worker t)" using mine R_signalled by simp
    ultimately show ?thesis
      using len same [of R_loop] busy R_signalled not_main
      by (simp add: s' reg_inv_def set_worker_def worker_moved [OF t o])
  next
    case R_loop
    then show ?thesis using step by (simp add: register_step_def)
  qed
qed

lemma reg_inv_step: "reg_step n s s' \<Longrightarrow> reg_inv n s \<Longrightarrow> reg_inv n s'"
  by (erule reg_step.cases) (blast intro: reg_inv_main reg_inv_worker)+

lemma reg_run_inv: "reg_run n s \<Longrightarrow> reg_inv n s"
proof (induction rule: reg_run.induct)
  case (spurious s)
  then show ?case by (simp add: reg_inv_def)
qed (blast intro: reg_inv_init reg_inv_step)+

section \<open>The start of the threads\<close>

text \<open>C17: when \<^verbatim>\<open>thread_init\<close> returns, all the workers have been created, counted and have left the registration, whatever
  the order of the steps and however often the wait ends without a signal.\<close>

theorem thread_init_waits:
  assumes "reg_run n s" "rg_main s = M_returned"
  shows "init_count s = n \<and> length (rg_workers s) = n \<and> (\<forall>pc\<in>set (rg_workers s). pc = R_loop)"
  using reg_invD(2,7) [OF reg_run_inv [OF assms(1)]] assms(2) by simp

text \<open>A run with one worker, in which the main thread waits and is woken.\<close>

lemma reg_run_main: "reg_run n s \<Longrightarrow> main_step n True s = Some s' \<Longrightarrow> reg_run n s'"
  by (rule reg_run.step [OF _ reg_step.main])

lemma reg_run_worker: "reg_run n s \<Longrightarrow> t < length (rg_workers s) \<and> rg_main s \<noteq> M_exit \<and> register_step t s = Some s' \<Longrightarrow> reg_run n s'"
  by (auto intro: reg_run.step [OF _ reg_step.worker])

lemmas reg_defs = registration_init_def main_step_def create_worker_def wait_test_def register_step_def set_worker_def cond_signal_def

lemma reg_run_waiting:
  "reg_run 1 \<lparr>init_count = 0, init_lock = None, rg_main = M_wait, rg_workers = [R_start]\<rparr>"
proof -
  have "reg_run 1 \<lparr>init_count = 0, init_lock = None, rg_main = M_create, rg_workers = [R_start]\<rparr>"
    by (rule reg_run_main [OF reg_run.start]) (simp add: reg_defs)
  then have "reg_run 1 \<lparr>init_count = 0, init_lock = None, rg_main = M_lock, rg_workers = [R_start]\<rparr>"
    by (rule reg_run_main) (simp add: reg_defs)
  then have "reg_run 1 \<lparr>init_count = 0, init_lock = Some Main, rg_main = M_test, rg_workers = [R_start]\<rparr>"
    by (rule reg_run_main) (simp add: reg_defs)
  then show ?thesis by (rule reg_run_main) (simp add: reg_defs)
qed

lemma reg_run_returned:
  "reg_run 1 \<lparr>init_count = 1, init_lock = None, rg_main = M_returned, rg_workers = [R_loop]\<rparr>"
proof -
  have "reg_run 1 \<lparr>init_count = 0, init_lock = Some (Worker 0), rg_main = M_wait, rg_workers = [R_locked]\<rparr>"
    by (rule reg_run_worker [OF reg_run_waiting, where t = 0]) (simp add: reg_defs)
  then have "reg_run 1 \<lparr>init_count = 1, init_lock = Some (Worker 0), rg_main = M_wait, rg_workers = [R_counted]\<rparr>"
    by (rule reg_run_worker [where t = 0]) (simp add: reg_defs)
  then have "reg_run 1 \<lparr>init_count = 1, init_lock = Some (Worker 0), rg_main = M_woken, rg_workers = [R_signalled]\<rparr>"
    by (rule reg_run_worker [where t = 0]) (simp add: reg_defs)
  then have "reg_run 1 \<lparr>init_count = 1, init_lock = None, rg_main = M_woken, rg_workers = [R_loop]\<rparr>"
    by (rule reg_run_worker [where t = 0]) (simp add: reg_defs)
  then have "reg_run 1 \<lparr>init_count = 1, init_lock = Some Main, rg_main = M_test, rg_workers = [R_loop]\<rparr>"
    by (rule reg_run_main) (simp add: reg_defs)
  then have "reg_run 1 \<lparr>init_count = 1, init_lock = Some Main, rg_main = M_unlock, rg_workers = [R_loop]\<rparr>"
    by (rule reg_run_main) (simp add: reg_defs)
  then show ?thesis by (rule reg_run_main) (simp add: reg_defs)
qed

lemma thread_init_waits_witness:
  "\<exists>s. reg_run 1 s \<and> rg_main s = M_returned \<and> rg_workers s = [R_loop] \<and> init_count s = 1"
  using thread_init_waits [OF reg_run_returned] reg_run_returned by (intro exI [of _ "\<lparr>init_count = 1, init_lock = None, rg_main = M_returned, rg_workers = [R_loop]\<rparr>"]) simp

text \<open>What is left to do, as a number that every step lowers; a wake-up without a signal may raise it.\<close>

fun worker_left :: "reg_pc \<Rightarrow> nat" where
  "worker_left R_start = 20"
| "worker_left R_locked = 15"
| "worker_left R_counted = 10"
| "worker_left R_signalled = 5"
| "worker_left R_loop = 0"

fun main_left :: "main_pc \<Rightarrow> nat" where
  "main_left M_create = 6"
| "main_left M_lock = 5"
| "main_left M_woken = 4"
| "main_left M_test = 3"
| "main_left M_unlock = 2"
| "main_left M_wait = 1"
| "main_left M_returned = 0"
| "main_left M_exit = 0"

definition reg_left :: "nat \<Rightarrow> registration \<Rightarrow> nat" where
  "reg_left n s = 21 * (n - length (rg_workers s)) + sum_list (map worker_left (rg_workers s)) + main_left (rg_main s)"

lemma worker_left_update:
  "t < length ws \<Longrightarrow> sum_list (map worker_left (ws[t := pc])) + worker_left (ws ! t) = sum_list (map worker_left ws) + worker_left pc"
proof (induction ws arbitrary: t)
  case (Cons w ws)
  then show ?case by (cases t) auto
qed simp

lemma main_step_lowers: "main_step n ok s = Some s' \<Longrightarrow> reg_left n s' < reg_left n s"
  by (cases "rg_main s"; cases ok) (auto simp: main_step_def reg_left_def create_worker_def wait_test_def split: if_splits)

lemma register_step_lowers:
  assumes "t < length (rg_workers s)" "register_step t s = Some s'"
  shows "reg_left n s' < reg_left n s"
  using assms worker_left_update [OF assms(1), of R_locked] worker_left_update [OF assms(1), of R_counted]
    worker_left_update [OF assms(1), of R_signalled] worker_left_update [OF assms(1), of R_loop]
  by (cases "rg_workers s ! t") (auto simp: register_step_def reg_left_def set_worker_def cond_signal_def split: if_splits)

lemma inside_can_step: "inside (rg_workers s ! t) \<Longrightarrow> \<exists>s'. register_step t s = Some s'"
  by (cases "rg_workers s ! t") (simp_all add: register_step_def)

lemma lock_free_or_step:
  assumes inv: "reg_inv n s" and main: "rg_main s \<noteq> M_test" "rg_main s \<noteq> M_unlock" "rg_main s \<noteq> M_exit"
    and stuck: "\<nexists>s'. reg_step n s s'"
  shows "init_lock s = None"
proof (rule ccontr)
  assume "init_lock s \<noteq> None"
  then obtain h where h: "init_lock s = Some h" by auto
  then obtain t where "init_lock s = Some (Worker t)" using reg_invD(5) [OF inv] main by (cases h) auto
  then have "t < length (rg_workers s)" "inside (rg_workers s ! t)" using reg_invD(4) [OF inv, of t] by simp_all
  then show False using inside_can_step main(3) stuck reg_step.worker by blast
qed

lemma waiting_can_step:
  assumes inv: "reg_inv n s" and main: "rg_main s = M_wait"
  shows "\<exists>s'. reg_step n s s'"
proof (rule ccontr)
  assume stuck: "\<nexists>s'. reg_step n s s'"
  then have lock: "init_lock s = None" using lock_free_or_step [OF inv] main by simp
  then have out: "\<not> inside (rg_workers s ! t)" if "t < length (rg_workers s)" for t
    using reg_invD(4) [OF inv, of t] that by simp
  then have "init_count s < n" using reg_invD(6) [OF inv main] by fastforce
  moreover have "length (rg_workers s) = n" using reg_invD(2) [OF inv] main by simp
  ultimately have "count_if counted (rg_workers s) \<noteq> length (rg_workers s)" using reg_invD(3) [OF inv] by simp
  then have "\<exists>pc\<in>set (rg_workers s). \<not> counted pc" by (metis count_if_def filter_True)
  then obtain t where t: "t < length (rg_workers s)" "\<not> counted (rg_workers s ! t)"
    by (auto simp: in_set_conv_nth)
  then have "rg_workers s ! t = R_start" using out [OF t(1)] by (cases "rg_workers s ! t") auto
  then have "\<exists>s'. register_step t s = Some s'" using lock by (simp add: register_step_def)
  then show False using stuck t(1) main reg_step.worker [of t s] by fastforce
qed

text \<open>C16: no wake-up is lost: as long as \<^verbatim>\<open>thread_init\<close> has not returned, and the process has not exited, some thread can take
  a step, and every step lowers the number of those that are left.\<close>

theorem thread_init_returns:
  assumes "reg_run n s"
  shows "(rg_main s \<noteq> M_returned \<and> rg_main s \<noteq> M_exit \<longrightarrow> (\<exists>s'. reg_step n s s')) \<and>
    (\<forall>s'. reg_step n s s' \<longrightarrow> reg_left n s' < reg_left n s)"
proof (intro conjI impI allI)
  have inv: "reg_inv n s" using assms by (rule reg_run_inv)
  assume live: "rg_main s \<noteq> M_returned \<and> rg_main s \<noteq> M_exit"
  show "\<exists>s'. reg_step n s s'"
  proof (cases "rg_main s = M_wait")
    case True
    then show ?thesis by (rule waiting_can_step [OF inv])
  next
    case False
    show ?thesis
    proof (rule ccontr)
      assume stuck: "\<nexists>s'. reg_step n s s'"
      have "\<exists>s'. main_step n True s = Some s'"
        using live False lock_free_or_step [OF inv _ _ _ stuck] by (cases "rg_main s") (auto simp: main_step_def)
      then show False using stuck reg_step.main by blast
    qed
  qed
next
  fix s' assume "reg_step n s s'"
  then show "reg_left n s' < reg_left n s"
    by (cases rule: reg_step.cases) (blast intro: main_step_lowers register_step_lowers)+
qed

lemma thread_init_returns_witness:
  "\<exists>s s'. reg_run 1 s \<and> rg_main s = M_wait \<and> reg_step 1 s s'"
  using thread_init_returns [OF reg_run_waiting] reg_run_waiting by fastforce

end
