(* ===== verification/Pm_Decimal.thy ===== *)
theory Pm_Decimal
  imports Pm_Util
begin

text \<open>
  The conversions \<^verbatim>\<open>%u\<close>, \<^verbatim>\<open>%d\<close> and \<^verbatim>\<open>%ld\<close> of \<^verbatim>\<open>printf\<close>, which print the messages of the client and the
  file with the process id, and that the conversions of util.cpp read back what they print.
\<close>

fun dec_nat :: "nat \<Rightarrow> bytes" where
  "dec_nat n = (if n < 10 then [of_nat (48 + n)] else dec_nat (n div 10) @ [of_nat (48 + n mod 10)])"

declare dec_nat.simps [simp del]

definition dec_int :: "int \<Rightarrow> bytes" where
  "dec_int i = (if i < 0 then 45 # dec_nat (nat (- i)) else dec_nat (nat i))"

lemma digit_of_nat:
  assumes "n < 10"
  shows "isdigit (of_nat (48 + n))" "unat (of_nat (48 + n) :: byte) = 48 + n"
proof -
  show u: "unat (of_nat (48 + n) :: byte) = 48 + n" using assms by (simp add: unat_of_nat take_bit_nat_eq_self del: of_nat_add)
  show "isdigit (of_nat (48 + n))" unfolding isdigit_def word_le_nat_alt u using assms by simp
qed

lemma dec_nat_digits: "dec_nat n \<noteq> [] \<and> (\<forall>d\<in>set (dec_nat n). isdigit d)"
proof (induction n rule: dec_nat.induct)
  case (1 n)
  then show ?case using digit_of_nat [of n] digit_of_nat [of "n mod 10"] by (subst dec_nat.simps) (auto simp: dec_nat.simps [of n])
qed

lemma dec_value_snoc: "dec_value (ds @ [d]) = 10 * dec_value ds + (unat d - 48)"
  by (simp add: dec_value_def)

lemma dec_value_dec_nat [simp]: "dec_value (dec_nat n) = n"
proof (induction n rule: dec_nat.induct)
  case (1 n)
  show ?case
  proof (cases "n < 10")
    case True
    then show ?thesis using digit_of_nat(2) [of n] by (subst dec_nat.simps) (simp add: dec_value_def del: of_nat_add)
  next
    case False
    then show ?thesis using 1 digit_of_nat(2) [of "n mod 10"]
      by (subst dec_nat.simps) (simp add: dec_value_snoc del: of_nat_add)
  qed
qed

lemma length_dec_nat: "n < 10 ^ k \<Longrightarrow> 0 < k \<Longrightarrow> length (dec_nat n) \<le> k"
proof (induction n arbitrary: k rule: dec_nat.induct)
  case (1 n)
  show ?case
  proof (cases "n < 10")
    case True
    then show ?thesis using 1(3) by (subst dec_nat.simps) simp
  next
    case False
    obtain j where j: "k = Suc j" using 1(3) by (cases k) auto
    then have "0 < j" using False 1(2) by (cases j) auto
    moreover have "n div 10 < 10 ^ j" using 1(2) j by (simp add: less_mult_imp_div_less mult.commute)
    ultimately have "length (dec_nat (n div 10)) \<le> j" using 1(1) False by simp
    then show ?thesis using False j by (subst dec_nat.simps) simp
  qed
qed

lemma strto_scan_line:
  assumes "ds \<noteq> []" "\<forall>d\<in>set ds. isdigit d"
  shows "strto_scan (ds @ [10]) = Some (False, dec_value ds, [10])"
proof -
  obtain d ds' where ds: "ds = d # ds'" using assms(1) by (cases ds) auto
  then have d: "\<not> isspace d" "d \<noteq> 45" "d \<noteq> 43" using assms(2) isdigit_not_space by auto
  have "\<not> isdigit 10" by (simp add: isdigit_def)
  then have "takeWhile isdigit (ds @ [10]) = ds" using assms(2) by (simp add: takeWhile_append2)
  then show ?thesis using d by (simp add: strto_scan_def Let_def ds)
qed

text \<open>\<^verbatim>\<open>safe_strtoul\<close> reads back a number with a newline.\<close>

lemma safe_strtoul_dec_line:
  assumes "n < 2 ^ 32"
  shows "safe_strtoul (dec_nat n @ [10]) = (True, of_nat n)"
proof -
  have "45 \<notin> set (dec_nat n)" using dec_nat_digits [of n] isdigit_not_space by auto
  moreover have "(ucast (word_of_nat n :: 64 word) :: u32) = word_of_nat n"
    by (rule bit_word_eqI) (auto simp: bit_simps)
  moreover have "isspace 10" by (simp add: isspace_def)
  ultimately show ?thesis
    using assms dec_nat_digits [of n] by (simp add: safe_strtoul_def strtoull_def strto_scan_line end_ok_def)
qed

end
