(* ===== verification/Srv_Start.thy ===== *)
theory Srv_Start
  imports Srv_Monitor Srv_Listen Srv_Register Pm_Decimal
begin

text \<open>
  The start of the server: the options, \<^verbatim>\<open>daemonize\<close>, the file with the process id, the thread for
  signals, the HTTP listener and \<^verbatim>\<open>main\<close> (server.cpp, sig.cpp). The system calls are records of operations on a
  world; what is only printed or logged is left out.
\<close>

section \<open>Options\<close>



section \<open>The process\<close>





section \<open>The file with the process id\<close>

text \<open>
  The files, which of them can be read and written, and which processes exist (\<^verbatim>\<open>kill(pid, 0) == 0\<close>).
  The first result is the process that the warning names. A file that cannot be closed is only reported.
\<close>

record pid_files =
  pf_content :: "bytes \<Rightarrow> bytes option"
  pf_readable :: "bytes \<Rightarrow> bool"
  pf_writable :: "bytes \<Rightarrow> bool"
  pf_alive :: "int \<Rightarrow> bool"

definition running_pid :: "pid_files \<Rightarrow> bytes \<Rightarrow> u32 option" where
  "running_pid fs pid_file =
     (case pf_content fs pid_file of None \<Rightarrow> None
      | Some content \<Rightarrow>
          if \<not> pf_readable fs pid_file \<or> content = [] then None
          else case safe_strtoul (takeWhile (\<lambda>b. b \<noteq> 0) (fst (fgets content))) of (ok, pid) \<Rightarrow>
            if ok \<and> pf_alive fs (sint pid) then Some pid else None)"

definition save_pid :: "int \<Rightarrow> bytes \<Rightarrow> pid_files \<Rightarrow> u32 option \<times> pid_files" where
  "save_pid pid pid_file fs =
     (running_pid fs pid_file,
      if pf_writable fs pid_file then fs\<lparr>pf_content := (pf_content fs)(pid_file \<mapsto> dec_int pid @ [10])\<rparr> else fs)"

text \<open>\<open>removable\<close> is the success of \<^verbatim>\<open>unlink\<close>.\<close>

definition remove_pidfile :: "bool \<Rightarrow> bytes option \<Rightarrow> pid_files \<Rightarrow> pid_files" where
  "remove_pidfile removable pid_file fs =
     (case pid_file of None \<Rightarrow> fs
      | Some p \<Rightarrow> if removable then fs\<lparr>pf_content := (pf_content fs)(p := None)\<rparr> else fs)"

section \<open>Signals\<close>



text \<open>
  The loop of \<^verbatim>\<open>sigmgr_thread\<close> over what \<^verbatim>\<open>sigwaitinfo\<close> returns, \<open>None\<close> for an error. The result is the flag
  \<^verbatim>\<open>g_exiting\<close>, which \<^verbatim>\<open>exiting\<close> sets before the process exits, and the index.
\<close>

fun sigmgr_thread :: "(bytes \<Rightarrow> disk_file option) \<Rightarrow> bytes option \<Rightarrow> int option list \<Rightarrow> indexobj \<Rightarrow> (bool \<times> indexobj) option" where
  "sigmgr_thread open_rdwr index_path [] ix = Some (False, ix)"
| "sigmgr_thread open_rdwr index_path (None # infos) ix = sigmgr_thread open_rdwr index_path infos ix"
| "sigmgr_thread open_rdwr index_path (Some signo # infos) ix =
     (case signal_handler signals signo of
        Some Sig_reload \<Rightarrow> do {
          (_, ix') \<leftarrow> Reload_index open_rdwr index_path None ix;
          sigmgr_thread open_rdwr index_path infos ix' }
      | Some Sig_exit \<Rightarrow> Some (True, ix)
      | _ \<Rightarrow> sigmgr_thread open_rdwr index_path infos ix)"

section \<open>The HTTP listener\<close>




section \<open>The main function\<close>


text \<open>The state with which the event loop begins.\<close>

record started =
  st_settings :: settings
  st_logger :: logger
  st_map :: hashMap
  st_index :: indexobj
  st_server :: server
  st_threads :: "libevent_thread list"
  st_http :: int




text \<open>\<^verbatim>\<open>main\<close> behind its event loop, of which \<open>looped\<close> is the success.\<close>

definition main_end :: "bool \<Rightarrow> bool \<Rightarrow> started \<Rightarrow> pid_files \<Rightarrow> int \<times> pid_files \<times> indexobj" where
  "main_end looped removable st fs =
     (if looped then 0 else EXIT_FAILURE, remove_pidfile removable (s_pidfile (st_settings st)) fs, snd (Deinit_Index (st_index st)))"

section \<open>The file with the process id is read back\<close>

lemma pid_line:
  assumes "0 \<le> pid" "pid < 2 ^ 31"
  shows "fst (fgets (dec_int pid @ [10])) = dec_int pid @ [10]" "takeWhile (\<lambda>b. b \<noteq> 0) (dec_int pid @ [10]) = dec_int pid @ [10]"
    "safe_strtoul (dec_int pid @ [10]) = (True, of_int pid)"
proof -
  have i: "dec_int pid = dec_nat (nat pid)" using assms(1) by (simp add: dec_int_def)
  have len: "length (dec_nat (nat pid)) \<le> 10" using assms by (intro length_dec_nat) simp_all
  have digits: "\<forall>b\<in>set (dec_nat (nat pid)). isdigit b" using dec_nat_digits by blast
  then have "\<forall>b\<in>set (dec_nat (nat pid)). b \<noteq> 10" by (auto simp: isdigit_def)
  then show "fst (fgets (dec_int pid @ [10])) = dec_int pid @ [10]"
    using fgets_line [of "dec_nat (nat pid)" "[]"] len by (simp add: i bufsize_def)
  have "\<forall>b\<in>set (dec_nat (nat pid)). b \<noteq> 0" using digits by (auto simp: isdigit_def)
  then show "takeWhile (\<lambda>b. b \<noteq> 0) (dec_int pid @ [10]) = dec_int pid @ [10]" by (simp add: i takeWhile_append2)
  show "safe_strtoul (dec_int pid @ [10]) = (True, of_int pid)" using assms safe_strtoul_dec_line [of "nat pid"] by (simp add: i)
qed

text \<open>C40: a second server that uses the same file warns of the first exactly while that one lives, and the file then names the second;
  a server that ends removes the file.\<close>

theorem save_pid_detects:
  assumes "0 \<le> pid" "pid < 2 ^ 31" "pf_readable fs p" "pf_writable fs p"
  shows "fst (save_pid pid' p (snd (save_pid pid p fs))) = (if pf_alive fs pid then Some (of_int pid) else None) \<and>
    pf_content (snd (save_pid pid' p (snd (save_pid pid p fs)))) p = Some (dec_int pid' @ [10]) \<and>
    pf_content (remove_pidfile True (Some p) (snd (save_pid pid p fs))) p = None"
proof -
  have "sint (of_int pid :: u32) = pid"
    using assms(1,2) signed_take_bit_int_eq_self [of 31 pid] by (simp add: sint_sbintrunc')
  then show ?thesis using assms(3,4) pid_line [OF assms(1,2)] by (simp add: save_pid_def running_pid_def remove_pidfile_def)
qed

lemma save_pid_detects_witness:
  "fst (save_pid 8 [112] (snd (save_pid 7 [112]
     \<lparr>pf_content = Map.empty, pf_readable = \<lambda>_. True, pf_writable = \<lambda>_. True, pf_alive = \<lambda>i. i = 7\<rparr>))) = Some 7"
  using save_pid_detects [of 7 "\<lparr>pf_content = Map.empty, pf_readable = \<lambda>_. True, pf_writable = \<lambda>_. True, pf_alive = \<lambda>i. i = 7\<rparr>" "[112]" 8]
  by simp

section \<open>A server that has started\<close>




















end
