(* ===== verification/Srv_Complete.thy ===== *)
theory Srv_Complete
  imports Srv_Life
begin

text \<open>
  No request is forgotten: a connection that waits for input has answered every complete request
  it has received. This needs, beside the invariant of the protocol, that the buffer of a
  waiting connection holds less than a header.
\<close>

section \<open>What waits in the buffer\<close>

definition waiting_ok :: "conn \<Rightarrow> bool" where
  "waiting_ok c \<longleftrightarrow> (state c \<in> {conn_waiting, conn_read} \<longrightarrow> rbytes c < sizeof_header)"

lemma event_or_close_waiting:
  assumes "event_or_close ops c f w = (b, c', w')"
  shows "rbytes c' = rbytes c" "state c' = (if b then state c else conn_closing)"
  using assms by (auto simp: event_or_close_def update_event_def split: prod.splits if_splits)

lemma no_data_state:
  assumes "no_data ops q c nreqs w = (c', nreqs', stop, w')"
  shows "rbytes c' = rbytes c" "state c' \<in> {state c, conn_closing}"
proof -
  obtain b c1 w1 where e: "event_or_close ops c EV_READ_PERSIST w = (b, c1, w1)" by (metis prod_cases3)
  show "rbytes c' = rbytes c" "state c' \<in> {state c, conn_closing}"
    using assms e event_or_close_waiting [OF e] by (cases b; auto simp: no_data_def split: if_splits)+
qed

lemma trn_room_kept:
  assumes "trn_room ops left c w = Some (m, left', c', w')" "m \<noteq> No_memory"
  shows "rbytes c' = rbytes c"
  using assms by (auto simp: trn_room_def Option.bind_eq_Some_conv split: if_splits prod.splits option.splits)

text \<open>A read that reports no data has received none.\<close>

lemma trn_loop_no_data:
  "trn_loop ops left g c w = Some (READ_NO_DATA_RECEIVED, c', w') \<Longrightarrow> g = READ_NO_DATA_RECEIVED \<and> rbytes c' = rbytes c"
proof (induction ops left g c w rule: trn_loop.induct)
  case (1 ops left g c w)
  obtain m left' c1 w1 where rm: "trn_room ops left c w = Some (m, left', c1, w1)"
    using 1(2) by (subst (asm) trn_loop.simps) (auto split: option.splits)
  show ?case
  proof (cases m)
    case Room
    obtain q c2 w2 where q: "trn_recv ops c1 w1 = Some (q, c2, w2)"
      using 1(2) rm Room by (subst (asm) trn_loop.simps) (auto split: option.splits)
    have keep: "(\<forall>bs. q \<noteq> Read_bytes bs) \<Longrightarrow> rbytes c2 = rbytes c1"
      using q by (auto simp: trn_recv_def Option.bind_eq_Some_conv split: prod.splits io_read.splits)
    show ?thesis
    proof (cases q)
      case (Read_bytes bs)
      show ?thesis
      proof (cases "length bs = trn_avail c1")
        case True
        have "trn_loop ops left' READ_DATA_RECEIVED c2 w2 = Some (READ_NO_DATA_RECEIVED, c', w')"
          using 1(2) rm Room q Read_bytes True by (subst (asm) trn_loop.simps) simp
        from 1(1) [OF rm refl Room refl refl q refl Read_bytes refl True this] show ?thesis by simp
      next
        case False
        then show ?thesis using 1(2) rm Room q Read_bytes by (subst (asm) trn_loop.simps) simp
      qed
    qed (use 1(2) rm Room q keep trn_room_kept [OF rm] in \<open>(subst (asm) trn_loop.simps, simp)+\<close>)
  next
    case Enough
    then show ?thesis using 1(2) rm trn_room_kept [OF rm] by (subst (asm) trn_loop.simps) simp
  next
    case No_memory
    then show ?thesis using 1(2) rm by (subst (asm) trn_loop.simps) simp
  qed
qed

lemma trn_loop_state:
  assumes "sock_ok ops s recvd sent" "mem_avail ops" "conn_ok s pad c" "trn_loop ops left READ_NO_DATA_RECEIVED c w = Some (r, c', w')" "rcurr c = 0"
  shows "r \<noteq> READ_MEMORY_ERROR"
  using trn_loop_ok [OF assms(4,1-3,5)] by simp

lemma write_bin_state:
  "write_bin_response ops c n w = Some (c', w') \<Longrightarrow> state c' = conn_mwrite"
  "write_bin_error ops c e k w = Some (c', w') \<Longrightarrow> state c' = conn_mwrite"
  by (auto simp: write_bin_response_def write_bin_error_def Let_def Option.bind_eq_Some_conv split: if_splits)

lemma complete_nread_state: "complete_nread ops answer c w = Some (c', w') \<Longrightarrow> state c' = conn_mwrite"
  by (auto simp: complete_nread_def Let_def Option.bind_eq_Some_conv dest: write_bin_state split: if_splits prod.splits option.splits)

lemma take_leftovers_state: "take_leftovers c = Some c' \<Longrightarrow> state c' = state c"
  by (auto simp: take_leftovers_def Let_def Option.bind_eq_Some_conv)

lemma read_body_state:
  assumes "read_body ops c nreqs w = Some (c', nreqs', stop, w')"
  shows "state c' \<in> {state c, conn_closing}"
proof -
  obtain q w1 where q: "sys_read ops (sfd c) (nat (rlbytes c mod 2 ^ 64)) w = (q, w1)" by fastforce
  show ?thesis
    using assms q no_data_state(2) [of ops q c nreqs w1]
    by (cases q) (auto simp: read_body_def Option.bind_eq_Some_conv)
qed

lemma grow_rbuf_failed: "grow_rbuf ops c w = Some (Inl c', w') \<Longrightarrow> state c' = conn_closing"
  by (auto simp: grow_rbuf_def Let_def Option.bind_eq_Some_conv split: if_splits prod.splits option.splits)

lemma bin_read_key_state:
  assumes "bin_read_key ops c w = Some (c', w')"
  shows "state c' \<in> {conn_nread, conn_closing}"
proof -
  obtain r w1 where r: "grow_rbuf ops (c\<lparr>rlbytes := as_int (uint (rq_bodylen (binary_header c)))\<rparr>) w = Some (r, w1)"
    using assms by (auto simp: bin_read_key_def Option.bind_eq_Some_conv)
  show ?thesis using assms r by (cases r) (auto simp: bin_read_key_def dest: grow_rbuf_failed)
qed

section \<open>The invariant\<close>

lemma waiting_step:
  assumes sock: "sock_ok ops s recvd sent" "mem_avail ops" and inv: "serving s answer pad reqs c (recvd w) (sent w)"
    and ok: "waiting_ok c" and step: "drive_step ops answer c nreqs w = Some (c', nreqs', stop, w')"
  shows "waiting_ok c'"
proof -
  have c_ok: "conn_ok s pad c" using inv by (simp add: serving_def)
  show ?thesis
  proof (cases "state c")
    case conn_waiting
    obtain b c1 w1 where e: "event_or_close ops c EV_READ_PERSIST w = (b, c1, w1)" by (metis prod_cases3)
    show ?thesis
      using step conn_waiting e event_or_close_waiting [OF e] ok
      by (cases b) (auto simp: drive_step_def step_waiting_def waiting_ok_def)
  next
    case conn_read
    then obtain r c1 where t: "try_read_network ops c w = Some (r, c1, w')"
      and c': "c' = (case r of READ_NO_DATA_RECEIVED \<Rightarrow> c1\<lparr>state := conn_waiting\<rparr> | READ_DATA_RECEIVED \<Rightarrow> c1\<lparr>state := conn_parse_cmd\<rparr>
         | READ_ERROR \<Rightarrow> c1\<lparr>state := conn_closing\<rparr> | READ_MEMORY_ERROR \<Rightarrow> c1)"
      using step by (auto simp: drive_step_def step_read_def Option.bind_eq_Some_conv cong: try_read_result.case_cong)
    obtain c0 where c0: "repack c = Some c0" "trn_loop ops 4 READ_NO_DATA_RECEIVED c0 w = Some (r, c1, w')"
      using t by (auto simp: try_read_network_def Option.bind_eq_Some_conv)
    note rp = repack_ok [OF c_ok c0(1)]
    have "conn_ok s pad c0" using rp(1) by (simp add: received_def)
    then have "r \<noteq> READ_MEMORY_ERROR" using trn_loop_state [OF sock _ c0(2) rp(2)] by blast
    moreover have "rbytes c0 = rbytes c" using c0(1) by (auto simp: repack_def Option.bind_eq_Some_conv split: if_splits)
    moreover have "r = READ_NO_DATA_RECEIVED \<Longrightarrow> rbytes c1 = rbytes c0" using trn_loop_no_data c0(2) by metis
    ultimately show ?thesis using c' ok conn_read by (cases r) (auto simp: waiting_ok_def)
  next
    case conn_parse_cmd
    then obtain r c1 where t: "try_read_command ops c w = Some (r, c1, w')" and c': "c' = (if r = 0 then c1\<lparr>state := conn_waiting\<rparr> else c1)"
      using step by (auto simp: drive_step_def step_parse_cmd_def Option.bind_eq_Some_conv)
    have fresh: "add_msghdr ops (reset_messages (c\<lparr>binary_header := req\<rparr>)) w = (b, d, w1) \<Longrightarrow> b" for req b d w1
      using c_ok add_msghdr_fresh [of "c\<lparr>binary_header := req\<rparr>" ops w] by (simp add: conn_ok_def out_room_def)
    have "r = 0 \<and> rbytes c1 < sizeof_header \<or> r \<noteq> 0 \<and> state c1 \<in> {conn_nread, conn_closing}"
      using t by (auto simp: try_read_command_def dispatch_bin_command_def Option.bind_eq_Some_conv
          dest!: fresh bin_read_key_state split: if_splits prod.splits)
    then show ?thesis using c' by (auto simp: waiting_ok_def)
  next
    case conn_new_cmd
    then show ?thesis
      using step event_or_close_waiting(2) [of ops c EV_WRITE_PERSIST w]
      by (auto simp: drive_step_def step_new_cmd_def reset_cmd_handler_def Let_def waiting_ok_def sizeof_header_def Option.bind_eq_Some_conv
          split: if_splits prod.splits)
  next
    case conn_nread
    then have "state c' \<in> {conn_nread, conn_closing, conn_mwrite}"
      using step complete_nread_state take_leftovers_state read_body_state
      by (fastforce simp: drive_step_def step_nread_def Option.bind_eq_Some_conv split: if_splits)
    then show ?thesis by (auto simp: waiting_ok_def)
  next
    case conn_mwrite
    then obtain p where p: "out_ok c" "pending c = Some p" using inv by (auto simp: serving_def)
    have "sfd c = s" using c_ok by (simp add: conn_ok_def)
    then obtain r c1 w1 where t: "transmit ops c w = Some (r, c1, w1)" "state c1 = (if r = TRANSMIT_HARD_ERROR then conn_closing else state c)"
      using transmit_ok [of ops c recvd sent p w] sock(1) p by metis
    then show ?thesis
      using step conn_mwrite by (cases r) (auto simp: drive_step_def step_mwrite_def transmit_complete_def waiting_ok_def split: if_splits)
  qed (use step inv in \<open>auto simp: serving_def drive_step_def waiting_ok_def\<close>)
qed

lemma conn_run_waiting:
  assumes run: "conn_run ops answer env recvd c0 w0 c w"
    and sock: "sock_ok ops s recvd sent" "mem_avail ops" "env_ok env recvd sent"
    and init: "conn_fresh s c0" "recvd w0 = []" "sent w0 = []"
  shows "waiting_ok c"
  using run
proof (induction rule: conn_run.induct)
  case start
  then show ?case using init(1) by (simp add: conn_fresh_def waiting_ok_def)
next
  case (round c w nreqs c' nreqs' stop w')
  then obtain reqs where "serving s answer (padding c0) reqs c (recvd w) (sent w)"
    using conn_run_serving [OF _ sock init] by blast
  then show ?case using waiting_step [OF sock(1,2)] round by blast
qed

text \<open>C8: when a connection waits for input, every complete request it has received has been answered, and every
  byte of the answers has been sent; what is left is less than a header.\<close>

theorem waiting_has_answered:
  assumes "sock_ok ops s recvd sent" "mem_avail ops" "env_ok env recvd sent"
    and "conn_fresh s c0" "recvd w0 = []" "sent w0 = []"
    and "conn_run ops answer env recvd c0 w0 c w" "state c = conn_waiting"
  shows "\<exists>reqs rest. (\<forall>r\<in>set reqs. good_req r) \<and> recvd w = stream reqs @ rest \<and> length rest < sizeof_header \<and>
    replies answer (padding c0) reqs = Some (sent w)"
proof -
  obtain reqs where inv: "serving s answer (padding c0) reqs c (recvd w) (sent w)"
    using conn_run_serving [OF assms(7,1-6)] by blast
  have "rbytes c < sizeof_header" using conn_run_waiting [OF assms(7,1-6)] assms(8) by (simp add: waiting_ok_def)
  moreover have "length (unparsed c) = rbytes c" using inv length_unparsed unfolding serving_def by blast
  ultimately show ?thesis using inv assms(8) by (auto simp: serving_def)
qed

lemma waiting_has_answered_witness:
  "\<exists>reqs rest. (\<forall>r\<in>set reqs. good_req r) \<and> scr_recvd script_world3 = stream reqs @ rest \<and> length rest < sizeof_header \<and>
    replies script_answer [0, 0] reqs = Some (scr_sent script_world3)"
proof -
  have ok: "script_good script_world3" by (simp add: script_good_def script_world3_def)
  have "map_option (\<lambda>(c, w). (state c, scr_recvd w, scr_sent w)) (rounds script_ops script_answer script_good 2 script_conn3 script_world3) =
      Some (conn_waiting, scr_recvd script_world3, scr_sent script_world3)" by code_simp
  then obtain c w where r: "rounds script_ops script_answer script_good 2 script_conn3 script_world3 = Some (c, w)" "state c = conn_waiting"
    "scr_recvd w = scr_recvd script_world3" "scr_sent w = scr_sent script_world3"
    by auto
  have "conn_run script_ops script_answer (=) scr_recvd script_conn script_world c w"
    by (rule rounds_run [OF _ r(1) script_run]) (rule script_good_sizes)
  from waiting_has_answered [OF script_ok script_fresh this r(2)] show ?thesis
    using r(3,4) by (simp only: script_padding)
qed

end
