(* ===== verification/Srv_Total.thy ===== *)
theory Srv_Total
  imports Srv_Complete
begin

text \<open>
  Every round of a connection is defined: from a connection with the invariant and a buffer
  that has room, no step reads or writes outside a buffer, overflows an \<^verbatim>\<open>int\<close> or
  fails an assertion. The lemmas also say what a round leaves of the buffer's size and of the
  work that is left.
\<close>

section \<open>The buffer has room\<close>

text \<open>
  A buffer holds a header. It is within the high-water mark when the connection waits or reads,
  since \<^const>\<open>conn_shrink\<close> has been there, so that reading can double it; a command is parsed
  only when there are bytes.
\<close>

definition room_ok :: "conn \<Rightarrow> bool" where
  "room_ok c \<longleftrightarrow> int sizeof_header \<le> rsize c \<and>
     (state c \<in> {conn_waiting, conn_read} \<longrightarrow> rbytes c < sizeof_header \<and> rsize c \<le> int READ_BUFFER_HIGHWAT) \<and>
     (state c = conn_parse_cmd \<longrightarrow> 0 < rbytes c \<and> (rbytes c < sizeof_header \<longrightarrow> rsize c \<le> int READ_BUFFER_HIGHWAT))"

lemma repack_total:
  assumes "conn_ok s pad c"
  shows "\<exists>c'. repack c = Some c' \<and> rsize c' = rsize c \<and> rbytes c' = rbytes c"
  using mem_slice_unparsed [OF assms] length_unparsed [OF assms] assms
  by (simp add: repack_def mem_put_ok conn_ok_def)

lemma trn_room_total:
  assumes mem: "mem_avail ops" and pos: "0 < rsize c" "rsize c * 2 ^ left \<le> INT_MAX" "int (rbytes c) \<le> rsize c"
  shows "\<exists>rm left' c' w'. trn_room ops left c w = Some (rm, left', c', w') \<and> rsize c' * 2 ^ left' = rsize c * 2 ^ left \<and>
    rsize c \<le> rsize c' \<and> rbytes c' = rbytes c \<and> (rsize c' = rsize c \<or> rsize c \<le> int (rbytes c)) \<and>
    (rm = Room \<longrightarrow> int (rbytes c) < rsize c')"
proof (cases "int (rbytes c) < rsize c \<or> left = 0")
  case False
  then obtain l where l: "left = Suc l" by (cases left) auto
  have "rsize c * 2 \<le> rsize c * 2 ^ left" using pos(1) l by simp
  then have le: "\<not> INT_MAX < rsize c * 2" using pos(2) by linarith
  obtain m w1 where m: "sys_malloc ops (nat (rsize c * 2)) w = (Some m, w1)" using mem_availE [OF mem] .
  then obtain buf where re: "realloc_bytes ops (rbuf c) (nat (rsize c * 2)) w = (Some buf, w1)" by (auto simp: realloc_bytes_def)
  show ?thesis using False pos le re l by (auto simp: trn_room_def)
qed (auto simp: trn_room_def)

lemma trn_recv_total:
  assumes sock: "sock_ok ops s recvd sent" and ok: "conn_ok s pad c" "rcurr c = 0"
  shows "\<exists>q c' w'. trn_recv ops c w = Some (q, c', w') \<and> rsize c' = rsize c \<and>
    (case q of Read_bytes bs \<Rightarrow> bs \<noteq> [] \<and> rbytes c' = rbytes c + length bs | _ \<Rightarrow> rbytes c' = rbytes c)"
proof -
  have s: "sfd c = s" using ok by (simp add: conn_ok_def)
  obtain q w1 where rd: "sys_read ops s (trn_avail c) w = (q, w1)" by (metis prod.exhaust)
  note rd_ok = sock_okD(1) [OF sock rd]
  show ?thesis
  proof (cases q)
    case (Read_bytes bs)
    then have "bs \<noteq> []" "rbytes c + length bs \<le> length (rbuf c)" using rd_ok ok by (auto simp: trn_avail_def conn_ok_def)
    then show ?thesis using rd Read_bytes s by (simp add: trn_recv_def mem_put_ok)
  qed (use rd s in \<open>simp_all add: trn_recv_def\<close>)
qed

text \<open>A round of reading is defined; bytes are reported when there are some, and only a full buffer is doubled.\<close>

lemma trn_loop_total:
  "sock_ok ops s recvd sent \<Longrightarrow> mem_avail ops \<Longrightarrow> conn_ok s pad c \<Longrightarrow> rcurr c = 0 \<Longrightarrow> 0 < rsize c \<Longrightarrow> rsize c * 2 ^ left \<le> INT_MAX \<Longrightarrow>
   \<exists>r c' w'. trn_loop ops left g c w = Some (r, c', w') \<and> rsize c \<le> rsize c' \<and> rbytes c \<le> rbytes c' \<and>
     (rsize c' = rsize c \<or> rsize c \<le> int (rbytes c')) \<and> (r = READ_DATA_RECEIVED \<longrightarrow> g = READ_DATA_RECEIVED \<or> 0 < rbytes c')"
proof (induction ops left g c w rule: trn_loop.induct)
  case (1 ops left g c w)
  have "int (rbytes c) \<le> rsize c" using 1(4) by (simp add: conn_ok_def)
  then obtain rm left' c1 w1 where rm: "trn_room ops left c w = Some (rm, left', c1, w1)"
    and room: "rsize c1 * 2 ^ left' = rsize c * 2 ^ left" "rsize c \<le> rsize c1" "rbytes c1 = rbytes c"
      "rsize c1 = rsize c \<or> rsize c \<le> int (rbytes c)"
    using trn_room_total [OF 1(3) 1(6,7)] by blast
  note room_ok = trn_room_ok [OF 1(2-5) rm]
  show ?case
  proof (cases rm)
    case Enough
    then show ?thesis using rm room by (subst trn_loop.simps) auto
  next
    case Room
    have ok1: "conn_ok s pad c1" using room_ok(2) by (simp add: received_def)
    obtain q c2 w2 where q: "trn_recv ops c1 w1 = Some (q, c2, w2)" "rsize c2 = rsize c1"
      "case q of Read_bytes bs \<Rightarrow> bs \<noteq> [] \<and> rbytes c2 = rbytes c1 + length bs | _ \<Rightarrow> rbytes c2 = rbytes c1"
      using trn_recv_total [OF 1(2) ok1 room_ok(3)] by blast
    show ?thesis
    proof (cases q)
      case (Read_bytes bs)
      show ?thesis
      proof (cases "length bs = trn_avail c1")
        case True
        have "conn_ok s pad c2" "rcurr c2 = 0" using trn_recv_ok [OF 1(2) ok1 room_ok(3) q(1)] by (auto simp: received_def)
        moreover have "0 < rsize c2" "rsize c2 * 2 ^ left' \<le> INT_MAX" using q(2) room 1(6,7) by simp_all
        ultimately obtain r c' w' where r: "trn_loop ops left' READ_DATA_RECEIVED c2 w2 = Some (r, c', w')" "rsize c2 \<le> rsize c'"
          "rbytes c2 \<le> rbytes c'" "rsize c' = rsize c2 \<or> rsize c2 \<le> int (rbytes c')"
          using 1(1) [OF rm refl Room refl refl q(1) refl Read_bytes refl True 1(2,3)] by blast
        have "trn_loop ops left g c w = Some (r, c', w')" using rm Room q(1) Read_bytes True r(1) by (subst trn_loop.simps) simp
        then show ?thesis using r(2-4) room q(2,3) Read_bytes by (intro exI [of _ r] exI [of _ c'] exI [of _ w']) auto
      next
        case False
        then have "trn_loop ops left g c w = Some (READ_DATA_RECEIVED, c2, w2)"
          using rm Room q(1) Read_bytes by (subst trn_loop.simps) simp
        then show ?thesis using room q(2,3) Read_bytes by auto
      qed
    qed (use rm Room q room in \<open>(subst trn_loop.simps, auto)+\<close>)
  qed (use room_ok(1) in simp)
qed

lemma read_total:
  assumes sock: "sock_ok ops s recvd sent" "mem_avail ops" and ok: "conn_ok s pad c" "room_ok c" and st: "state c = conn_read"
  shows "\<exists>c' w'. step_read ops c nreqs w = Some (c', nreqs, False, w') \<and> room_ok c' \<and> state c' \<in> {conn_waiting, conn_parse_cmd, conn_closing}"
proof -
  obtain c0 where c0: "repack c = Some c0" "rsize c0 = rsize c" "rbytes c0 = rbytes c" using repack_total [OF ok(1)] by blast
  note rp = repack_ok [OF ok(1) c0(1)]
  have ok0: "conn_ok s pad c0" using rp(1) by (simp add: received_def)
  have size: "int sizeof_header \<le> rsize c" "rsize c \<le> int READ_BUFFER_HIGHWAT" "rbytes c < sizeof_header" using ok(2) st by (simp_all add: room_ok_def)
  then have "0 < rsize c0" "rsize c0 * 2 ^ 4 \<le> INT_MAX"
    using c0(2) by (simp_all add: sizeof_header_def READ_BUFFER_HIGHWAT_def INT_MAX_def)
  then obtain r c1 w1 where r: "trn_loop ops 4 READ_NO_DATA_RECEIVED c0 w = Some (r, c1, w1)" "rsize c \<le> rsize c1"
    "rsize c1 = rsize c \<or> rsize c \<le> int (rbytes c1)" "r = READ_DATA_RECEIVED \<longrightarrow> 0 < rbytes c1"
    using trn_loop_total [OF sock ok0 rp(2), of 4 READ_NO_DATA_RECEIVED w] c0(2,3) by auto
  have no_data: "r = READ_NO_DATA_RECEIVED \<Longrightarrow> rbytes c1 = rbytes c" using trn_loop_no_data r(1) c0(3) by metis
  have "r \<noteq> READ_MEMORY_ERROR" using trn_loop_state [OF sock ok0 r(1) rp(2)] .
  then show ?thesis
    using size r no_data c0(1) by (cases r) (auto simp: step_read_def try_read_network_def room_ok_def)
qed

text \<open>A command.\<close>

lemma grow_rbuf_total:
  assumes sock: "sock_ok ops s recvd sent" and mem: "mem_avail ops" and ok: "conn_ok s pad c"
    and n: "rlbytes c = int n" "n \<le> MAX_BODY" "sizeof_header \<le> rbytes c"
  shows "\<exists>c' w'. grow_rbuf ops c w = Some (Inr c', w') \<and> rsize c \<le> rsize c'"
proof (cases "rsize c - int (rcurr c + sizeof_header) < rlbytes c")
  case True
  define size' where "size' = n + sizeof_header"
  have size': "size' \<le> 2 ^ 30" "nat ((rlbytes c + int sizeof_header) mod 2 ^ 64) = size'"
    using n(1,2) by (simp_all add: size'_def MAX_BODY_def sizeof_header_def nat_add_distrib)
  have rs: "rsize c = int (length (rbuf c))" "rsize c mod 2 ^ 64 = int (length (rbuf c))" "nat (rsize c mod 2 ^ 64) = length (rbuf c)"
    and pos: "0 < length (rbuf c)"
    using ok n(3) by (auto simp: conn_ok_def sizeof_header_def INT_MAX_def)
  obtain nsize where g: "grow_size size' (length (rbuf c)) = Some nsize" "length (rbuf c) \<le> nsize"
    "nsize = length (rbuf c) \<or> nsize < 2 * size'"
    using grow_size_ok [OF pos, of size'] size'(1) by auto
  have int_max: "int nsize \<le> INT_MAX" using g(3) size'(1) ok rs(1) by (auto simp: conn_ok_def INT_MAX_def)
  show ?thesis
  proof (cases "nsize = length (rbuf c)")
    case True
    then show ?thesis
      using \<open>rsize c - _ < _\<close> g(1) size'(2) rs repack_total [OF ok] by (auto simp: grow_rbuf_def Let_def)
  next
    case False
    obtain m w1 where "sys_malloc ops nsize w = (Some m, w1)" using mem_availE [OF mem] .
    then obtain buf where re: "realloc_bytes ops (rbuf c) nsize w = (Some buf, w1)" by (auto simp: realloc_bytes_def)
    have id: "as_int (int nsize) = int nsize" using int_max by (intro as_int_id) (simp_all add: INT_MAX_def)
    have "conn_ok s pad (c\<lparr>rbuf := buf, rsize := int nsize\<rparr>)"
      using realloc_rbuf_ok(1) [OF sock ok re g(2) refl int_max] by (simp add: received_def)
    from repack_total [OF this] obtain c' where "repack (c\<lparr>rbuf := buf, rsize := int nsize\<rparr>) = Some c'" "rsize c' = int nsize" by auto
    then show ?thesis
      using \<open>rsize c - _ < _\<close> g(1,2) size'(2) rs re id False by (auto simp: grow_rbuf_def Let_def)
  qed
qed (simp add: grow_rbuf_def)

lemma bin_read_key_total:
  assumes sock: "sock_ok ops s recvd sent" "mem_avail ops" and ok: "conn_ok s pad c"
    and n: "unat (rq_bodylen (binary_header c)) \<le> MAX_BODY" "sizeof_header \<le> rbytes c"
  shows "\<exists>c' w'. bin_read_key ops c w = Some (c', w') \<and> rsize c \<le> rsize c' \<and> state c' = conn_nread"
proof -
  define n where "n = unat (rq_bodylen (binary_header c))"
  have "n \<le> MAX_BODY" using n(1) by (simp add: n_def)
  then have "as_int (int n) = int n" by (intro as_int_id) (simp_all add: MAX_BODY_def)
  moreover have "uint (rq_bodylen (binary_header c)) = int n" by (simp add: n_def)
  moreover have "conn_ok s pad (c\<lparr>rlbytes := int n\<rparr>)" using ok by (simp add: conn_ok_def out_room_def padding_def)
  from grow_rbuf_total [OF sock this, of n w] n
  obtain c' w' where "grow_rbuf ops (c\<lparr>rlbytes := int n\<rparr>) w = Some (Inr c', w')" "rsize c \<le> rsize c'" by (auto simp: n_def)
  ultimately show ?thesis by (simp add: bin_read_key_def)
qed

lemma parse_cmd_total:
  assumes sock: "sock_ok ops s recvd sent" "mem_avail ops" and ok: "conn_ok s pad c" "room_ok c" and st: "state c = conn_parse_cmd"
    and sizes: "sizes_ok (unparsed c)"
  shows "\<exists>c' w'. step_parse_cmd ops c nreqs w = Some (c', nreqs, False, w') \<and> room_ok c' \<and> state c' \<in> {conn_waiting, conn_nread, conn_closing}"
proof (cases "rbytes c < sizeof_header")
  case True
  then show ?thesis using ok(2) st by (simp add: step_parse_cmd_def try_read_command_def room_ok_def)
next
  case False
  define h where "h = take sizeof_header (unparsed c)"
  have h: "mem_slice (rbuf c) (rcurr c) sizeof_header = Some h" "length h = sizeof_header" "unparsed c = h @ drop sizeof_header (unparsed c)"
    using ok False length_unparsed [OF ok(1)] append_take_drop_id [of sizeof_header "unparsed c"]
    by (auto simp: h_def mem_slice_def unparsed_def conn_ok_def)
  then obtain q where q: "read_header h = Some q" using read_header_total by metis
  show ?thesis
  proof (cases "rq_magic q = REQ")
    case bad: False
    then show ?thesis
      using ok(2) st False h(1) q by (simp add: step_parse_cmd_def try_read_command_def room_ok_def)
  next
    case magic: True
    have "read_header (unparsed c) = Some q" using h(2,3) q read_header_append by (metis order_refl)
    then have n_max: "unat (rq_bodylen q) \<le> MAX_BODY" using magic sizes by (subst (asm) sizes_ok.simps) simp
    let ?m = "\<lparr>msg_iov = 0, msg_iovlen = 0, msg_namelen = request_addr_size c\<rparr>"
    let ?c0 = "c\<lparr>binary_header := q\<rparr>"
    let ?c1 = "?c0\<lparr>msgcurr := 0, iovused := 0, msgbytes := 0, msgused := 1, msglist := (msglist c)[0 := Some ?m], cmd := uint (rq_opcode q)\<rparr>"
    have room: "out_room ?c0" using ok by (simp add: conn_ok_def out_room_def)
    have "conn_ok s pad ?c1" using ok(1) by (simp add: conn_ok_def out_room_def padding_def)
    from bin_read_key_total [OF sock this, of w] n_max False
    obtain c2 w2 where "bin_read_key ops ?c1 w = Some (c2, w2)" "rsize c \<le> rsize c2" "state c2 = conn_nread" by auto
    then show ?thesis
      using False h(1) q magic ok(2) st add_msghdr_fresh [OF room, of ops w]
      by (simp add: step_parse_cmd_def try_read_command_def dispatch_bin_command_def room_ok_def)
  qed
qed

section \<open>Waiting and new commands\<close>

lemma event_or_close_rsize: "event_or_close ops c f w = (b, c', w') \<Longrightarrow> rsize c' = rsize c"
  by (auto simp: event_or_close_def update_event_def split: prod.splits if_splits)

lemma waiting_total:
  assumes "room_ok c" "state c = conn_waiting"
  shows "\<exists>c' stop w'. step_waiting ops c nreqs w = Some (c', nreqs, stop, w') \<and> room_ok c' \<and> (\<not> stop \<longrightarrow> state c' = conn_closing)"
proof -
  obtain b c1 w1 where e: "event_or_close ops c EV_READ_PERSIST w = (b, c1, w1)" by (metis prod_cases3)
  show ?thesis
    using assms e event_or_close_waiting [OF e] event_or_close_rsize [OF e] by (cases b) (auto simp: step_waiting_def room_ok_def)
qed

lemma shrink_total:
  assumes sock: "sock_ok ops s recvd sent" "mem_avail ops" and ok: "conn_ok s pad c" "int sizeof_header \<le> rsize c"
  shows "\<exists>c' w'. conn_shrink ops c w = Some (c', w') \<and> rbytes c' = rbytes c \<and> int sizeof_header \<le> rsize c' \<and>
    (rbytes c < sizeof_header \<longrightarrow> rsize c' \<le> int READ_BUFFER_HIGHWAT)"
proof -
  have const: "sizeof_header \<le> DATA_BUFFER_SIZE" "DATA_BUFFER_SIZE \<le> READ_BUFFER_HIGHWAT"
    by (simp_all add: srv_consts sizeof_header_def DATA_BUFFER_SIZE_def READ_BUFFER_HIGHWAT_def)
  have "\<exists>c1 w1. shrink_rbuf ops c w = Some (c1, w1) \<and> rbytes c1 = rbytes c \<and> int sizeof_header \<le> rsize c1 \<and>
    (rbytes c < sizeof_header \<longrightarrow> rsize c1 \<le> int READ_BUFFER_HIGHWAT)"
  proof (cases "int READ_BUFFER_HIGHWAT < rsize c \<and> rbytes c < DATA_BUFFER_SIZE")
    case True
    obtain buf where buf: "(if rcurr c \<noteq> 0 then do {
                  data \<leftarrow> mem_slice (rbuf c) (rcurr c) (rbytes c);
                  mem_put (rbuf c) 0 data }
                else Some (rbuf c)) = Some buf"
    proof (cases "rcurr c = 0")
      case False
      then show ?thesis
        using that mem_slice_unparsed [OF ok(1)] length_unparsed [OF ok(1)] ok(1) mem_put_ok [of 0 "unparsed c" "rbuf c"]
        by (simp add: conn_ok_def)
    qed (use that in simp)
    obtain m w1 where "sys_malloc ops DATA_BUFFER_SIZE w = (Some m, w1)" using mem_availE [OF sock(2)] .
    then obtain new where "realloc_bytes ops buf DATA_BUFFER_SIZE w = (Some new, w1)" by (auto simp: realloc_bytes_def)
    then show ?thesis using True const unfolding shrink_rbuf_def buf by simp
  next
    case False
    then show ?thesis using ok(2) const by (auto simp: shrink_rbuf_def)
  qed
  then show ?thesis
    by (auto simp: conn_shrink_def shrink_msglist_def shrink_iov_def split: prod.splits option.splits)
qed

lemma new_cmd_total:
  assumes sock: "sock_ok ops s recvd sent" "mem_avail ops" and ok: "conn_ok s pad c" "room_ok c" and st: "state c = conn_new_cmd"
  shows "\<exists>c' stop w'. step_new_cmd ops c nreqs w = Some (c', nreqs - 1, stop, w') \<and> room_ok c' \<and> (\<not> stop \<longrightarrow> 0 < nreqs)"
proof (cases "0 < nreqs")
  case True
  have "conn_ok s pad (c\<lparr>cmd := - 1\<rparr>)" "int sizeof_header \<le> rsize (c\<lparr>cmd := - 1\<rparr>)"
    using ok by (simp_all add: conn_ok_def out_room_def padding_def room_ok_def)
  from shrink_total [OF sock this, of w] True show ?thesis
    by (auto simp: step_new_cmd_def reset_cmd_handler_def room_ok_def sizeof_header_def)
next
  case False
  obtain b c1 w1 where e: "event_or_close ops c EV_WRITE_PERSIST w = (b, c1, w1)" by (metis prod_cases3)
  show ?thesis
    using False ok(2) st e event_or_close_waiting [OF e] event_or_close_rsize [OF e]
    by (cases b) (auto simp: step_new_cmd_def Let_def room_ok_def)
qed

section \<open>A body and its answer\<close>

lemma take_leftovers_total:
  assumes "conn_ok s pad c" "reading_body c h got"
  shows "\<exists>c'. take_leftovers c = Some c' \<and> rsize c' = rsize c"
proof -
  define k where "k = nat (min (rlbytes c) (int (rbytes c)))"
  have "ritem c = Some (rcurr c)" "(if rlbytes c < int (rbytes c) then rlbytes c else int (rbytes c)) = int k"
    using assms(2) by (auto simp: reading_body_def k_def)
  then show ?thesis by (simp add: take_leftovers_def Let_def)
qed

text \<open>A read of the body ends the event, closes the connection or brings the body nearer to its end.\<close>

lemma read_body_total:
  assumes sock: "sock_ok ops s recvd sent" and ok: "conn_ok s pad c" and rb: "reading_body c h got" "0 < rlbytes c"
  shows "\<exists>c' stop w'. read_body ops c nreqs w = Some (c', nreqs, stop, w') \<and> rsize c' = rsize c \<and>
    (\<not> stop \<longrightarrow> state c' = conn_closing \<or> rlbytes c' < rlbytes c)"
proof -
  have item: "ritem c = Some (rcurr c)" and room: "int (rcurr c) + rlbytes c \<le> int (length (rbuf c))" using rb(1) by (auto simp: reading_body_def)
  have "rlbytes c \<le> INT_MAX" using room ok by (simp add: conn_ok_def)
  then have n: "nat (rlbytes c mod 2 ^ 64) = nat (rlbytes c)" using rb(2) by (simp add: INT_MAX_def)
  obtain q w1 where q: "sys_read ops s (nat (rlbytes c)) w = (q, w1)" by (metis prod.exhaust)
  note q_ok = sock_okD(1) [OF sock q]
  have sfd: "sfd c = s" using ok by (simp add: conn_ok_def)
  show ?thesis
  proof (cases "\<exists>bs. q = Read_bytes bs")
    case True
    then obtain bs where bs: "q = Read_bytes bs" "bs \<noteq> []" "length bs \<le> nat (rlbytes c)" using q_ok by auto
    then have "rcurr c + length bs \<le> length (rbuf c)" using room rb(2) by linarith
    then show ?thesis using item n q sfd bs by (auto simp: read_body_def mem_put_ok)
  next
    case False
    obtain c2 nreqs2 stop w2 where nd: "no_data ops q c nreqs w1 = (c2, nreqs2, stop, w2)" by (metis prod_cases4)
    obtain b c1 w3 where e: "event_or_close ops c EV_READ_PERSIST w1 = (b, c1, w3)" by (metis prod_cases3)
    have "nreqs2 = nreqs \<and> rsize c2 = rsize c \<and> (\<not> stop \<longrightarrow> state c2 = conn_closing)"
      using nd e event_or_close_waiting(2) [OF e] event_or_close_rsize [OF e] by (cases b) (auto simp: no_data_def split: if_splits)
    then show ?thesis using item n q sfd False nd by (cases q) (auto simp: read_body_def)
  qed
qed

lemma body_total:
  assumes sock: "sock_ok ops s recvd sent" and ok: "conn_ok s pad c" and rb: "reading_body c h got" "rlbytes c \<noteq> 0" and st: "state c = conn_nread"
  shows "\<exists>c' stop w'. step_nread ops answer c nreqs w = Some (c', nreqs, stop, w') \<and> rsize c' = rsize c \<and>
    (\<not> stop \<longrightarrow> state c' = conn_closing \<or> rlbytes c' < rlbytes c)"
proof (cases "0 < rbytes c")
  case True
  obtain c1 where c1: "take_leftovers c = Some c1" "rsize c1 = rsize c" using take_leftovers_total [OF ok rb(1)] by blast
  define k where "k = nat (min (rlbytes c) (int (rbytes c)))"
  note lo = leftovers_ok [OF ok rb(1) c1(1), folded k_def]
  have "0 \<le> rlbytes c" using rb(1) by (simp add: reading_body_def)
  then have less: "rlbytes c1 < rlbytes c" using lo(6) True rb(2) by (simp add: k_def)
  show ?thesis
  proof (cases "rlbytes c1 = 0")
    case False
    then have "0 < rlbytes c1" using lo(1) by (simp add: reading_body_def)
    from read_body_total [OF sock lo(3,1) this, of nreqs w] obtain c' stop w' where
      "read_body ops c1 nreqs w = Some (c', nreqs, stop, w')" "rsize c' = rsize c1" "\<not> stop \<longrightarrow> state c' = conn_closing \<or> rlbytes c' < rlbytes c1"
      by blast
    then show ?thesis using True rb(2) c1 less False by (auto simp: step_nread_def)
  qed (use True rb(2) c1 less in \<open>auto simp: step_nread_def\<close>)
next
  case False
  have "0 < rlbytes c" using rb by (simp add: reading_body_def)
  then show ?thesis using read_body_total [OF sock ok rb(1)] False rb(2) by (simp add: step_nread_def)
qed

lemma length_reply_number: "length (reply_body number vRes) = length (reply_body 0 vRes)"
  by (simp add: reply_body_def)

lemma read_le32_total: "length b = 4 \<Longrightarrow> \<exists>n. read_le32 b = Some n"
  by (cases b rule: read_le32.cases) auto

lemma strlen_total:
  assumes "0 \<in> set (drop d buf)"
  shows "\<exists>n. strlen_at buf d = Some n"
proof -
  let ?P = "\<lambda>b :: byte. b \<noteq> 0" and ?s = "drop d buf"
  have "dropWhile ?P ?s \<noteq> []" using assms by (simp add: dropWhile_eq_Nil_conv)
  moreover have "length (takeWhile ?P ?s) + length (dropWhile ?P ?s) = length ?s"
    by (subst length_append [symmetric], subst takeWhile_dropWhile_id) (rule refl)
  ultimately have "length (takeWhile ?P ?s) < length ?s" by (simp only: length_greater_0_conv [symmetric])
  then show ?thesis by (simp add: strlen_at_def Let_def)
qed

text \<open>A reply whose length is an \<^verbatim>\<open>int\<close>; the number in it does not change the length.\<close>

definition reply_fits :: "(bytes \<Rightarrow> (int \<times> bytes list) option) \<Rightarrow> bytes \<Rightarrow> bool" where
  "reply_fits answer key =
     (case answer key of None \<Rightarrow> False
      | Some (ret, vRes) \<Rightarrow> ret \<noteq> 0 \<or> int (length (reply_body 0 vRes)) \<le> INT_MAX)"

text \<open>The key of a complete body ends somewhere in the buffer, and \<open>answer\<close> has a reply for it.\<close>

definition key_answered :: "(bytes \<Rightarrow> (int \<times> bytes list) option) \<Rightarrow> conn \<Rightarrow> bool" where
  "key_answered answer c =
     (let n = unat (rq_bodylen (binary_header c))
      in case request_key (rbuf c) (rcurr c - n + 4) n of None \<Rightarrow> False | Some key \<Rightarrow> reply_fits answer key)"

lemma complete_nread_iff:
  assumes sock: "sock_ok ops s recvd sent" "mem_avail ops" and ok: "conn_ok s pad c"
    and rb: "reading_body c h body" "rlbytes c = 0" and size: "4 \<le> length body"
  shows "complete_nread ops answer c w \<noteq> None \<longleftrightarrow> key_answered answer c"
proof -
  define n where "n = unat (rq_bodylen (binary_header c))"
  have b: "length body = n" "ritem c = Some (rcurr c)" "n \<le> rcurr c"
    using rb(1) reading_body_length [OF rb] by (auto simp: reading_body_def n_def [symmetric])
  have room: "out_room c" "rcurr c \<le> length (rbuf c)" using ok by (auto simp: conn_ok_def)
  let ?d = "rcurr c - n"
  have d: "ptr_add (rcurr c) (- int n) = Some ?d" using b(3) by (auto simp: ptr_add_def nat_diff_distrib)
  obtain nb where nb: "mem_slice (rbuf c) ?d 4 = Some nb" "length nb = 4"
  proof -
    have "?d + 4 \<le> length (rbuf c)" using b(1,3) size room(2) by linarith
    then show ?thesis using that [of "take 4 (drop ?d (rbuf c))"] by (simp add: mem_slice_def)
  qed
  obtain number where num: "read_le32 nb = Some number" using read_le32_total [OF nb(2)] by blast
  let ?answer = "\<lambda>ret vRes. if ret \<noteq> 0 then write_bin_error ops c RESPONSE_ENOMEM 0 w
         else
           let resp = reply_body (reply_number number vRes) vRes
           in if INT_MAX < int (length resp) then None
              else case sys_malloc ops (length resp + 1) w of
                (None, w') \<Rightarrow> write_bin_error ops c RESPONSE_ENOMEM 0 w'
              | (Some _, w') \<Rightarrow>
                  write_bin_response ops (c\<lparr>write_and_free := Some (resp @ [0])\<rparr>) (length resp) w'"
  have start: "complete_nread ops answer c w = do {
      key \<leftarrow> request_key (rbuf c) (?d + 4) n;
      (ret, vRes) \<leftarrow> answer key;
      ?answer ret vRes }"
    unfolding complete_nread_def Let_def n_def [symmetric] using b(2) d nb(1) num by simp
  have error: "?answer ret vRes \<noteq> None" if "ret \<noteq> 0" for ret vRes
    using write_bin_error_ok [OF room(1), of ops w] that by (metis option.distinct(1))
  have fine: "?answer 0 vRes \<noteq> None \<longleftrightarrow> int (length (reply_body 0 vRes)) \<le> INT_MAX" for vRes
  proof -
    define resp where "resp = reply_body (reply_number number vRes) vRes"
    have len: "length resp = length (reply_body 0 vRes)" using length_reply_number [of "reply_number number vRes" vRes] by (simp add: resp_def)
    obtain m w1 where m: "sys_malloc ops (length resp + 1) w = (Some m, w1)" using mem_availE [OF sock(2)] .
    have "out_room (c\<lparr>write_and_free := Some (resp @ [0])\<rparr>)" using room by (simp add: out_room_def)
    then obtain c2 where "write_bin_response ops (c\<lparr>write_and_free := Some (resp @ [0])\<rparr>) (length resp) w1 = Some (c2, w1)"
      using write_bin_response_ok [of "c\<lparr>write_and_free := Some (resp @ [0])\<rparr>" "resp @ [0]" "length resp" ops w1] by auto
    then show ?thesis using m len by (simp add: Let_def resp_def [symmetric])
  qed
  show ?thesis
  proof (cases "request_key (rbuf c) (?d + 4) n")
    case None
    then show ?thesis unfolding start key_answered_def Let_def n_def [symmetric] by simp
  next
    case key: (Some key)
    show ?thesis
    proof (cases "answer key")
      case None
      then show ?thesis using key unfolding start key_answered_def Let_def n_def [symmetric] by (simp add: reply_fits_def)
    next
      case (Some a)
      obtain ret vRes where a: "a = (ret, vRes)" by (cases a)
      have "complete_nread ops answer c w = ?answer ret vRes" unfolding start using key Some a by simp
      moreover have "key_answered answer c \<longleftrightarrow> ret \<noteq> 0 \<or> int (length (reply_body 0 vRes)) \<le> INT_MAX"
        using key Some a unfolding key_answered_def Let_def n_def [symmetric] by (simp add: reply_fits_def)
      ultimately show ?thesis using error [of ret vRes] fine [of vRes] by (cases "ret = 0") simp_all
    qed
  qed
qed

text \<open>A key that ends in the body ends in the buffer.\<close>

lemma body_key_answered:
  assumes ok: "conn_ok s pad c" and rb: "reading_body c h body" "rlbytes c = 0"
    and key: "0 \<in> set (drop 4 body)" "reply_fits answer (body_key body)"
  shows "key_answered answer c"
proof -
  define n where "n = unat (rq_bodylen (binary_header c))"
  have b: "length body = n" "n \<le> rcurr c" "take n (drop (rcurr c - n) (rbuf c)) = body"
    using rb(1) reading_body_length [OF rb] by (auto simp: reading_body_def n_def [symmetric])
  have "drop 4 body \<noteq> []" using key(1) by auto
  then have size: "4 \<le> length body" by simp
  have n64: "n < 2 ^ 64" using unsigned_less [of "rq_bodylen (binary_header c)", where 'a = nat] by (simp add: n_def)
  let ?d = "rcurr c - n"
  have "drop 4 body = take (n - 4) (drop (?d + 4) (rbuf c))" using b(3) by (metis drop_drop drop_take add.commute)
  then have "0 \<in> set (drop (?d + 4) (rbuf c))" using key(1) set_take_subset by fastforce
  then obtain key where k: "request_key (rbuf c) (?d + 4) n = Some key"
    using strlen_total [of "?d + 4" "rbuf c"] by (auto simp: request_key_def)
  have "key = body_key body" using request_key_ok [OF k b(3) b(1)] size b(1) n64 by simp
  then show ?thesis using k key(2) unfolding key_answered_def Let_def n_def [symmetric] by simp
qed

lemma complete_nread_rsize:
  assumes "out_room c" "complete_nread ops answer c w = Some (c', w')"
  shows "rsize c' = rsize c"
proof -
  have err: "rsize c' = rsize c" if "write_bin_error ops c RESPONSE_ENOMEM 0 w1 = Some (c', w')" for w1
    using write_bin_error_ok [OF assms(1), of ops w1] that responded_frame(2) by (metis option.inject prod.inject)
  have resp: "rsize c' = rsize c" if "write_bin_response ops (c\<lparr>write_and_free := Some (resp @ [0])\<rparr>) (length resp) w1 = Some (c', w')" for resp w1
  proof -
    let ?c = "c\<lparr>write_and_free := Some (resp @ [0])\<rparr>"
    have "out_room ?c" using assms(1) by (simp add: out_room_def)
    then obtain c2 where "write_bin_response ops ?c (length resp) w1 = Some (c2, w1)" "responded ?c c2"
      using write_bin_response_ok [of ?c "resp @ [0]" "length resp" ops w1] by auto
    then show ?thesis using that responded_frame(2) by fastforce
  qed
  show ?thesis
    using assms(2) by (auto simp: complete_nread_def Let_def Option.bind_eq_Some_conv split: if_splits prod.splits option.splits
        intro: err resp)
qed

section \<open>Sending\<close>

lemma transmit_incomplete:
  assumes sock: "sock_ok ops (sfd c) recvd sent" and t: "transmit ops c w = Some (TRANSMIT_INCOMPLETE, c', w')"
  shows "length (sent w) < length (sent w')"
proof -
  obtain c1 where c1: "skip_msg c = Some c1" using t by (auto simp: transmit_def Option.bind_eq_Some_conv)
  then have s: "sfd c1 = sfd c" by (cases "msg_at c (msgcurr c)") (auto simp: skip_msg_def split: if_splits)
  obtain m bs where m: "msgcurr c1 < msgused c1" "msg_at c1 (msgcurr c1) = Some m" "gather c1 (msg_iov m) (msg_iovlen m) = Some bs"
    using t c1 by (auto simp: transmit_def Option.bind_eq_Some_conv split: if_splits)
  obtain q w1 where q: "sys_sendmsg ops (sfd c) bs w = (q, w1)" by fastforce
  have "\<exists>res. q = Sent res \<and> 0 < res \<and> w' = w1"
  proof (cases q)
    case (Sent res)
    then show ?thesis using t c1 m q s by (auto simp: transmit_def Option.bind_eq_Some_conv split: if_splits)
  next
    case Send_again
    obtain b c2 w2 where "update_event ops c1 EV_WRITE_PERSIST w1 = (b, c2, w2)" by (metis prod_cases3)
    then show ?thesis using t c1 m q s Send_again by (simp add: transmit_def split: if_splits)
  next
    case Send_error
    then show ?thesis using t c1 m q s by (simp add: transmit_def)
  qed
  then show ?thesis using sock_okD(2) [OF sock q] by auto
qed

text \<open>What is left to send; the release of the response takes a round of its own.\<close>

definition unsent :: "conn \<Rightarrow> nat" where
  "unsent c = length (the (pending c)) + (if write_and_free c = None then 0 else 1)"

lemma mwrite_total:
  assumes sock: "sock_ok ops s recvd sent" and inv: "serving s answer pad reqs c (recvd w) (sent w)" and st: "state c = conn_mwrite"
  shows "\<exists>c' stop w'. step_mwrite ops c nreqs w = Some (c', nreqs, stop, w') \<and> rsize c' = rsize c \<and>
    state c' \<in> {conn_closing, conn_new_cmd, conn_mwrite} \<and> (\<not> stop \<longrightarrow> state c' = conn_mwrite \<longrightarrow> unsent c' < unsent c)"
proof -
  obtain p where base: "conn_ok s pad c" "out_ok c" "pending c = Some p" using inv st by (auto simp: serving_def)
  have sfd: "sfd c = s" using base(1) by (simp add: conn_ok_def)
  then obtain r c1 w1 n where t: "transmit ops c w = Some (r, c1, w1)" "transmitted c c1" "out_ok c1"
    "n \<le> length p" "sent w1 = sent w @ take n p" "pending c1 = Some (drop n p)"
    "r = TRANSMIT_COMPLETE \<Longrightarrow> p = [] \<and> msgcurr c1 = msgused c" "state c1 = (if r = TRANSMIT_HARD_ERROR then conn_closing else state c)"
    using transmit_ok [of ops c recvd sent p w] sock base(2,3) by metis
  note fr = transmitted_frame [OF t(2)]
  have out: "unsent c1 = length p - n + (if write_and_free c = None then 0 else 1)" using t(6) fr(8) by (simp add: unsent_def)
  show ?thesis
  proof (cases r)
    case TRANSMIT_COMPLETE
    show ?thesis
    proof (cases "write_and_free c")
      case None
      then have "transmit_complete c1 = c1\<lparr>state := conn_new_cmd\<rparr>" using t(8) st TRANSMIT_COMPLETE fr(8) by (simp add: transmit_complete_def)
      then show ?thesis using t(1) TRANSMIT_COMPLETE fr(2) by (auto simp: step_mwrite_def)
    next
      case (Some m)
      let ?c = "c1\<lparr>write_and_free := None\<rparr>"
      have "transmit_complete c1 = ?c" "state ?c = conn_mwrite" using Some t(8) st TRANSMIT_COMPLETE fr(8) by (simp_all add: transmit_complete_def)
      moreover have "pending ?c = Some []" using t(7) TRANSMIT_COMPLETE fr(6) by (simp add: pending_def)
      then have "unsent ?c < unsent c" using Some by (simp add: unsent_def)
      ultimately show ?thesis using t(1) TRANSMIT_COMPLETE fr(2) by (auto simp: step_mwrite_def)
    qed
  next
    case TRANSMIT_INCOMPLETE
    then have "length (sent w) < length (sent w1)" using transmit_incomplete [of ops c recvd sent w c1 w1] sock sfd t(1) by simp
    then have "unsent c1 < unsent c" using out t(4,5) base(3) by (simp add: unsent_def)
    then show ?thesis using t(1,8) TRANSMIT_INCOMPLETE st fr(2) by (auto simp: step_mwrite_def)
  next
    case TRANSMIT_SOFT_ERROR
    then show ?thesis using t(1,8) st fr(2) by (auto simp: step_mwrite_def)
  next
    case TRANSMIT_HARD_ERROR
    then show ?thesis using t(1,8) st fr(2) by (auto simp: step_mwrite_def)
  qed
qed

end
