(* ===== verification/Srv_Progress.thy ===== *)
theory Srv_Progress
  imports Srv_Total
begin

text \<open>
  The state machine of a connection does not get stuck: in every reachable connection the next
  round is defined, up to one exception that is stated exactly, and the rounds of an event on
  the connection of a client that keeps to the protocol come to an end.
\<close>

section \<open>A client that keeps to the protocol\<close>

text \<open>
  Every body that is announced holds the number and fits a buffer; a whole body ends its key
  with a zero, and \<open>answer\<close> answers that key.
\<close>

function polite :: "(bytes \<Rightarrow> (int \<times> bytes list) option) \<Rightarrow> bytes \<Rightarrow> bool" where
  "polite answer s =
     (case read_header s of None \<Rightarrow> True
      | Some q \<Rightarrow>
          rq_magic q = REQ \<longrightarrow>
          (let n = unat (rq_bodylen q); body = take n (drop sizeof_header s)
           in 4 \<le> n \<and> n \<le> MAX_BODY \<and>
              (length body = n \<longrightarrow> 0 \<in> set (drop 4 body) \<and> reply_fits answer (body_key body)) \<and>
              polite answer (drop (sizeof_header + n) s)))"
  by pat_completeness auto
termination
  by (relation "measure (\<lambda>(a, s). length s)") (auto simp: read_header_def sizeof_header_def split: if_splits)

declare polite.simps [simp del]

lemma polite_sizes: "polite answer s \<Longrightarrow> sizes_ok s"
proof (induction answer s rule: polite.induct)
  case (1 answer s)
  show ?case
  proof (cases "read_header s")
    case (Some q)
    then show ?thesis using 1(1) [OF Some _ refl refl] 1(2)
      by (subst (asm) polite.simps, subst sizes_ok.simps) (simp add: Let_def)
  qed (subst sizes_ok.simps, simp)
qed

lemma polite_req:
  assumes "good_req (h, b)" "polite answer (h @ b @ t)"
  shows "0 \<in> set (drop 4 b)" "reply_fits answer (body_key b)" "polite answer t"
proof -
  obtain q where q: "read_header h = Some q" "rq_magic q = REQ" "unat (rq_bodylen q) = length b" "length h = sizeof_header"
    using assms(1) by (auto simp: good_req_def)
  then have "read_header (h @ b @ t) = Some q" by (simp add: read_header_append)
  with assms(2) q show "0 \<in> set (drop 4 b)" "reply_fits answer (body_key b)" "polite answer t"
    by (subst (asm) polite.simps, simp add: Let_def)+
qed

lemma polite_stream: "\<forall>r\<in>set rs. good_req r \<Longrightarrow> polite answer (stream rs @ t) \<Longrightarrow> polite answer t"
proof (induction rs)
  case (Cons r rs)
  obtain h b where r: "r = (h, b)" by (cases r)
  have "polite answer (stream rs @ t)"
    using polite_req(3) [of h b answer "stream rs @ t"] Cons.prems r by (simp add: stream_def)
  with Cons show ?case by simp
qed (simp add: stream_def)

lemma polite_prefix: "polite answer (s @ t) \<Longrightarrow> polite answer s"
proof (induction answer s rule: polite.induct)
  case (1 answer s)
  show ?case
  proof (cases "read_header s")
    case (Some q)
    then have len: "sizeof_header \<le> length s" by (auto simp: read_header_def split: if_splits)
    then have h: "read_header (s @ t) = Some q" using Some by (simp add: read_header_append)
    define n where "n = unat (rq_bodylen q)"
    show ?thesis
    proof (cases "rq_magic q = REQ")
      case magic: True
      note st = 1(2) [unfolded polite.simps [of answer "s @ t"] h, simplified, simplified magic n_def [symmetric] Let_def, simplified]
      show ?thesis
      proof (cases "sizeof_header + n \<le> length s")
        case True
        then have "take n (drop sizeof_header (s @ t)) = take n (drop sizeof_header s)" "drop (sizeof_header + n) (s @ t) = drop (sizeof_header + n) s @ t"
          using len by simp_all
        moreover have "polite answer (drop (sizeof_header + n) s)"
          using 1(1) [OF Some magic refl refl, folded n_def] st calculation(2) by simp
        ultimately show ?thesis using st Some True by (subst polite.simps) (simp add: Let_def n_def [symmetric])
      next
        case False
        then have "polite answer (drop (sizeof_header + n) s)"
          by (subst polite.simps) (simp add: read_header_def sizeof_header_def)
        moreover have "min (length s - sizeof_header) n \<noteq> n" "length s - sizeof_header \<noteq> n" using False len by linarith+
        ultimately show ?thesis using st Some len by (subst polite.simps) (simp add: Let_def n_def [symmetric])
      qed
    qed (subst polite.simps, simp add: Some)
  qed (subst polite.simps, simp)
qed

section \<open>Progress\<close>

text \<open>
  What a round that does not end the event uses up: the requests left to the event, then the state,
  then the rest of the body or of the reply.
\<close>

fun stage :: "conn_states \<Rightarrow> nat" where
  "stage conn_read = 5"
| "stage conn_parse_cmd = 4"
| "stage conn_nread = 3"
| "stage conn_mwrite = 2"
| "stage conn_closing = 0"
| "stage _ = 1"

definition residue :: "conn \<Rightarrow> nat" where
  "residue c = (if state c = conn_nread then nat (rlbytes c) else if state c = conn_mwrite then unsent c else 0)"

definition budget :: "((int \<times> conn) \<times> (int \<times> conn)) set" where
  "budget = measures [\<lambda>(nreqs, c). nat nreqs, \<lambda>(nreqs, c). stage (state c), \<lambda>(nreqs, c). residue c]"

lemma wf_budget: "wf budget"
  by (simp add: budget_def)

lemma drive_step_total:
  assumes sock: "sock_ok ops s recvd sent" "mem_avail ops" and inv: "serving s answer pad reqs c (recvd w) (sent w)"
    and room: "room_ok c" and sizes: "sizes_ok (recvd w)" and st: "state c \<noteq> conn_closing"
    and ans: "state c = conn_nread \<Longrightarrow> rlbytes c = 0 \<Longrightarrow> complete_nread ops answer c w \<noteq> None"
  shows "\<exists>c' nreqs' stop w'. drive_step ops answer c nreqs w = Some (c', nreqs', stop, w') \<and> room_ok c' \<and>
    (\<not> stop \<longrightarrow> ((nreqs', c'), (nreqs, c)) \<in> budget)"
proof -
  have ok: "conn_ok s pad c" and good: "\<forall>r\<in>set reqs. good_req r" using inv by (simp_all add: serving_def)
  have small: "room_ok c'" if "rsize c' = rsize c" "state c' \<in> {conn_nread, conn_mwrite, conn_new_cmd, conn_closing}" for c'
    using room that by (auto simp: room_ok_def)
  consider (a) "state c = conn_waiting" | (b) "state c = conn_read" | (c) "state c = conn_parse_cmd" | (d) "state c = conn_new_cmd"
    | (e) "state c = conn_nread" | (f) "state c = conn_mwrite"
    using inv st by (auto simp: serving_def split: if_splits)
  then show ?thesis
  proof cases
    case a
    from waiting_total [OF room a, of ops nreqs w] show ?thesis using a by (auto simp: drive_step_def budget_def)
  next
    case b
    from read_total [OF sock ok room b, of nreqs w] show ?thesis using b by (auto simp: drive_step_def budget_def)
  next
    case c
    have "recvd w = stream reqs @ unparsed c" using inv c by (simp add: serving_def)
    then have "sizes_ok (unparsed c)" using sizes sizes_ok_stream [OF good] by simp
    from parse_cmd_total [OF sock ok room c this, of nreqs w] show ?thesis using c by (auto simp: drive_step_def budget_def)
  next
    case d
    from new_cmd_total [OF sock ok room d, of nreqs w] show ?thesis using d by (auto simp: drive_step_def budget_def)
  next
    case e
    obtain h got where rb: "reading_body c h got" and rcv: "recvd w = stream reqs @ h @ got @ unparsed c" using inv e by (auto simp: serving_def)
    show ?thesis
    proof (cases "rlbytes c = 0")
      case True
      then obtain c' w' where c': "complete_nread ops answer c w = Some (c', w')" using ans [OF e] by (metis not_Some_eq surj_pair)
      have "out_room c" using ok by (simp add: conn_ok_def)
      note this complete_nread_rsize [OF this c']
      then show ?thesis using e True c' complete_nread_state [OF c'] small [of c']
        by (auto simp: drive_step_def step_nread_def budget_def)
    next
      case False
      obtain c' stop w' where c': "step_nread ops answer c nreqs w = Some (c', nreqs, stop, w')" "rsize c' = rsize c"
        "\<not> stop \<longrightarrow> state c' = conn_closing \<or> rlbytes c' < rlbytes c" using body_total [OF sock(1) ok rb False e] by blast
      have "state c' \<in> {conn_nread, conn_closing}"
        using c'(1) e False take_leftovers_state read_body_state by (fastforce simp: step_nread_def Option.bind_eq_Some_conv split: if_splits)
      moreover have "0 \<le> rlbytes c" using rb by (simp add: reading_body_def)
      ultimately show ?thesis using c' e small [of c'] False by (auto simp: drive_step_def budget_def residue_def)
    qed
  next
    case f
    from mwrite_total [OF sock(1) inv f, of nreqs] small show ?thesis using f by (fastforce simp: drive_step_def budget_def residue_def)
  qed
qed

text \<open>The answer to a whole body is defined when its key is answered, as that of a polite client is.\<close>

lemma complete_nread_serving:
  assumes sock: "sock_ok ops s recvd sent" "mem_avail ops" and inv: "serving s answer pad reqs c (recvd w) (sent w)"
    and sizes: "sizes_ok (recvd w)" and st: "state c = conn_nread" "rlbytes c = 0"
  shows "complete_nread ops answer c w \<noteq> None \<longleftrightarrow> key_answered answer c" "polite answer (recvd w) \<Longrightarrow> key_answered answer c"
proof -
  obtain h got where ok: "conn_ok s pad c" and good: "\<forall>r\<in>set reqs. good_req r"
    and rb: "reading_body c h got" and rcv: "recvd w = stream reqs @ h @ got @ unparsed c" using inv st(1) by (auto simp: serving_def)
  have req: "good_req (h, got)" using rb reading_body_length [OF rb st(2)] by (auto simp: good_req_def reading_body_def)
  have "sizes_ok (h @ got @ unparsed c)" using sizes_ok_stream [OF good] sizes rcv by simp
  then show "complete_nread ops answer c w \<noteq> None \<longleftrightarrow> key_answered answer c"
    using complete_nread_iff [OF sock ok rb st(2)] sizes_ok_req(1) [OF req] by blast
  assume "polite answer (recvd w)"
  then have "polite answer (h @ got @ unparsed c)" using polite_stream [OF good] rcv by simp
  then show "key_answered answer c" using body_key_answered [OF ok rb st(2)] polite_req(1,2) [OF req] by blast
qed

lemma conn_run_room:
  assumes run: "conn_run ops answer env recvd c0 w0 c w"
    and sock: "sock_ok ops s recvd sent" "mem_avail ops" "env_ok env recvd sent"
    and init: "conn_fresh s c0" "recvd w0 = []" "sent w0 = []" and header: "int sizeof_header \<le> rsize c0"
  shows "room_ok c"
  using run
proof (induction rule: conn_run.induct)
  case start
  then show ?case using init(1) header by (simp add: conn_fresh_def room_ok_def)
next
  case (round c w nreqs c' nreqs' stop w')
  then obtain reqs where inv: "serving s answer (padding c0) reqs c (recvd w) (sent w)"
    using conn_run_serving [OF _ sock init] by blast
  have "state c \<noteq> conn_closing" using round.hyps(3) by (auto simp: drive_step_def)
  moreover have "complete_nread ops answer c w \<noteq> None" if "state c = conn_nread" "rlbytes c = 0"
    using round.hyps(3) that by (auto simp: drive_step_def step_nread_def Option.bind_eq_Some_conv)
  ultimately show ?case
    using drive_step_total [OF sock(1,2) inv round.IH round.hyps(2), of nreqs] round.hyps(3) by auto
qed

text \<open>C6: the state machine of a connection does not get stuck. From a connection as it is handed out, whatever
  pieces the requests arrive in and the replies leave in, the next round is defined in every state that is reached,
  except where the answer to a complete request is not: its key does not end in the buffer, \<^verbatim>\<open>Get\<close> does not return or
  the reply is longer than an \<^verbatim>\<open>int\<close>. The unparsed bytes of the connection it leaves lie in its buffer.\<close>

theorem conn_progress:
  assumes "sock_ok ops s recvd sent" "mem_avail ops" "env_ok env recvd sent"
    and "conn_fresh s c0" "recvd w0 = []" "sent w0 = []" "int sizeof_header \<le> rsize c0"
    and "conn_run ops answer env recvd c0 w0 c w" "sizes_ok (recvd w)" "state c \<noteq> conn_closing"
  shows "(drive_step ops answer c nreqs w = None \<longleftrightarrow> state c = conn_nread \<and> rlbytes c = 0 \<and> \<not> key_answered answer c) \<and>
    (\<forall>c' nreqs' stop w'. drive_step ops answer c nreqs w = Some (c', nreqs', stop, w') \<longrightarrow>
      rsize c' = int (length (rbuf c')) \<and> rsize c' \<le> INT_MAX \<and> rcurr c' + rbytes c' \<le> length (rbuf c'))"
proof (intro conjI allI impI)
  obtain reqs where inv: "serving s answer (padding c0) reqs c (recvd w) (sent w)"
    using conn_run_serving [OF assms(8,1-6)] by blast
  note answered = complete_nread_serving(1) [OF assms(1,2) inv assms(9)]
  have "drive_step ops answer c nreqs w \<noteq> None" if "state c = conn_nread \<Longrightarrow> rlbytes c = 0 \<Longrightarrow> key_answered answer c"
    using drive_step_total [OF assms(1,2) inv conn_run_room [OF assms(8,1-7)] assms(9,10), of nreqs] that answered by blast
  moreover have "drive_step ops answer c nreqs w = None" if "state c = conn_nread" "rlbytes c = 0" "\<not> key_answered answer c"
  proof -
    have "complete_nread ops answer c w = None" using answered [OF that(1,2)] that(3) by blast
    then show ?thesis using that(1,2) by (simp add: drive_step_def step_nread_def)
  qed
  ultimately show "drive_step ops answer c nreqs w = None \<longleftrightarrow> state c = conn_nread \<and> rlbytes c = 0 \<and> \<not> key_answered answer c" by blast
  fix c' nreqs' stop w' assume step: "drive_step ops answer c nreqs w = Some (c', nreqs', stop, w')"
  obtain reqs' where "serving s answer (padding c0) reqs' c' (recvd w') (sent w')"
    using conn_run_serving [OF conn_run.round [OF assms(8,9) step] assms(1-6)] by blast
  then have "conn_ok s (padding c0) c'" by (simp add: serving_def)
  then show "rsize c' = int (length (rbuf c'))" "rsize c' \<le> INT_MAX" "rcurr c' + rbytes c' \<le> length (rbuf c')"
    by (simp_all add: conn_ok_def)
qed

text \<open>The scripted client when its first body is complete and is about to be answered.\<close>

lemma conn_progress_witness:
  "\<exists>c w. conn_run script_ops script_answer (=) scr_recvd script_conn script_world c w \<and> state c = conn_nread \<and> rlbytes c = 0 \<and>
    drive_step script_ops script_answer c 20 w \<noteq> None"
proof -
  have "map_option (\<lambda>(c, w). (state c, rlbytes c, key_answered script_answer c, sizes_ok (scr_recvd w)))
      (rounds script_ops script_answer script_good 1 script_conn1 script_world1) = Some (conn_nread, 0, True, True)" by code_simp
  then obtain c w where r: "rounds script_ops script_answer script_good 1 script_conn1 script_world1 = Some (c, w)"
    "state c = conn_nread" "rlbytes c = 0" "key_answered script_answer c" "sizes_ok (scr_recvd w)" by auto
  have "conn_run script_ops script_answer (=) scr_recvd script_conn script_world script_conn1 script_world1"
    by (rule rounds_run [OF _ script_rounds1 conn_run.start]) (rule script_good_sizes)
  then have run: "conn_run script_ops script_answer (=) scr_recvd script_conn script_world c w"
    using rounds_run [OF _ r(1)] script_good_sizes by blast
  have "int sizeof_header \<le> rsize script_conn" "state c \<noteq> conn_closing" using r(2) by (simp_all add: sizeof_header_def script_conn_def)
  from conn_progress [OF script_ok script_fresh this(1) run r(5) this(2), of 20] show ?thesis using run r(2-4) by blast
qed

section \<open>An event comes to an end\<close>

lemma drive_loop_total:
  assumes sock: "sock_ok ops s recvd sent" "mem_avail ops" "env_ok env recvd sent"
    and init: "conn_fresh s c0" "recvd w0 = []" "sent w0 = []" "int sizeof_header \<le> rsize c0"
    and polite: "\<And>w. polite answer (recvd w)"
    and close: "\<And>c w. \<exists>sv' w'. conn_close ops backlog c sv w = Some (sv', w')"
  shows "conn_run ops answer env recvd c0 w0 c w \<Longrightarrow> \<exists>r. drive_loop ops answer backlog nreqs c sv w = Some r"
proof (induction "(nreqs, c)" arbitrary: nreqs c w rule: wf_induct_rule [OF wf_budget])
  case (1 nreqs c w)
  show ?case
  proof (cases "state c = conn_closing")
    case True
    then show ?thesis using close [of c w] by (subst drive_loop.simps) auto
  next
    case False
    obtain reqs where inv: "serving s answer (padding c0) reqs c (recvd w) (sent w)"
      using conn_run_serving [OF 1(2) sock init(1-3)] by blast
    note sizes = polite_sizes [OF polite [of w]]
    obtain c' nreqs' stop w' where step: "drive_step ops answer c nreqs w = Some (c', nreqs', stop, w')"
      "\<not> stop \<longrightarrow> ((nreqs', c'), (nreqs, c)) \<in> budget"
      using drive_step_total [OF sock(1,2) inv conn_run_room [OF 1(2) sock init] sizes False, of nreqs] complete_nread_serving [OF sock(1,2) inv sizes] polite
      by blast
    have run: "conn_run ops answer env recvd c0 w0 c' w'" by (rule conn_run.round [OF 1(2) sizes step(1)])
    show ?thesis
    proof (cases stop)
      case True
      then show ?thesis using False step(1) by (subst drive_loop.simps) simp
    next
      case no_stop: False
      then obtain r where "drive_loop ops answer backlog nreqs' c' sv w' = Some r" using 1(1) [OF _ run] step(2) by blast
      then show ?thesis using False step(1) no_stop by (cases r, subst drive_loop.simps) simp
    qed
  qed
qed

lemma conn_close_total:
  assumes "mem_avail ops" "pool_array (sv_pool sv)"
  shows "\<exists>sv' w'. conn_close ops backlog c sv w = Some (sv', w')"
proof -
  have add: "conn_add_to_freelist ops c p w \<noteq> None" if "pool_array p" for c p w
    using that by (auto simp: conn_add_to_freelist_def Let_def split: prod.splits option.splits)
  obtain b w1 where d: "ev_del ops (sfd c) w = (b, w1)" by fastforce
  obtain sv1 w2 where a: "accept_new_conns ops backlog True sv (sys_close ops (sfd c) w1) = (sv1, w2)" by fastforce
  then have "pool_array (sv_pool sv1)" using assms(2) by (auto simp: accept_new_conns_def split: prod.splits)
  from add [OF this, of "conn_cleanup c" w2] show ?thesis
    using d a by (auto simp: conn_close_def Let_def)
qed

text \<open>C7: an event on the connection of a polite client comes to an end, whatever the socket does: the rounds of
  \<^verbatim>\<open>drive_machine\<close> use up the requests of the event, the states before the reply and the bytes of the body and of
  the reply. What they leave is a reachable connection, or the connection is closed and its buffers are back.\<close>

theorem event_returns:
  assumes "sock_ok ops s recvd sent" "mem_avail ops" "env_ok env recvd sent" "\<forall>w. polite answer (recvd w)"
    and "conn_fresh s c0" "recvd w0 = []" "sent w0 = []" "int sizeof_header \<le> rsize c0" "conn_run ops answer env recvd c0 w0 c w"
    and "pool_ok (sv_pool sv)" "pool_array (sv_pool sv)"
  shows "\<exists>r sv' w'. event_handler ops answer backlog reqs_per_event s c sv w = Some (r, sv', w') \<and> pool_ok (sv_pool sv') \<and>
    (\<forall>c'. r = Some c' \<longrightarrow> conn_run ops answer env recvd c0 w0 c' w')"
proof -
  have pol: "polite answer (recvd w)" for w using assms(4) by blast
  then have sizes: "\<forall>w. sizes_ok (recvd w)" using polite_sizes by blast
  obtain r sv' w' where loop: "drive_loop ops answer backlog reqs_per_event c sv w = Some (r, sv', w')"
    using drive_loop_total [where nreqs = reqs_per_event, OF assms(1-3,5-8) pol conn_close_total [OF assms(2,11)] assms(9)] by (metis prod_cases3)
  obtain reqs where "serving s answer (padding c0) reqs c (recvd w) (sent w)" using conn_run_serving [OF assms(9,1-3,5-7)] by blast
  then have "sfd c = s" by (simp add: serving_def conn_ok_def)
  then have "event_handler ops answer backlog reqs_per_event s c sv w = Some (r, sv', w')"
    using loop by (simp add: event_handler_def drive_machine_def)
  then show ?thesis using event_is_a_run [OF assms(1-3) sizes assms(5-7,9,10)] by blast
qed

lemma event_returns_witness:
  "\<exists>r sv w. event_handler stream_ops script_answer 1024 20 7 script_conn \<lparr>sv_pool = demo_pool, sv_listen = []\<rparr> (0, []) = Some (r, sv, w) \<and>
     pool_ok (sv_pool sv)"
proof -
  let ?sv = "\<lparr>sv_pool = demo_pool, sv_listen = []\<rparr>"
  have "polite script_answer demo_stream" by code_simp
  then have polite: "\<forall>w. polite script_answer (take (fst w) demo_stream)"
    using polite_prefix [of script_answer "take k demo_stream" "drop k demo_stream" for k] by simp
  have pool: "pool_ok (sv_pool ?sv)" "pool_array (sv_pool ?sv)"
    by (simp_all add: pool_ok_def demo_pool_def reusable_def out_room_def script_conn3_def sizeof_header_def READ_BUFFER_HIGHWAT_def)
  have z: "take (fst (0, [])) demo_stream = []" "snd (0 :: nat, []) = ([] :: bytes)" by simp_all
  have size: "int sizeof_header \<le> rsize script_conn" by (simp add: sizeof_header_def script_conn_def)
  show ?thesis
    using event_returns [OF stream_ok(1-3) polite script_fresh(1) z size conn_run.start pool, of 1024 20] by blast
qed

end
