(* ===== verification/Srv_Client.thy ===== *)
theory Srv_Client
  imports Srv_Serve Pm_Decimal
begin

text \<open>
  The test client (client.c), which sends one request again and again and prints the results. Its
  socket, its allocator and its standard output are operations on a world. The file is compiled
  with what the server uses: \<open>None\<close> is undefined behaviour or a loop that does not end.
\<close>

section \<open>Operations\<close>

record 'w client_ops =
  cl_socket :: "'w \<Rightarrow> int \<times> 'w"
  cl_connect :: "int \<Rightarrow> 'w \<Rightarrow> bool \<times> 'w"
  cl_close :: "int \<Rightarrow> 'w \<Rightarrow> 'w"
  cl_write :: "int \<Rightarrow> bytes \<Rightarrow> 'w \<Rightarrow> int \<times> 'w"
  cl_read :: "int \<Rightarrow> nat \<Rightarrow> 'w \<Rightarrow> io_read \<times> 'w"
  cl_calloc :: "nat \<Rightarrow> 'w \<Rightarrow> bool \<times> 'w"
  cl_print :: "bytes \<Rightarrow> 'w \<Rightarrow> 'w"

text \<open>What a \<^verbatim>\<open>read\<close> puts in the buffer and what it returns, as an \<^verbatim>\<open>unsigned int\<close>: -1 is \<open>2 ^ 32 - 1\<close>.\<close>

fun read_data :: "io_read \<Rightarrow> bytes" where
  "read_data (Read_bytes bs) = bs"
| "read_data _ = []"

fun read_result :: "io_read \<Rightarrow> u32" where
  "read_result (Read_bytes bs) = of_nat (length bs)"
| "read_result Read_eof = 0"
| "read_result _ = - 1"

section \<open>Reading a number of bytes\<close>

text \<open>
  The loop of \<^verbatim>\<open>my_read\<close>. \<^verbatim>\<open>ret\<close> is unsigned, so that \<^verbatim>\<open>ret <= 0\<close> holds at the end of the stream only;
  an error moves \<^verbatim>\<open>nrecv\<close> back by one.
\<close>

partial_function (option) my_read_loop :: "'w client_ops \<Rightarrow> int \<Rightarrow> u32 \<Rightarrow> u32 \<Rightarrow> bytes \<Rightarrow> 'w \<Rightarrow> (int \<times> bytes \<times> 'w) option" where
  "my_read_loop ops fd len nrecv buf w =
     (if nrecv < len then
        (let (r, w') = cl_read ops fd (unat (len - nrecv)) w
         in if read_result r = 0 then Some (- 1, buf, w')
            else do {
              buf' \<leftarrow> mem_put buf (unat nrecv) (read_data r);
              my_read_loop ops fd len (nrecv + read_result r) buf' w' })
      else Some (sint nrecv, buf, w))"

declare my_read_loop.simps [code]

definition my_read :: "'w client_ops \<Rightarrow> int \<Rightarrow> bytes \<Rightarrow> int \<Rightarrow> 'w \<Rightarrow> (int \<times> bytes \<times> 'w) option" where
  "my_read ops fd buf len w = my_read_loop ops fd (of_int len) 0 buf w"

section \<open>A request and its response\<close>

text \<open>The message: header, number and key, without a terminator behind the key.\<close>

definition request_msg :: "u32 \<Rightarrow> bytes \<Rightarrow> bytes" where
  "request_msg number buf =
     (let bsize = length buf + 4
      in [REQ, 0, 0, 0] @ be32 (of_nat bsize) @ le32 number @ buf)"

definition client_msg :: bytes where
  "client_msg = request_msg 10 (lit ''liu'')"

lemma read_le32_length: "read_le32 bs = Some x \<Longrightarrow> 4 \<le> length bs"
  by (cases bs rule: read_le32.cases) auto

text \<open>The loop over the results in the body \<open>mem\<close>: each is copied into \<^verbatim>\<open>buffer\<close> and printed as a C string.\<close>

function print_results :: "'w client_ops \<Rightarrow> u32 \<Rightarrow> int \<Rightarrow> bytes \<Rightarrow> nat \<Rightarrow> 'w \<Rightarrow> 'w option" where
  "print_results ops number i mem trep w =
     (if of_int i < number then do {
        len \<leftarrow> read_le32 (drop trep mem);
        data \<leftarrow> mem_slice mem (trep + 4) (unat len);
        buffer \<leftarrow> mem_put (replicate 8096 0) 0 data;
        n \<leftarrow> strlen_at buffer 0;
        (if i = INT_MAX then None
         else print_results ops number (i + 1) mem (trep + 4 + unat len) (cl_print ops (take n buffer @ [10]) w)) }
      else Some w)"
  by pat_completeness auto

termination
  by (relation "measure (\<lambda>(ops, number, i, mem, trep, w). length mem - trep)")
    (auto simp: mem_slice_def dest!: read_le32_length split: if_splits)


text \<open>The body of a response: the announced length is an \<^verbatim>\<open>int\<close>, and one byte more is allocated.\<close>

definition client_body :: "'w client_ops \<Rightarrow> int \<Rightarrow> u32 \<Rightarrow> 'w \<Rightarrow> 'w option" where
  "client_body ops connfd bodylen w =
     (let len = as_int (uint bodylen)
      in if len = INT_MAX then None
         else let n = nat ((len + 1) mod 2 ^ 64)
              in case cl_calloc ops n w of
                (False, w1) \<Rightarrow> Some (cl_print ops (lit ''malloc failed '' @ [10]) w1)
              | (True, w1) \<Rightarrow> do {
                  (ret, rep, w2) \<leftarrow> my_read ops connfd (replicate n 0) len w1;
                  (if ret \<noteq> len
                   then Some (cl_print ops (lit ''read body error, ret: '' @ dec_int ret @ [10]) w2)
                   else do {
                     number \<leftarrow> read_le32 rep;
                     print_results ops number 0 rep 4 w2 }) })"

text \<open>
  The header of a response is read once; what the read did not deliver is not initialised. A byte
  that is missing makes the read of the field undefined.
\<close>

definition client_reply :: "'w client_ops \<Rightarrow> int \<Rightarrow> 'w \<Rightarrow> 'w option" where
  "client_reply ops connfd w =
     (case cl_read ops connfd sizeof_header w of
        (r, w1) \<Rightarrow> (case read_data r of
            [] \<Rightarrow> None
          | magic # rest \<Rightarrow>
              if magic \<noteq> RES then Some (cl_print ops (lit ''magic error'' @ [10]) w1)
              else do {
                bodylen \<leftarrow> read_be32 (drop 3 rest);
                client_body ops connfd bodylen w1 }))"

section \<open>The loop of a thread\<close>

text \<open>
  \<^verbatim>\<open>connect_server\<close> returns -1 when it fails and has no \<^verbatim>\<open>return\<close> otherwise: \<open>None\<close> is the result
  that no caller looks at. The descriptor is set in both cases.
\<close>

definition connect_server :: "'w client_ops \<Rightarrow> 'w \<Rightarrow> int option \<times> int \<times> 'w" where
  "connect_server ops w =
     (let (connfd, w1) = cl_socket ops w; (ok, w2) = cl_connect ops connfd w1
      in (if ok then None else Some (- 1), connfd, w2))"

text \<open>One round of the loop.\<close>

definition client_round :: "'w client_ops \<Rightarrow> bytes \<Rightarrow> int \<Rightarrow> 'w \<Rightarrow> (int \<times> 'w) option" where
  "client_round ops msg connfd w =
     (let (sz, w1) = cl_write ops connfd msg w
      in if int (length msg) = sz then
           map_option (Pair connfd) (client_reply ops connfd (cl_print ops (lit ''send ok'' @ [10]) w1))
         else
           let w2 = cl_print ops (lit ''send error'' @ [10]) w1;
               w3 = (if 0 < connfd then cl_close ops connfd w2 else w2);
               (_, connfd', w4) = connect_server ops w3
           in Some (connfd', w4))"

text \<open>The loop never ends; \<open>n\<close> is the number of rounds that are looked at.\<close>

primrec client_rounds :: "'w client_ops \<Rightarrow> bytes \<Rightarrow> nat \<Rightarrow> int \<Rightarrow> 'w \<Rightarrow> (int \<times> 'w) option" where
  "client_rounds ops msg 0 connfd w = Some (connfd, w)"
| "client_rounds ops msg (Suc n) connfd w = do {
     (connfd', w') \<leftarrow> client_round ops msg connfd w;
     client_rounds ops msg n connfd' w' }"

definition send_cmd_tcp :: "'w client_ops \<Rightarrow> nat \<Rightarrow> 'w \<Rightarrow> (int \<times> 'w) option" where
  "send_cmd_tcp ops n w =
     (let (_, connfd, w1) = connect_server ops w
      in case cl_calloc ops (length client_msg + 1) w1 of
           (False, w2) \<Rightarrow> Some (connfd, w2)
         | (True, w2) \<Rightarrow> client_rounds ops client_msg n connfd w2)"

declare print_results.simps [simp del]

section \<open>What the client relies on\<close>

text \<open>
  A connection to a server: \<open>inb\<close> is what has been sent to the client and not been read, \<open>out\<close> is
  what has been printed. A read delivers some of it, at least one byte.
\<close>

definition client_ok :: "'w client_ops \<Rightarrow> int \<Rightarrow> ('w \<Rightarrow> bytes) \<Rightarrow> ('w \<Rightarrow> bytes) \<Rightarrow> bool" where
  "client_ok ops fd inb out \<longleftrightarrow>
     (\<forall>n w. 0 < n \<and> inb w \<noteq> [] \<longrightarrow>
        (\<exists>k w'. 0 < k \<and> k \<le> n \<and> k \<le> length (inb w) \<and> cl_read ops fd n w = (Read_bytes (take k (inb w)), w') \<and>
           inb w' = drop k (inb w) \<and> out w' = out w)) \<and>
     (\<forall>bs w. inb (cl_print ops bs w) = inb w \<and> out (cl_print ops bs w) = out w @ bs) \<and>
     (\<forall>n w. n < 2 ^ 31 \<longrightarrow> (\<exists>w'. cl_calloc ops n w = (True, w') \<and> inb w' = inb w \<and> out w' = out w))"

lemma client_okD:
  assumes "client_ok ops fd inb out"
  shows "0 < n \<Longrightarrow> inb w \<noteq> [] \<Longrightarrow>
      \<exists>k w'. 0 < k \<and> k \<le> n \<and> k \<le> length (inb w) \<and> cl_read ops fd n w = (Read_bytes (take k (inb w)), w') \<and>
        inb w' = drop k (inb w) \<and> out w' = out w"
    and "inb (cl_print ops bs w) = inb w" "out (cl_print ops bs w) = out w @ bs"
    and "n < 2 ^ 31 \<Longrightarrow> \<exists>w'. cl_calloc ops n w = (True, w') \<and> inb w' = inb w \<and> out w' = out w"
  using assms unfolding client_ok_def by blast+

lemma my_read_loop_ok:
  assumes ok: "client_ok ops fd inb out" and len: "unat len < 2 ^ 31"
  shows "inb w = d @ rest \<Longrightarrow> unat nrecv + length d = unat len \<Longrightarrow> unat len \<le> length buf \<Longrightarrow>
    \<exists>w'. my_read_loop ops fd len nrecv buf w = Some (sint len, take (unat nrecv) buf @ d @ drop (unat len) buf, w') \<and>
      inb w' = rest \<and> out w' = out w"
proof (induction d arbitrary: nrecv buf w rule: length_induct)
  case (1 d)
  show ?case
  proof (cases "d = []")
    case True
    then have "nrecv = len" using "1.prems"(2) by (simp add: word_unat_eq_iff)
    then show ?thesis using "1.prems"(1,3) True by (simp add: my_read_loop.simps)
  next
    case False
    then have "0 < length d" by simp
    then have lt: "nrecv < len" using "1.prems"(2) unfolding word_less_nat_alt by linarith
    then have n: "unat (len - nrecv) = length d" using "1.prems"(2) by (simp add: unat_sub_if' word_less_nat_alt)
    obtain k w1 where r: "0 < k" "k \<le> length d" "cl_read ops fd (length d) w = (Read_bytes (take k (inb w)), w1)"
      "inb w1 = drop k (inb w)" "out w1 = out w"
      using client_okD(1) [OF ok, of "length d" w] False "1.prems"(1) by auto
    have k: "take k (inb w) = take k d" "drop k (inb w) = drop k d @ rest" using r(2) "1.prems"(1) by simp_all
    have k32: "k < 2 ^ 32" using r(2) "1.prems"(2) len by simp
    have res: "read_result (Read_bytes (take k d)) = of_nat k" using r(2) by simp
    have nz: "(of_nat k :: u32) \<noteq> 0" using k32 r(1) by (simp add: word_unat_eq_iff unat_of_nat take_bit_nat_eq_self)
    have next_nrecv: "unat (nrecv + of_nat k) = unat nrecv + k"
      using r(2) "1.prems"(2) len k32 by (simp add: unat_word_ariths unat_of_nat take_bit_nat_eq_self)
    define buf1 where "buf1 = take (unat nrecv) buf @ take k d @ drop (unat nrecv + k) buf"
    have put: "mem_put buf (unat nrecv) (take k d) = Some buf1"
      using r(2) "1.prems"(2,3) by (simp add: mem_put_def buf1_def)
    have step: "my_read_loop ops fd len nrecv buf w = my_read_loop ops fd len (nrecv + of_nat k) buf1 w1"
      by (subst my_read_loop.simps) (simp add: lt n r(3) k(1) res nz put del: read_result.simps)
    have shorter: "length (drop k d) < length d" using r(1) False by simp
    have "inb w1 = drop k d @ rest" using r(4) k(2) by simp
    moreover have "unat (nrecv + of_nat k) + length (drop k d) = unat len" using next_nrecv "1.prems"(2) r(2) by simp
    moreover have "unat len \<le> length buf1" using "1.prems"(2,3) r(2) by (simp add: buf1_def)
    ultimately obtain w' where w': "my_read_loop ops fd len (nrecv + of_nat k) buf1 w1 =
        Some (sint len, take (unat nrecv + k) buf1 @ drop k d @ drop (unat len) buf1, w')" "inb w' = rest" "out w' = out w1"
      using "1.IH" shorter next_nrecv by metis
    have "take (unat nrecv + k) buf1 @ drop k d @ drop (unat len) buf1 = take (unat nrecv) buf @ d @ drop (unat len) buf"
      using r(2) "1.prems"(2,3) by (simp add: buf1_def)
    then show ?thesis using step w' r(5) by simp
  qed
qed

lemma sint_small: "n < 2 ^ 31 \<Longrightarrow> sint (of_int (int n) :: u32) = int n"
  by (simp add: sint_uint unsigned_of_nat take_bit_nat_eq_self signed_take_bit_int_eq_self of_nat_less_iff [symmetric] del: of_nat_less_iff)

lemma unat_small: "n < 2 ^ 32 \<Longrightarrow> unat (of_nat n :: u32) = n"
  by (simp add: unat_of_nat take_bit_nat_eq_self)

lemma my_read_ok:
  assumes "client_ok ops fd inb out" "inb w = d @ rest" "length d < 2 ^ 31" "length d \<le> length buf"
  shows "\<exists>w'. my_read ops fd buf (int (length d)) w = Some (int (length d), d @ drop (length d) buf, w') \<and>
    inb w' = rest \<and> out w' = out w"
proof -
  have u: "unat (of_nat (length d) :: u32) = length d" using assms(3) by (simp add: unat_small)
  show ?thesis
    using my_read_loop_ok [OF assms(1), of "of_nat (length d)" w d rest 0 buf] assms sint_small [OF assms(3)]
    by (simp add: my_read_def u)
qed

abbreviation enc :: "bytes \<Rightarrow> bytes" where
  "enc s \<equiv> le32 (of_nat (length s)) @ s"

lemma print_results_ok:
  assumes ok: "client_ok ops fd inb out" and number: "unat number < 2 ^ 31"
  shows "\<forall>s\<in>set vs. nul_free s \<and> length s < 8096 \<Longrightarrow> i + length vs = unat number \<Longrightarrow>
    \<exists>w'. print_results ops number (int i) (pre @ concat (map enc vs) @ post) (length pre) w = Some w' \<and>
      inb w' = inb w \<and> out w' = out w @ concat (map (\<lambda>s. s @ [10]) vs)"
proof (induction vs arbitrary: i pre w)
  case Nil
  then have "(of_int (int i) :: u32) = number" by (simp add: word_unat_eq_iff)
  then show ?case by (simp add: print_results.simps [of ops number "int i"])
next
  case (Cons s vs)
  have s: "nul_free s" "length s < 8096" using Cons.prems(1) by simp_all
  have i: "i < unat number" using Cons.prems(2) by simp
  then have lt: "(of_int (int i) :: u32) < number" using number by (simp add: word_less_nat_alt unat_small)
  have imax: "int i \<noteq> INT_MAX" using i number by (simp add: INT_MAX_def)
  define mem where "mem = pre @ concat (map enc (s # vs)) @ post"
  have len: "read_le32 (drop (length pre) mem) = Some (of_nat (length s))" by (simp add: mem_def)
  have us: "unat (of_nat (length s) :: u32) = length s" using s(2) by (simp add: unat_small)
  have data: "mem_slice mem (length pre + 4) (length s) = Some s" by (simp add: mem_slice_def mem_def)
  have buffer: "mem_put (replicate 8096 0) 0 s = Some (s @ replicate (8096 - length s) 0)"
    using s(2) by (simp add: mem_put_def)
  have "replicate (8096 - length s) (0 :: byte) = 0 # replicate (8095 - length s) 0"
    using s(2) by (cases "8096 - length s") auto
  then have n: "strlen_at (s @ replicate (8096 - length s) 0) 0 = Some (length s)"
    using strlen_at_append [of s 0 "[]" "replicate (8095 - length s) 0"] s(1) by simp
  have step: "print_results ops number (int i) mem (length pre) w =
      print_results ops number (int (Suc i)) mem (length pre + 4 + length s) (cl_print ops (s @ [10]) w)"
    unfolding print_results.simps [of ops number "int i"] len Option.bind.simps us data buffer n
    using lt imax by (simp add: add.commute)
  have "\<exists>w'. print_results ops number (int (Suc i)) ((pre @ enc s) @ concat (map enc vs) @ post) (length (pre @ enc s)) (cl_print ops (s @ [10]) w) = Some w' \<and>
      inb w' = inb (cl_print ops (s @ [10]) w) \<and> out w' = out (cl_print ops (s @ [10]) w) @ concat (map (\<lambda>s. s @ [10]) vs)"
    using Cons.prems by (intro Cons.IH) auto
  then show ?case using step client_okD(2,3) [OF ok] by (auto simp: mem_def add.assoc)
qed

section \<open>The client and the server\<close>

lemma request_msg_parts:
  "take 8 (request_msg number key) = [REQ, 0, 0, 0] @ be32 (of_nat (length key + 4))"
  "drop 8 (request_msg number key) = le32 number @ key"
  by (simp_all add: request_msg_def Let_def)

lemma request_msg_good:
  assumes "length key + 4 < 2 ^ 32"
  shows "good_req (take 8 (request_msg number key), drop 8 (request_msg number key))"
  using unat_small [OF assms] read_be32_be32 [of "of_nat (length key + 4)" "[]"]
  by (auto simp: good_req_def read_header_def request_msg_parts sizeof_header_def simp del: of_nat_add)

lemma body_key_request: "nul_free key \<Longrightarrow> body_key (drop 8 (request_msg number key)) = key"
  by (simp add: body_key_def request_msg_parts takeWhile_nul_free_self)

text \<open>A header that arrives in one read leads to the body.\<close>

lemma client_reply_header:
  assumes ok: "client_ok ops fd inb out" and pad: "length pad = 2" and inb: "inb w = header_image 0 pad n @ rest"
    and whole: "fst (cl_read ops fd sizeof_header w) = Read_bytes (header_image 0 pad n)"
  shows "\<exists>w'. client_reply ops fd w = client_body ops fd (of_nat n) w' \<and> inb w' = rest \<and> out w' = out w"
proof -
  have len: "length (header_image 0 pad n) = 8" using pad by (simp add: header_image_def)
  then have "inb w \<noteq> []" using inb by auto
  then obtain k w' where r: "k \<le> length (inb w)" "cl_read ops fd sizeof_header w = (Read_bytes (take k (inb w)), w')"
    "inb w' = drop k (inb w)" "out w' = out w"
    using client_okD(1) [OF ok, of sizeof_header w] by (auto simp: sizeof_header_def)
  have eq: "take k (inb w) = header_image 0 pad n" using whole r(2) by simp
  then have "length (take k (inb w)) = 8" using len by simp
  then have k: "k = 8" using r(1) by simp
  have "inb w' = rest" using r(3) k inb len by simp
  moreover have "client_reply ops fd w = client_body ops fd (of_nat n) w'"
    using r(2) eq pad read_be32_be32 [of "of_nat n" "[]"] by (simp add: client_reply_def header_image_def)
  ultimately show ?thesis using r(4) by auto
qed

lemma client_body_ok:
  assumes ok: "client_ok ops fd inb out" and inb: "inb w = resp @ rest" and len: "length resp < 2 ^ 31 - 1"
  shows "\<exists>w'. client_body ops fd (of_nat (length resp)) w =
      Option.bind (read_le32 (resp @ [0])) (\<lambda>number. print_results ops number 0 (resp @ [0]) 4 w') \<and>
    inb w' = rest \<and> out w' = out w"
proof -
  let ?n = "length resp"
  have a: "as_int (uint (of_nat ?n :: u32)) = int ?n"
    using len as_int_id [of "int ?n"] by (simp add: unsigned_of_nat take_bit_nat_eq_self)
  have i: "int ?n \<noteq> INT_MAX" using len by (simp add: INT_MAX_def)
  have m: "nat ((int ?n + 1) mod 2 ^ 64) = Suc ?n" using len by (simp add: nat_add_distrib)
  obtain w1 where w1: "cl_calloc ops (Suc ?n) w = (True, w1)" "inb w1 = inb w" "out w1 = out w"
    using client_okD(4) [OF ok, of "Suc ?n" w] len by auto
  obtain w2 where w2: "my_read ops fd (replicate (Suc ?n) 0) (int ?n) w1 = Some (int ?n, resp @ drop ?n (replicate (Suc ?n) 0), w2)"
    "inb w2 = rest" "out w2 = out w1"
    using my_read_ok [OF ok, of w1 resp rest "replicate (Suc ?n) 0"] len inb w1(2) by auto
  have d: "drop ?n (replicate (Suc ?n) (0 :: byte)) = [0]" by (simp add: drop_replicate del: replicate_Suc) simp
  have "client_body ops fd (of_nat ?n) w =
      Option.bind (read_le32 (resp @ [0])) (\<lambda>number. print_results ops number 0 (resp @ [0]) 4 w2)"
    unfolding client_body_def Let_def a m using i w1(1) w2(1) unfolding d by simp
  then show ?thesis using w1 w2 by auto
qed

lemma reply_body_split:
  "reply_body n vRes = le32 n @ concat (map enc (take m vRes)) @ concat (map enc (drop m vRes))"
  unfolding reply_body_def concat_append [symmetric] map_append [symmetric] by simp

lemma length_reply_body: "4 * length vRes \<le> length (reply_body n vRes)"
  unfolding reply_body_def by (induction vRes) auto

text \<open>The response to a request that \<^verbatim>\<open>Get\<close> answers with \<open>vRes\<close>.\<close>

definition response :: "bytes \<Rightarrow> u32 \<Rightarrow> bytes list \<Rightarrow> bytes" where
  "response pad number vRes =
     (let body = reply_body (reply_number number vRes) vRes in header_image 0 pad (length body) @ body)"

lemma reply_response:
  "nul_free key \<Longrightarrow> answer key = Some (0, vRes) \<Longrightarrow>
   reply answer pad (drop 8 (request_msg number key)) = Some (response pad number vRes)"
  using body_key_request [of key number] by (simp add: reply_def request_msg_parts response_def Let_def)

lemma client_round_prints:
  assumes "client_ok ops fd inb out" "length pad = 2"
    "cl_write ops fd (request_msg number key) w = (int (length (request_msg number key)), w1)"
    "inb w1 = response pad number vRes @ rest" "out w1 = out w"
    "fst (cl_read ops fd sizeof_header (cl_print ops (lit ''send ok'' @ [10]) w1)) = Read_bytes (take 8 (response pad number vRes))"
    "\<forall>s\<in>set vRes. nul_free s \<and> length s < 8096" "length (response pad number vRes) < 2 ^ 31"
  shows "\<exists>w'. client_round ops (request_msg number key) fd w = Some (fd, w') \<and> inb w' = rest \<and>
    out w' = out w @ lit ''send ok'' @ [10] @
      concat (map (\<lambda>s. s @ [10]) (take (if number = 0 then 10 else unat number) vRes))"
proof -
  define r where "r = response pad number vRes"
  define rn where "rn = reply_number number vRes"
  define resp where "resp = reply_body rn vRes"
  define w0 where "w0 = cl_print ops (lit ''send ok'' @ [10]) w1"
  have r: "r = header_image 0 pad (length resp) @ resp" by (simp add: r_def response_def resp_def rn_def Let_def)
  have header: "length (header_image 0 pad (length resp)) = 8" using assms(2) by (simp add: header_image_def)
  have resp31: "length resp < 2 ^ 31 - 1" using assms(8) header unfolding r_def [symmetric] r by simp
  have n31: "4 * length vRes < 2 ^ 31" using length_reply_body [of vRes rn] resp31 unfolding resp_def by linarith
  have u: "unat (of_nat (length vRes) :: u32) = length vRes" using n31 by (simp add: unat_small)
  have urn: "unat rn = min (length vRes) (if number = 0 then 10 else unat number)"
    using u by (simp add: rn_def reply_number_def DEFAULT_GET_NUMBER_def Let_def)
  have w0: "inb w0 = header_image 0 pad (length resp) @ resp @ rest" "out w0 = out w @ lit ''send ok'' @ [10]"
    using client_okD(2,3) [OF assms(1)] assms(4,5) unfolding r_def [symmetric] by (simp_all add: w0_def r)
  obtain w2 where w2: "client_reply ops fd w0 = client_body ops fd (of_nat (length resp)) w2" "inb w2 = resp @ rest" "out w2 = out w0"
    using client_reply_header [OF assms(1,2) w0(1)] assms(6) header unfolding r_def [symmetric] by (auto simp: w0_def r)
  obtain w3 where w3: "client_body ops fd (of_nat (length resp)) w2 =
      Option.bind (read_le32 (resp @ [0])) (\<lambda>number. print_results ops number 0 (resp @ [0]) 4 w3)" "inb w3 = rest" "out w3 = out w2"
    using client_body_ok [OF assms(1) w2(2) resp31] by blast
  have split: "resp @ [0] = le32 rn @ concat (map enc (take (unat rn) vRes)) @ (concat (map enc (drop (unat rn) vRes)) @ [0])"
    unfolding resp_def reply_body_split [of rn vRes "unat rn"] by simp
  have vs: "\<forall>s\<in>set (take (unat rn) vRes). nul_free s \<and> length s < 8096" using assms(7) by (auto dest: in_set_takeD)
  have "unat rn < 2 ^ 31" "0 + length (take (unat rn) vRes) = unat rn" using urn n31 by simp_all
  from print_results_ok [OF assms(1) this(1) vs this(2), of "le32 rn" "concat (map enc (drop (unat rn) vRes)) @ [0]" w3]
  obtain w' where w': "print_results ops rn 0 (resp @ [0]) 4 w3 = Some w'" "inb w' = inb w3"
    "out w' = out w3 @ concat (map (\<lambda>s. s @ [10]) (take (unat rn) vRes))"
    unfolding split by auto
  have "read_le32 (resp @ [0]) = Some rn" unfolding split by simp
  then have "client_round ops (request_msg number key) fd w = Some (fd, w')"
    using assms(3) w2(1) w3(1) w'(1) by (simp add: client_round_def w0_def)
  moreover have "take (unat rn) vRes = take (if number = 0 then 10 else unat number) vRes" by (simp add: urn min_def)
  ultimately show ?thesis
    using w'(2,3) w3(2,3) w2(3) w0(2) by (intro exI [of _ w']) simp
qed

text \<open>The request of the client is one that the server accepts. When the header of the response arrives in one
  read, the client prints of the results of \<^verbatim>\<open>Get\<close> as many as it asked for (10 when it asked for 0), wherever the
  network cuts the body, and leaves nothing of the response unread.\<close>

theorem client_prints_results:
  assumes "client_ok ops fd inb out" "nul_free key" "length key + 4 < 2 ^ 31"
    "reply answer pad (drop 8 (request_msg number key)) = Some r" "answer key = Some (0, vRes)" "length pad = 2"
    "cl_write ops fd (request_msg number key) w = (int (length (request_msg number key)), w1)"
    "inb w1 = r @ rest" "out w1 = out w"
    "fst (cl_read ops fd sizeof_header (cl_print ops (lit ''send ok'' @ [10]) w1)) = Read_bytes (take 8 r)"
    "\<forall>s\<in>set vRes. nul_free s \<and> length s < 8096" "length r < 2 ^ 31"
  shows "good_req (take 8 (request_msg number key), drop 8 (request_msg number key)) \<and>
    (\<exists>w'. client_round ops (request_msg number key) fd w = Some (fd, w') \<and> inb w' = rest \<and>
       out w' = out w @ lit ''send ok'' @ [10] @
         concat (map (\<lambda>s. s @ [10]) (take (if number = 0 then 10 else unat number) vRes)))"
proof -
  have "r = response pad number vRes" using assms(4) reply_response [of key answer vRes pad number] assms(2,5) by simp
  then show ?thesis using request_msg_good [of key number] assms(1,3,6-12) by (intro conjI client_round_prints) simp_all
qed

text \<open>A server for the witnesses: it answers every message with \<open>r\<close>.\<close>

definition demo_client :: "bytes \<Rightarrow> (bytes \<times> bytes) client_ops" where
  "demo_client r =
     \<lparr>cl_socket = (\<lambda>w. (3, w)), cl_connect = (\<lambda>fd w. (True, w)), cl_close = (\<lambda>fd w. w),
      cl_write = (\<lambda>fd bs w. (int (length bs), (r, snd w))),
      cl_read = (\<lambda>fd n w. if fst w = [] then (Read_eof, w) else (Read_bytes (take n (fst w)), (drop n (fst w), snd w))),
      cl_calloc = (\<lambda>n w. (True, w)), cl_print = (\<lambda>bs w. (fst w, snd w @ bs))\<rparr>"

lemma demo_client_ok: "client_ok (demo_client r) fd fst snd"
proof -
  have "\<exists>k w'. 0 < k \<and> k \<le> n \<and> k \<le> length (fst w) \<and>
      cl_read (demo_client r) fd n w = (Read_bytes (take k (fst w)), w') \<and> fst w' = drop k (fst w) \<and> snd w' = snd w"
    if "0 < n" "fst w \<noteq> []" for n w
    by (intro exI [of _ "min n (length (fst w))"] exI [of _ "(drop n (fst w), snd w)"])
      (use that in \<open>simp add: demo_client_def min_def\<close>)
  then show ?thesis by (simp add: client_ok_def demo_client_def)
qed

definition demo_answer :: "int \<Rightarrow> bytes \<Rightarrow> (int \<times> bytes list) option" where
  "demo_answer ret key = Some (ret, [[97, 98], [99]])"

definition demo_response :: bytes where
  "demo_response = header_image 0 [0, 0] 15 @ reply_body 1 [[97, 98], [99]]"

lemma demo_response_is: "reply (demo_answer 0) [0, 0] (drop 8 (request_msg 1 key)) = Some demo_response"
  by (simp add: reply_def request_msg_parts demo_answer_def demo_response_def reply_number_def DEFAULT_GET_NUMBER_def
      reply_body_def Let_def)

lemma client_prints_results_witness:
  "\<exists>w'. client_round (demo_client demo_response) (request_msg 1 [97]) 3 ([], []) = Some (3, w') \<and> fst w' = [] \<and>
     snd w' = lit ''send ok'' @ [10] @ [97, 98, 10]"
  using client_prints_results [of "demo_client demo_response" 3 fst snd "[97]" "demo_answer 0" "[0, 0]" 1 demo_response
      "[[97, 98], [99]]" "([], [])" "(demo_response, [])" "[]", OF demo_client_ok _ _ demo_response_is]
  by (simp add: demo_answer_def) (simp add: demo_client_def demo_response_def header_image_def reply_body_def sizeof_header_def)

section \<open>Error replies\<close>

lemma print_error_reply: "print_results ops (un_le32 79 117 116 32) 0 (error_reply @ [0]) 4 w = None"
proof -
  have len: "read_le32 (drop 4 (error_reply @ [0])) = Some (un_le32 111 102 32 109)" by (simp add: error_reply_def lit_def)
  have "un_le32 111 102 32 109 = 1830839919" by (simp add: un_le32_def push_bit_eq_mult)
  then have slice: "mem_slice (error_reply @ [0]) (4 + 4) (unat (un_le32 111 102 32 109)) = None"
    by (simp add: mem_slice_def error_reply_def lit_def)
  have "(of_int 0 :: u32) < un_le32 79 117 116 32" by (simp add: un_le32_def push_bit_eq_mult)
  then show ?thesis by (subst print_results.simps) (simp only: if_True len slice Option.bind.simps)
qed

text \<open>C39: when the server answers with an error, the client takes the text for results: it reads beyond the response.\<close>

theorem client_error_reply_undefined:
  assumes "client_ok ops fd inb out" "nul_free key" "length key + 4 < 2 ^ 31"
    "reply answer pad (drop 8 (request_msg number key)) = Some r" "answer key = Some (ret, vRes)" "ret \<noteq> 0" "length pad = 2"
    "cl_write ops fd (request_msg number key) w = (int (length (request_msg number key)), w1)" "inb w1 = r @ rest"
    "fst (cl_read ops fd sizeof_header (cl_print ops (lit ''send ok'' @ [10]) w1)) = Read_bytes (take 8 r)"
  shows "client_round ops (request_msg number key) fd w = None"
proof -
  define w0 where "w0 = cl_print ops (lit ''send ok'' @ [10]) w1"
  have r: "r = header_image 0 pad (length error_reply) @ error_reply"
    using assms(4,5,6) body_key_request [OF assms(2), of number] by (simp add: reply_def request_msg_parts Let_def)
  have header: "length (header_image 0 pad (length error_reply)) = 8" using assms(7) by (simp add: header_image_def)
  have w0: "inb w0 = header_image 0 pad (length error_reply) @ error_reply @ rest"
    using client_okD(2) [OF assms(1)] assms(9) by (simp add: w0_def r)
  obtain w2 where w2: "client_reply ops fd w0 = client_body ops fd (of_nat (length error_reply)) w2" "inb w2 = error_reply @ rest"
    using client_reply_header [OF assms(1,7) w0] assms(10) header by (auto simp: w0_def r)
  have "length error_reply < 2 ^ 31 - 1" by (simp add: error_reply_def lit_def)
  from client_body_ok [OF assms(1) w2(2) this] obtain w3 where
    "client_body ops fd (of_nat (length error_reply)) w2 =
      Option.bind (read_le32 (error_reply @ [0])) (\<lambda>number. print_results ops number 0 (error_reply @ [0]) 4 w3)" by blast
  moreover have "read_le32 (error_reply @ [0]) = Some (un_le32 79 117 116 32)" by (simp add: error_reply_def lit_def)
  ultimately show ?thesis using assms(8) w2(1) print_error_reply by (simp add: client_round_def w0_def)
qed

definition demo_error :: bytes where
  "demo_error = header_image 0 [0, 0] 13 @ error_reply"

lemma client_error_reply_undefined_witness:
  "client_round (demo_client demo_error) (request_msg 1 [97]) 3 ([], []) = None"
proof -
  have "length error_reply = 13" by (simp add: error_reply_def lit_def)
  then have "reply (demo_answer 1) [0, 0] (drop 8 (request_msg 1 [97])) = Some demo_error"
    by (simp add: reply_def request_msg_parts demo_answer_def demo_error_def)
  from client_error_reply_undefined [of "demo_client demo_error" 3 fst snd "[97]" "demo_answer 1" "[0, 0]" 1 demo_error 1
      "[[97, 98], [99]]" "([], [])" "(demo_error, [])" "[]", OF demo_client_ok _ _ this]
  show ?thesis by (simp add: demo_answer_def) (simp add: demo_client_def demo_error_def header_image_def error_reply_def lit_def sizeof_header_def)
qed

end
