(* ===== verification/Srv_Session.thy ===== *)
theory Srv_Session
  imports Srv_Progress Srv_Client
begin

text \<open>
  The server and the client on one connection: which bytes the server has sent when it waits
  again, as a function of the requests alone, and what the client prints of them.
\<close>

section \<open>A stream is parsed in one way\<close>

lemma good_req_length: "good_req r \<Longrightarrow> length (fst r) = sizeof_header"
  by (simp add: good_req_def)

lemma good_req_body: "good_req (h, b) \<Longrightarrow> good_req (h, b') \<Longrightarrow> length b = length b'"
  by (auto simp: good_req_def)

lemma stream_Nil [simp]: "stream [] = []"
  by (simp add: stream_def)

lemma stream_Cons: "stream ((h, b) # rs) = h @ b @ stream rs"
  by (simp add: stream_def)

lemma stream_unique:
  "stream rs @ rest = stream qs \<Longrightarrow> \<forall>r\<in>set rs. good_req r \<Longrightarrow> \<forall>q\<in>set qs. good_req q \<Longrightarrow> length rest < sizeof_header \<Longrightarrow>
   rs = qs \<and> rest = []"
proof (induction rs arbitrary: qs)
  case Nil
  show ?case
  proof (cases qs)
    case (Cons q qs')
    then have "sizeof_header \<le> length rest" using Nil good_req_length [of q] by (cases q) (simp add: stream_Cons)
    then show ?thesis using Nil.prems(4) by simp
  qed (use Nil in simp)
next
  case (Cons r rs)
  obtain h b where r: "r = (h, b)" by (cases r)
  have lh: "length h = sizeof_header" using Cons.prems(2) good_req_length [of r] r by simp
  show ?case
  proof (cases qs)
    case Nil
    then show ?thesis using Cons.prems(1) r lh by (simp add: stream_def sizeof_header_def)
  next
    case qs: (Cons q qs')
    obtain h' b' where q: "q = (h', b')" by (cases q)
    have "length h' = sizeof_header" using Cons.prems(3) good_req_length [of q] qs q by simp
    then have h: "h' = h" "b @ stream rs @ rest = b' @ stream qs'" using Cons.prems(1) r q qs lh by (simp_all add: stream_Cons)
    moreover have "length b = length b'" using good_req_body [of h b b'] Cons.prems(2,3) r q qs h(1) by simp
    ultimately have "b = b'" "stream rs @ rest = stream qs'" by simp_all
    then show ?thesis using Cons.IH [of qs'] Cons.prems r q qs h(1) by simp
  qed
qed

section \<open>What the server sends\<close>

text \<open>The requests of a session: a number and a key each; \<open>results\<close> are those of \<^verbatim>\<open>Get\<close>.\<close>

definition requests :: "(u32 \<times> bytes) list \<Rightarrow> bytes" where
  "requests qs = concat (map (\<lambda>(number, key). request_msg number key) qs)"

definition responses :: "bytes \<Rightarrow> (bytes \<Rightarrow> bytes list) \<Rightarrow> (u32 \<times> bytes) list \<Rightarrow> bytes" where
  "responses pad results qs = concat (map (\<lambda>(number, key). response pad number (results key)) qs)"

lemma requests_stream:
  "requests qs = stream (map (\<lambda>(number, key). (take 8 (request_msg number key), drop 8 (request_msg number key))) qs)"
  unfolding requests_def stream_def by (induction qs) (auto simp: append_take_drop_id [symmetric] simp del: append_take_drop_id)

lemma requests_replies:
  assumes "\<forall>(number, key)\<in>set qs. nul_free key \<and> answer key = Some (0, results key)"
  shows "replies answer pad (map (\<lambda>(number, key). (take 8 (request_msg number key), drop 8 (request_msg number key))) qs) =
    Some (responses pad results qs)"
  using assms by (induction qs) (auto simp: responses_def reply_response)

text \<open>A connection that waits has sent exactly the responses.\<close>

lemma session_sent:
  assumes server: "sock_ok ops s recvd sent" "mem_avail ops" "env_ok env recvd sent" "conn_fresh s c0" "recvd w0 = []" "sent w0 = []"
    and run: "conn_run ops answer env recvd c0 w0 c w" "state c \<in> {conn_waiting, conn_read}"
    and reqs: "recvd w = requests qs" "\<forall>(number, key)\<in>set qs. nul_free key \<and> length key + 4 < 2 ^ 32 \<and> answer key = Some (0, results key)"
  shows "sent w = responses (padding c0) results qs"
proof -
  let ?qs = "map (\<lambda>(number, key). (take 8 (request_msg number key), drop 8 (request_msg number key))) qs"
  obtain rs where inv: "serving s answer (padding c0) rs c (recvd w) (sent w)"
    using conn_run_serving [OF run(1) server] by blast
  then have rs: "\<forall>r\<in>set rs. good_req r" "recvd w = stream rs @ unparsed c" "replies answer (padding c0) rs = Some (sent w)" "conn_ok s (padding c0) c"
    using run(2) by (auto simp: serving_def)
  have "rbytes c < sizeof_header" using conn_run_waiting [OF run(1) server] run(2) by (auto simp: waiting_ok_def)
  then have "length (unparsed c) < sizeof_header" using length_unparsed [OF rs(4)] by simp
  moreover have "\<forall>q\<in>set ?qs. good_req q" using reqs(2) request_msg_good by fastforce
  ultimately have "rs = ?qs" using stream_unique [of rs "unparsed c" ?qs] rs(1,2) reqs(1) by (simp add: requests_stream)
  moreover have "replies answer (padding c0) ?qs = Some (responses (padding c0) results qs)"
    using reqs(2) by (intro requests_replies) auto
  ultimately show ?thesis using rs(3) by simp
qed

section \<open>What the client prints\<close>

text \<open>C9: a client that has sent requests one behind the other, in whatever pieces they arrive, has been sent exactly the
  responses to them, in their order, when the server's connection waits again; and a client that reads the first of them
  prints the names \<^verbatim>\<open>Get\<close> found, as many as it asked for, and leaves the other responses to be read.\<close>

theorem session_printed:
  assumes server: "sock_ok ops s recvd sent" "mem_avail ops" "env_ok env recvd sent" "conn_fresh s c0" "recvd w0 = []" "sent w0 = []"
    and run: "conn_run ops answer env recvd c0 w0 c w" "state c \<in> {conn_waiting, conn_read}" "recvd w = requests ((number, key) # qs)"
    and keys: "\<forall>(n, k)\<in>set ((number, key) # qs). nul_free k \<and> length k + 4 < 2 ^ 32 \<and> answer k = Some (0, results k)"
    and names: "\<forall>v\<in>set (results key). nul_free v \<and> length v < 8096" "length (sent w) < 2 ^ 31"
    and client: "client_ok cops fd inb out" "length (padding c0) = 2"
      "cl_write cops fd (request_msg number key) v = (int (length (request_msg number key)), v1)" "inb v1 = sent w" "out v1 = out v"
      "fst (cl_read cops fd sizeof_header (cl_print cops (lit ''send ok'' @ [10]) v1)) = Read_bytes (take 8 (sent w))"
  shows "sent w = responses (padding c0) results ((number, key) # qs) \<and>
    (\<exists>v'. client_round cops (request_msg number key) fd v = Some (fd, v') \<and> inb v' = responses (padding c0) results qs \<and>
      out v' = out v @ lit ''send ok'' @ [10] @
        concat (map (\<lambda>x. x @ [10]) (take (if number = 0 then 10 else unat number) (results key))))"
proof
  show all: "sent w = responses (padding c0) results ((number, key) # qs)"
    by (rule session_sent [OF server run keys])
  let ?r = "response (padding c0) number (results key)"
  have split: "sent w = ?r @ responses (padding c0) results qs" by (simp add: all responses_def)
  have "8 \<le> length ?r" using client(2) by (simp add: response_def header_image_def Let_def)
  then have head: "take 8 (sent w) = take 8 ?r" by (simp add: split)
  have "length ?r < 2 ^ 31" using names(2) by (simp add: split)
  then show "\<exists>v'. client_round cops (request_msg number key) fd v = Some (fd, v') \<and> inb v' = responses (padding c0) results qs \<and>
      out v' = out v @ lit ''send ok'' @ [10] @
        concat (map (\<lambda>x. x @ [10]) (take (if number = 0 then 10 else unat number) (results key)))"
    by (rule client_round_prints [OF client(1-3) client(4) [unfolded split] client(5) client(6) [unfolded head] names(1)])
qed

text \<open>Two requests in one stream, cut within the first header, and the client that sent them.\<close>

definition session_bytes :: bytes where
  "session_bytes = [128, 0, 0, 0, 0, 0, 0, 5, 1, 0, 0, 0, 107, 128, 0, 0, 0, 0, 0, 0, 5, 0, 0, 0, 0, 108]"

lemma session_bytes_requests: "session_bytes = requests [(1, [107]), (0, [108])]"
  unfolding session_bytes_def by code_simp

definition session_world :: script where
  "session_world = \<lparr>scr_in = [take 5 session_bytes, drop 5 session_bytes], scr_recvd = [], scr_sent = []\<rparr>"

definition session_good :: "script \<Rightarrow> bool" where
  "session_good w \<longleftrightarrow> scr_recvd w \<in> set [[], take 5 session_bytes, session_bytes]"

lemma session_good_sizes: "session_good w \<Longrightarrow> sizes_ok (scr_recvd w)"
proof -
  have "sizes_ok []" "sizes_ok (take 5 session_bytes)" "sizes_ok session_bytes" by code_simp+
  then show "session_good w \<Longrightarrow> sizes_ok (scr_recvd w)" by (auto simp: session_good_def)
qed

lemma session_printed_witness:
  "\<exists>c w v'. conn_run script_ops script_answer (=) scr_recvd script_conn session_world c w \<and> state c = conn_waiting \<and>
     scr_sent w = response [0, 0] 1 [[107], [107, 97]] @ response [0, 0] 0 [[108], [108, 97]] \<and>
     client_round (demo_client (scr_sent w)) (request_msg 1 [107]) 3 ([], []) = Some (3, v') \<and>
     snd v' = lit ''send ok'' @ [10] @ [107, 10]"
proof -
  let ?results = "\<lambda>key :: bytes. [key, key @ [97]]"
  have "map_option (\<lambda>(c, w). (state c, scr_recvd w = session_bytes, length (scr_sent w)))
      (rounds script_ops script_answer session_good 22 script_conn session_world) = Some (conn_waiting, True, 46)" by code_simp
  then obtain c w where r: "rounds script_ops script_answer session_good 22 script_conn session_world = Some (c, w)"
    "state c = conn_waiting" "scr_recvd w = requests [(1, [107]), (0, [108])]" "length (scr_sent w) = 46"
    by (auto simp: session_bytes_requests)
  have run: "conn_run script_ops script_answer (=) scr_recvd script_conn session_world c w"
    by (rule rounds_run [OF session_good_sizes r(1) conn_run.start])
  have z: "scr_recvd session_world = []" "scr_sent session_world = []" by (simp_all add: session_world_def)
  have st: "state c \<in> {conn_waiting, conn_read}" using r(2) by simp
  have keys: "\<forall>(n, k)\<in>set [(1 :: u32, [107]), (0, [108])]. nul_free k \<and> length k + 4 < 2 ^ 32 \<and> script_answer k = Some (0, ?results k)"
    by (simp add: script_answer_def)
  have pad: "length (padding script_conn) = 2" by (simp add: script_padding)
  have first: "fst (cl_read (demo_client (scr_sent w)) 3 sizeof_header (cl_print (demo_client (scr_sent w)) (lit ''send ok'' @ [10]) (scr_sent w, []))) =
      Read_bytes (take 8 (scr_sent w))"
    using r(4) by (auto simp: demo_client_def sizeof_header_def)
  have "scr_sent w = responses (padding script_conn) ?results [(1, [107]), (0, [108])] \<and>
    (\<exists>v'. client_round (demo_client (scr_sent w)) (request_msg 1 [107]) 3 ([], []) = Some (3, v') \<and>
      fst v' = responses (padding script_conn) ?results [(0, [108])] \<and>
      snd v' = snd ([] :: bytes, [] :: bytes) @ lit ''send ok'' @ [10] @ concat (map (\<lambda>x. x @ [10]) (take (if (1 :: u32) = 0 then 10 else unat (1 :: u32)) (?results [107]))))"
    by (rule session_printed [OF script_ok script_fresh(1) z run st r(3) keys _ _ demo_client_ok pad _ _ _ first])
      (simp_all add: demo_client_def r(4))
  then show ?thesis using run r(2) by (auto simp: responses_def script_padding)
qed

end
