(* ===== verification/Spec2Isabelle.thy ===== *)
theory Spec2Isabelle
  imports Pm_Indexer Srv_Faults Srv_Logging Srv_Hexdump Srv_Start Srv_Session
begin

text \<open>
  A verification development of \<^verbatim>\<open>prefix_match_server\<close>, a server that completes prefixes of Chinese
  names. \<^bold>\<open>The program.\<close> An offline tool, the \<^verbatim>\<open>indexer\<close>, reads lines of a name and a rank, spells the
  names in Latin letters with a table of readings, groups the names by spelling and writes a double-array
  trie (the vendored-in and extended library \<^verbatim>\<open>dastrie.h\<close>) to a file. The \<^verbatim>\<open>server\<close> maps that file, accepts
  connections on a dispatcher thread, hands them to worker threads through queues, and runs for every
  connection a state machine that reads binary requests, looks the key up in the trie and sends the
  ranked names back. A signal or an HTTP request makes it load a new index file while it serves.

  \<^bold>\<open>Conventions.\<close> Bytes are \<^typ>\<open>8 word\<close>, a C string or \<^verbatim>\<open>std::string\<close> is the list of its bytes without
  terminator, C integers are words where they wrap and \<^typ>\<open>int\<close> with the conversions written out
  elsewhere. Objects are records; operations take the object and return it changed. Exceptions are the
  left side of a sum (\<^theory_text>\<open>outcome\<close>). The result \<^const>\<open>None\<close> of a model function is behaviour that C++ leaves
  undefined (a read outside a block, an indeterminate value, an overflow) or a run that does not end
  (\<^theory_text>\<open>partial_function (option)\<close>), so that a theorem that says \<^const>\<open>Some\<close> also says that the code returns and
  stays inside its memory. Byte order is that of a little-endian host.

  \<^bold>\<open>Theories and sources.\<close>
  \<^item> \<^verbatim>\<open>Pm_Prelude\<close>: bytes, C strings, 32-bit values in memory, the order of \<^verbatim>\<open>std::string\<close>, and
    \<^theory_text>\<open>std_sort_ok\<close>, the contract of \<^verbatim>\<open>std::sort\<close>: some sorted permutation. The sort itself is an argument
    of the definitions that use it.
  \<^item> \<^verbatim>\<open>Das_Traits\<close>, \<^verbatim>\<open>Das_Tail\<close>: the element layouts (\<^verbatim>\<open>doublearray4_traits\<close>, \<^verbatim>\<open>doublearray5_traits\<close>), the
    class \<^verbatim>\<open>array\<close>, and the tail (\<^verbatim>\<open>otail\<close>, \<^verbatim>\<open>itail\<close>). The locale \<^theory_text>\<open>da_traits_laws\<close> states what the trie
    relies on; both layouts interpret it (\<^theory_text>\<open>da4\<close>, \<^theory_text>\<open>da5\<close>).
  \<^item> \<^verbatim>\<open>Das_Builder\<close>: \<^verbatim>\<open>builder\<close> of \<^verbatim>\<open>dastrie.h\<close>. Its proofs: \<^verbatim>\<open>Das_Vlist\<close> (the doubly linked list of vacant
    elements), \<^verbatim>\<open>Das_Scan\<close> (character table, children of a node), \<^verbatim>\<open>Das_Arrange\<close> (the recursion), \<^verbatim>\<open>Das_Build\<close>
    (the result represents the records). The recursion of \<^verbatim>\<open>arrange\<close> runs on fuel; \<^theory_text>\<open>max_key_length recs + 2\<close>
    is enough, which \<^theory_text>\<open>outcome_ok\<close> includes, and the search for a base ends because the list of vacant
    elements grows.
  \<^item> \<^verbatim>\<open>Das_Trie\<close>: \<^verbatim>\<open>trie\<close> of \<^verbatim>\<open>dastrie.h\<close>: exact search, prefix search, prefix cursor, \<^verbatim>\<open>assign\<close> and \<^verbatim>\<open>read\<close>.
    Its proofs: \<^verbatim>\<open>Das_Find\<close>, \<^verbatim>\<open>Das_Children\<close>, \<^verbatim>\<open>Das_Listing\<close>, \<^verbatim>\<open>Das_Image\<close>; \<^verbatim>\<open>Das_Props\<close> has the properties
    of the whole: what \<^verbatim>\<open>find\<close> and \<^verbatim>\<open>getChildren\<close> answer on an index that was built, written and loaded.
  \<^item> \<^verbatim>\<open>Pm_Util\<close>, \<^verbatim>\<open>Pm_Util_Props\<close>: \<^verbatim>\<open>util.cpp\<close> (strings, numbers, tokens, directories).
  \<^item> \<^verbatim>\<open>Pm_Letters\<close>: the table of readings and the spellings of a string, in \<^verbatim>\<open>prefixmatch.cpp\<close> and
    \<^verbatim>\<open>indexer.cpp\<close>. \<^verbatim>\<open>Pm_Query\<close>: \<^verbatim>\<open>Query\<close>, \<^verbatim>\<open>Get\<close>, the filter and the ranking, the loading of an index.
    \<^verbatim>\<open>Pm_Indexer\<close>: \<^verbatim>\<open>indexer.cpp\<close>.
  \<^item> \<^verbatim>\<open>Srv_Reload\<close>: \<^verbatim>\<open>Reload_index\<close> beside the queries, as an interleaving of their accesses to \<^verbatim>\<open>g_index\<close>,
    the lock and \<^verbatim>\<open>g_reloading\<close>.
  \<^item> \<^verbatim>\<open>Srv_Config\<close>: \<^verbatim>\<open>config.cpp\<close>.
  \<^item> \<^verbatim>\<open>Srv_Sys\<close>: what the server asks of the system: a record of operations (\<^verbatim>\<open>read\<close>, \<^verbatim>\<open>sendmsg\<close>, events,
    allocation) over a world of any type. \<^verbatim>\<open>Srv_Conn\<close>, \<^verbatim>\<open>Srv_Output\<close>, \<^verbatim>\<open>Srv_Input\<close>, \<^verbatim>\<open>Srv_Drive\<close>: the
    connection (\<^verbatim>\<open>conn.h\<close>), the messages to send, the requests, and \<^verbatim>\<open>drive_machine\<close>, one round of its
    loop (\<^theory_text>\<open>drive_step\<close>) for every state (\<^verbatim>\<open>server.cpp\<close>, \<^verbatim>\<open>network.cpp\<close>).
  \<^item> \<^verbatim>\<open>Srv_Pending\<close>, \<^verbatim>\<open>Srv_Transmit\<close>, \<^verbatim>\<open>Srv_Serve\<close>, \<^verbatim>\<open>Srv_Reading\<close>, \<^verbatim>\<open>Srv_Answer\<close>, \<^verbatim>\<open>Srv_Protocol\<close>: the
    invariant of a connection. \<^theory_text>\<open>pending\<close> abstracts the list of messages to the bytes still to send;
    \<^theory_text>\<open>serving\<close> relates the bytes received and sent to the requests answered; \<^theory_text>\<open>conn_run\<close> is a sequence of
    rounds and of steps of the environment. \<^verbatim>\<open>Srv_Props\<close>, \<^verbatim>\<open>Srv_Complete\<close>, \<^verbatim>\<open>Srv_Faults\<close>: the properties.
    \<^verbatim>\<open>Srv_Total\<close>, \<^verbatim>\<open>Srv_Progress\<close>: progress. \<^theory_text>\<open>room_ok\<close> says that the buffer has room in each state, every round is
    then defined, and \<^theory_text>\<open>budget\<close> is the measure by which the rounds of an event come to an end.
  \<^item> \<^verbatim>\<open>Srv_Queue\<close>, \<^verbatim>\<open>Srv_Thread\<close>: the queues of \<^verbatim>\<open>thread.cpp\<close> on a map of \<^verbatim>\<open>next\<close> pointers (the locales
    \<^theory_text>\<open>item_queue\<close> and \<^theory_text>\<open>item_pool\<close>, interpreted on the code's queue and free list), and the interleavings
    of the dispatcher and the workers. \<^verbatim>\<open>Srv_Pool\<close>, \<^verbatim>\<open>Srv_Life\<close>: the free list of connections, \<^verbatim>\<open>conn_new\<close>,
    \<^verbatim>\<open>conn_close\<close>, the doors of the listening sockets and the event handler (\<^verbatim>\<open>conn.cpp\<close>, \<^verbatim>\<open>network.cpp\<close>).
    \<^verbatim>\<open>Srv_Listen\<close>: the creation of the listening sockets (\<^verbatim>\<open>network.cpp\<close>). \<^verbatim>\<open>Srv_Register\<close>: \<^verbatim>\<open>thread_init\<close>, as the
    set-up of the structures and as an interleaving of the main thread and the workers that register.
  \<^item> \<^verbatim>\<open>Srv_Log\<close>: \<^verbatim>\<open>log.cpp\<close> (levels, file, buffers, the line). \<^verbatim>\<open>Srv_Logging\<close>: the threads that log beside the thread
    that writes, as an interleaving of their accesses to the two buffers, with the lock of each. \<^verbatim>\<open>Srv_Hexdump\<close>:
    the hexadecimal dump and its buffer.
  \<^item> \<^verbatim>\<open>Srv_Monitor\<close>: \<^verbatim>\<open>process_http_cb\<close>, the table of signals, \<^verbatim>\<open>do_privilege\<close>, \<^verbatim>\<open>init_server\<close> and the log line of a
    query. \<^verbatim>\<open>Srv_Start\<close>: options, \<^verbatim>\<open>daemonize\<close>, the file with the process id, the thread for signals,
    \<^verbatim>\<open>http_handler\<close> and \<^verbatim>\<open>main\<close> (\<^verbatim>\<open>server.cpp\<close>, \<^verbatim>\<open>sig.cpp\<close>), which composes the parts above.
  \<^item> \<^verbatim>\<open>Srv_Client\<close>: \<^verbatim>\<open>client.c\<close>, the test client. \<^verbatim>\<open>Srv_Session\<close>: the server and the client on one connection.

  \<^bold>\<open>What the theorems show.\<close> An index that was built, written and loaded answers \<^verbatim>\<open>find\<close> like the association
  list of its records, and \<^verbatim>\<open>getChildren\<close> lists the records with a prefix, with two exceptions at the
  leaves that are stated as theorems. A query returns the filtered and ranked names of these records.
  Whatever pieces the network delivers and takes, the bytes that a connection sends are the replies to
  the complete requests received, in order, and one that waits has answered them all. Its state machine is
  never stuck, except at a request whose answer is not defined, and every event of a client that keeps to
  the protocol comes to an end. In every
  interleaving each worker serves its connections once and in order, and no queue item has two owners.
  A query sees one index while another is loaded, and the index stays mapped when only one thread reloads.
  No log line is lost, doubled or torn while the writes succeed. The HTTP monitor lists the names of the
  answer. \<^verbatim>\<open>thread_init\<close> returns when all workers have registered, and no wake-up is lost. \<^verbatim>\<open>main\<close> reaches its event
  loop with a mapped index and listening sockets. The client prints what the server answered; the theorem at
  the end of this file joins the indexer, the server with its connections and the client.
  The faults that modelling met are theorems as well: the group of records that \<^verbatim>\<open>create_index\<close> drops, the
  query that never returns, error replies that look like results and that the client reads past, keys read
  past the buffer, bodies of 2 GB, blank lines of the configuration file, overlapping reloads, the log that
  stays silent after one failed write, long keys that overflow the line of the log, a missing log level.

  \<^bold>\<open>Hypotheses.\<close> \<^theory_text>\<open>sock_ok\<close>: a read appends what it returns to what has arrived, a send takes a part from the
  front, the other operations leave the socket alone. \<^theory_text>\<open>mem_avail\<close> and \<^theory_text>\<open>malloc_ok\<close>: allocation yields a
  block of the size asked for. \<^theory_text>\<open>env_ok\<close>: what the environment does between two rounds adds input only.
  \<^theory_text>\<open>sizes_ok\<close>: the client announces bodies below the limits. \<^theory_text>\<open>polite\<close>: it also ends its keys with a zero, within
  the body, and \<^verbatim>\<open>Get\<close> answers them (\<^verbatim>\<open>client.c\<close> sends no zero, and relies on one in the buffer). \<^theory_text>\<open>std_sort_ok\<close>: see above. \<^theory_text>\<open>writes_ok\<close> and
  \<^theory_text>\<open>files_ok\<close>: a write to the log file appends what it is given, opening and closing leave the files alone.
  \<^theory_text>\<open>client_ok\<close>: a read of the client delivers some of what was sent, memory is available and what is
  printed is added to the output. Each is shown to hold for a concrete world by the witnesses.

  \<^bold>\<open>Not modelled.\<close> \<^verbatim>\<open>libevent\<close> (the event loop decides which event comes next: the theorems hold for every
  order), \<^verbatim>\<open>pthread_create\<close> and the memory model of the machine (a step of an interleaving is atomic);
  \<^verbatim>\<open>usage\<close>, \<^verbatim>\<open>output_settings\<close>, \<^verbatim>\<open>vperror\<close> and other functions that only print; the time stamp and the
  terminal of \<^verbatim>\<open>log.cpp\<close>, and its functions for databases, which are empty; the sleeps; the file for
  port numbers in \<^verbatim>\<open>server_socket\<close>, which no caller asks for; the helpers for reference counts in
  \<^verbatim>\<open>thread.cpp\<close>, which nothing uses. The header \<^verbatim>\<open>comm.h\<close> only includes others. Calls of \<^verbatim>\<open>log_debug\<close> are left out of the models
  where they change none of the state above. The UDP branches are modelled as far as connections can
  reach them.
\<close>

section \<open>From the input of the indexer to the output of the client\<close>










end
